(* ===== verification/Prelude.thy ===== *)
theory Prelude
  imports Main "HOL-Library.Word"
begin

text \<open>
  Shared vocabulary of the development: the machine integer types of the C++ sources as
  words, byte strings as lists of 8-bit words, the little-endian and big-endian layouts of a
  word, and the generic facts on lists, words and options that the component theories use.
  The collections \<open>wire_simps\<close>, \<open>reader_simps\<close>, \<open>fifo_simps\<close>, \<open>stun_simps\<close> and
  \<open>tcp_simps\<close> gather the rewrite rules that carry the proofs of one component each.
\<close>

unbundle bit_operations_syntax

type_synonym u8 = "8 word"
type_synonym u16 = "16 word"
type_synonym u32 = "32 word"
type_synonym u64 = "64 word"
type_synonym bytes = "u8 list"

named_theorems wire_simps \<open>byte layouts and the writer operations\<close>
named_theorems reader_simps \<open>the reader operations\<close>
named_theorems fifo_simps \<open>the circular buffer\<close>
named_theorems stun_simps \<open>STUN attributes and messages\<close>
named_theorems tcp_simps \<open>the pseudo TCP sender and receiver\<close>

section \<open>Lists\<close>

lemma take_append_length [simp]: "length xs = n \<Longrightarrow> take n (xs @ ys) = xs"
  by simp

lemma drop_append_length [simp]: "length xs = n \<Longrightarrow> drop n (xs @ ys) = ys"
  by simp

lemma take_drop_split: "n \<le> m \<Longrightarrow> take n xs @ take (m - n) (drop n xs) = take m xs"
  by (metis le_add_diff_inverse take_add)

lemma sum_list_map_append:
  "sum_list (map f (xs @ ys)) = sum_list (map f xs) + sum_list (map f ys)"
  for f :: "'a \<Rightarrow> nat"
  by simp

lemma length4_cases:
  assumes "length xs = 4"
  obtains a b c d where "xs = [a, b, c, d]"
  using assms by (auto simp: length_Suc_conv numeral_eq_Suc)

lemma takeWhile_append_all:
  "\<forall>x \<in> set xs. P x \<Longrightarrow> ys = [] \<or> \<not> P (hd ys) \<Longrightarrow> takeWhile P (xs @ ys) = xs"
  by (cases ys) auto

lemma dropWhile_append_all:
  "\<forall>x \<in> set xs. P x \<Longrightarrow> ys = [] \<or> \<not> P (hd ys) \<Longrightarrow> dropWhile P (xs @ ys) = ys"
  by (cases ys) auto

section \<open>Words and their byte layouts\<close>

definition le_bytes :: "nat \<Rightarrow> 'a::len word \<Rightarrow> bytes" where
  "le_bytes n v = map (\<lambda>i. ucast (drop_bit (8 * i) v)) [0..<n]"

definition be_bytes :: "nat \<Rightarrow> 'a::len word \<Rightarrow> bytes" where
  "be_bytes n v = rev (le_bytes n v)"

fun le_load :: "bytes \<Rightarrow> 'a::len word" where
  "le_load [] = 0"
| "le_load (b # bs) = ucast b OR push_bit 8 (le_load bs)"

definition be_load :: "bytes \<Rightarrow> 'a::len word" where
  "be_load bs = le_load (rev bs)"

lemma length_le_bytes [simp]: "length (le_bytes n v) = n"
  by (simp add: le_bytes_def)

lemma length_be_bytes [simp]: "length (be_bytes n v) = n"
  by (simp add: be_bytes_def)

lemma bit_le_load:
  "bit (le_load bs :: 'a::len word) n \<longleftrightarrow>
     n < LENGTH('a) \<and> n < 8 * length bs \<and> bit (bs ! (n div 8)) (n mod 8)"
proof (induction bs arbitrary: n)
  case Nil
  then show ?case by simp
next
  case (Cons b bs)
  show ?case
  proof (cases "n < 8")
    case True
    then show ?thesis by (auto simp: bit_simps)
  next
    case False
    then have d: "n div 8 = Suc ((n - 8) div 8)" and m: "n mod 8 = (n - 8) mod 8"
      by (simp_all add: le_div_geq le_mod_geq)
    have "\<not> bit b n" using False by (simp add: bit_word_def not_less impossible_bit)
    with False show ?thesis
      by (auto simp: bit_simps Cons.IH d m)
  qed
qed

lemma le_load_le_bytes:
  assumes "LENGTH('a::len) \<le> 8 * n"
  shows "le_load (le_bytes n v) = (v :: 'a word)"
proof (rule bit_word_eqI)
  fix k assume k: "k < LENGTH('a)"
  then have "k < 8 * n" "k div 8 < n" using assms by auto
  with k show "bit (le_load (le_bytes n v) :: 'a word) k = bit v k"
    by (auto simp: bit_le_load le_bytes_def bit_simps)
qed

lemma le_bytes_le_load:
  assumes "8 * length bs \<le> LENGTH('a::len)"
  shows "le_bytes (length bs) (le_load bs :: 'a word) = bs"
proof (rule nth_equalityI)
  fix i assume "i < length (le_bytes (length bs) (le_load bs :: 'a word))"
  then have i: "i < length bs" by simp
  show "le_bytes (length bs) (le_load bs :: 'a word) ! i = bs ! i"
  proof (rule bit_word_eqI)
    fix k assume k: "k < LENGTH(8)"
    then have "(8 * i + k) div 8 = i" "(8 * i + k) mod 8 = k" "8 * i + k < 8 * length bs"
      using i by auto
    then show "bit (le_bytes (length bs) (le_load bs :: 'a word) ! i) k = bit (bs ! i) k"
      using i k assms by (auto simp: le_bytes_def bit_simps bit_le_load)
  qed
qed simp

lemma be_load_be_bytes [wire_simps]:
  "LENGTH('a::len) \<le> 8 * n \<Longrightarrow> be_load (be_bytes n v) = (v :: 'a word)"
  by (simp add: be_load_def be_bytes_def le_load_le_bytes)

lemma be_bytes_be_load:
  "8 * length bs \<le> LENGTH('a::len) \<Longrightarrow> be_bytes (length bs) (be_load bs :: 'a word) = bs"
  using le_bytes_le_load [where 'a = 'a and bs = "rev bs"] by (simp add: be_bytes_def be_load_def)

lemma le_load_zero_extend: "le_load (bs @ replicate k 0) = (le_load bs :: 'a::len word)"
  by (induction bs) (induction k; simp)+

lemma le_bytes_1 [simp]: "le_bytes (Suc 0) (v :: u8) = [v]"
  by (simp add: le_bytes_def)

lemma be_bytes_1 [simp]: "be_bytes (Suc 0) (v :: u8) = [v]"
  by (simp add: be_bytes_def)

lemma be_bytes_inj:
  assumes "LENGTH('a::len) \<le> 8 * n" "be_bytes n v = be_bytes n (w :: 'a word)"
  shows "v = w"
  using assms by (metis be_load_be_bytes)

section \<open>Comparisons as bit facts\<close>

lemma word_less_exp_iff:
  assumes "n < LENGTH('a::len)"
  shows "w < 2 ^ n \<longleftrightarrow> take_bit n w = (w :: 'a word)"
proof -
  have "unat (2 ^ n :: 'a word) = 2 ^ n"
    using assms unat_of_nat [of "2 ^ n", where 'a = 'a] by (simp add: power_strict_increasing)
  then have "w < 2 ^ n \<longleftrightarrow> unat w < 2 ^ n" by (simp add: word_less_nat_alt)
  also have "\<dots> \<longleftrightarrow> take_bit n (unat w) = unat w" by (simp add: take_bit_nat_eq_self_iff)
  also have "\<dots> \<longleftrightarrow> take_bit n w = w"
    by (metis unsigned_take_bit_eq word_unat_eq_iff)
  finally show ?thesis .
qed

lemma not_bit_of_less:
  assumes "w < 2 ^ k" "k < LENGTH('a::len)" "k \<le> m"
  shows "\<not> bit (w :: 'a word) m"
proof -
  have "take_bit k w = w" using assms(1) word_less_exp_iff [OF assms(2)] by blast
  then have "bit w m = bit (take_bit k w) m" by simp
  with assms(3) show ?thesis by (simp add: bit_take_bit_iff)
qed

lemma bit_0xFF: "bit (0xFF :: u32) n \<longleftrightarrow> n < 8"
  using bit_mask_iff [of 8 n, where 'a = u32] by (auto simp: mask_eq_exp_minus_1)

lemma word_drop_bit_less: "k + j = LENGTH('a) \<Longrightarrow> 0 < k \<Longrightarrow> drop_bit k (w :: 'a::len word) < 2 ^ j"
proof -
  assume k: "k + j = LENGTH('a)" "0 < k"
  have "n < j" if "bit w (k + n)" for n
    using bit_imp_le_length [OF that] k by simp
  then have "take_bit j (drop_bit k w) = drop_bit k w"
    by (intro bit_word_eqI) (auto simp: bit_simps)
  then show ?thesis using k by (subst word_less_exp_iff) simp_all
qed

lemma word_and_0xFF: "(c AND 0xFF :: u32) = take_bit 8 c"
  by (rule bit_word_eqI) (simp only: bit_and_iff bit_take_bit_iff bit_0xFF, blast)

lemma word_take_bit_less: "n < LENGTH('a) \<Longrightarrow> take_bit n (w :: 'a::len word) < 2 ^ n"
  by (simp add: word_less_exp_iff)

section \<open>The bits of a byte list\<close>

text \<open>Bits are numbered from the most significant bit of the first byte.\<close>

definition stream_bit :: "bytes \<Rightarrow> nat \<Rightarrow> bool" where
  "stream_bit mem k = bit (mem ! (k div 8)) (7 - k mod 8)"

lemma stream_bit_in_byte: "i < 8 \<Longrightarrow> stream_bit mem (8 * q + i) = bit (mem ! q) (7 - i)"
  by (simp add: stream_bit_def)

lemma stream_bit_eqI:
  assumes "length xs = length ys" "\<And>k. k < 8 * length xs \<Longrightarrow> stream_bit xs k = stream_bit ys k"
  shows "xs = ys"
proof (rule nth_equalityI)
  fix i
  assume i: "i < length xs"
  show "xs ! i = ys ! i"
  proof (rule bit_word_eqI)
    fix j
    assume "j < LENGTH(8)"
    then have j: "7 - j < 8" "7 - (7 - j) = j" "8 * i + (7 - j) < 8 * length xs" using i by auto
    from assms(2) [OF j(3)] j(1,2) show "bit (xs ! i) j = bit (ys ! i) j"
      by (simp only: stream_bit_in_byte)
  qed
qed (rule assms(1))

lemma stream_bit_be_load:
  assumes "length bs = n" "8 * n \<le> LENGTH('a::len)" "k < 8 * n"
  shows "stream_bit bs k = bit (be_load bs :: 'a word) (8 * n - 1 - k)"
proof -
  define q where "q = k div 8"
  define r where "r = k mod 8"
  have k: "k = 8 * q + r" "r < 8" "q < n" using assms(3) by (auto simp: q_def r_def)
  have e: "8 * n - 1 - k = 8 * (n - 1 - q) + (7 - r)" using k by simp
  have "(8 * (n - 1 - q) + (7 - r)) div 8 = n - 1 - q" "(8 * (n - 1 - q) + (7 - r)) mod 8 = 7 - r" by simp_all
  moreover have "rev bs ! (n - 1 - q) = bs ! q" using assms(1) k(3) by (simp add: rev_nth)
  ultimately show ?thesis
    using assms k(3) unfolding e be_load_def bit_le_load stream_bit_def q_def [symmetric] r_def [symmetric]
    by auto
qed

section \<open>Rounding up to a multiple of four\<close>

definition pad4 :: "nat \<Rightarrow> nat" where
  "pad4 n = (if n mod 4 = 0 then n else n + (4 - n mod 4))"

lemma pad4_mod [simp]: "pad4 n mod 4 = 0"
  unfolding pad4_def by presburger

lemma pad4_ge: "n \<le> pad4 n"
  unfolding pad4_def by presburger

lemma pad4_less: "pad4 n < n + 4"
  unfolding pad4_def by presburger

lemma pad4_id [simp]: "n mod 4 = 0 \<Longrightarrow> pad4 n = n"
  by (simp add: pad4_def)

end
