(* ===== verification/Byte_Order.thy ===== *)
theory Byte_Order
  imports Prelude
begin

text \<open>
  The byte order helpers of \<open>lib/base/byte_order.h\<close>. The object representation of an integer
  depends on the host; \<open>host_big_endian\<close> is the constant \<open>IsHostBigEndian\<close> returns in the
  little-endian build, and no lemma below unfolds it: every fact holds for both host orders.
  Memory is a byte list; an access outside of it has no defined result (\<open>None\<close>). The functions \<open>htobe\<close> and
  \<open>htole\<close> are those of the system header \<open>endian.h\<close>: on Linux the file defines none of its own.
\<close>

definition host_big_endian :: bool where
  "host_big_endian = False"

definition obj_bytes :: "nat \<Rightarrow> 'a::len word \<Rightarrow> bytes" where
  "obj_bytes n v = (if host_big_endian then rev (le_bytes n v) else le_bytes n v)"

definition obj_load :: "bytes \<Rightarrow> 'a::len word" where
  "obj_load bs = le_load (if host_big_endian then rev bs else bs)"

definition bswap :: "nat \<Rightarrow> 'a::len word \<Rightarrow> 'a word" where
  "bswap n v = le_load (rev (le_bytes n v))"

definition htobe16 :: "u16 \<Rightarrow> u16" where
  "htobe16 v = (if host_big_endian then v else bswap 2 v)"

definition htobe32 :: "u32 \<Rightarrow> u32" where
  "htobe32 v = (if host_big_endian then v else bswap 4 v)"

definition htobe64 :: "u64 \<Rightarrow> u64" where
  "htobe64 v = (if host_big_endian then v else bswap 8 v)"

definition htole16 :: "u16 \<Rightarrow> u16" where
  "htole16 v = (if host_big_endian then bswap 2 v else v)"

definition htole32 :: "u32 \<Rightarrow> u32" where
  "htole32 v = (if host_big_endian then bswap 4 v else v)"

definition htole64 :: "u64 \<Rightarrow> u64" where
  "htole64 v = (if host_big_endian then bswap 8 v else v)"

definition HostToNetwork16 :: "u16 \<Rightarrow> u16" where
  "HostToNetwork16 n = htobe16 n"

definition HostToNetwork32 :: "u32 \<Rightarrow> u32" where
  "HostToNetwork32 n = htobe32 n"

definition HostToNetwork64 :: "u64 \<Rightarrow> u64" where
  "HostToNetwork64 n = htobe64 n"

definition NetworkToHost16 :: "u16 \<Rightarrow> u16" where
  "NetworkToHost16 n = htobe16 n"

definition NetworkToHost32 :: "u32 \<Rightarrow> u32" where
  "NetworkToHost32 n = htobe32 n"

definition NetworkToHost64 :: "u64 \<Rightarrow> u64" where
  "NetworkToHost64 n = htobe64 n"

definition store :: "bytes \<Rightarrow> nat \<Rightarrow> bytes \<Rightarrow> bytes option" where
  "store mem off bs =
     (if off + length bs \<le> length mem
      then Some (take off mem @ bs @ drop (off + length bs) mem) else None)"

definition load :: "bytes \<Rightarrow> nat \<Rightarrow> nat \<Rightarrow> bytes option" where
  "load mem off n = (if off + n \<le> length mem then Some (take n (drop off mem)) else None)"

definition Set8 :: "bytes \<Rightarrow> nat \<Rightarrow> u8 \<Rightarrow> bytes option" where
  "Set8 mem off v = store mem off [v]"

definition Get8 :: "bytes \<Rightarrow> nat \<Rightarrow> u8 option" where
  "Get8 mem off = map_option hd (load mem off 1)"

definition SetBE16 :: "bytes \<Rightarrow> nat \<Rightarrow> u16 \<Rightarrow> bytes option" where
  "SetBE16 mem off v = store mem off (obj_bytes 2 (htobe16 v))"

definition SetBE32 :: "bytes \<Rightarrow> nat \<Rightarrow> u32 \<Rightarrow> bytes option" where
  "SetBE32 mem off v = store mem off (obj_bytes 4 (htobe32 v))"

definition SetBE64 :: "bytes \<Rightarrow> nat \<Rightarrow> u64 \<Rightarrow> bytes option" where
  "SetBE64 mem off v = store mem off (obj_bytes 8 (htobe64 v))"

definition GetBE16 :: "bytes \<Rightarrow> nat \<Rightarrow> u16 option" where
  "GetBE16 mem off = map_option (\<lambda>bs. htobe16 (obj_load bs)) (load mem off 2)"

definition GetBE32 :: "bytes \<Rightarrow> nat \<Rightarrow> u32 option" where
  "GetBE32 mem off = map_option (\<lambda>bs. htobe32 (obj_load bs)) (load mem off 4)"

definition GetBE64 :: "bytes \<Rightarrow> nat \<Rightarrow> u64 option" where
  "GetBE64 mem off = map_option (\<lambda>bs. htobe64 (obj_load bs)) (load mem off 8)"

definition SetLE16 :: "bytes \<Rightarrow> nat \<Rightarrow> u16 \<Rightarrow> bytes option" where
  "SetLE16 mem off v = store mem off (obj_bytes 2 (htole16 v))"

definition SetLE32 :: "bytes \<Rightarrow> nat \<Rightarrow> u32 \<Rightarrow> bytes option" where
  "SetLE32 mem off v = store mem off (obj_bytes 4 (htole32 v))"

definition SetLE64 :: "bytes \<Rightarrow> nat \<Rightarrow> u64 \<Rightarrow> bytes option" where
  "SetLE64 mem off v = store mem off (obj_bytes 8 (htole64 v))"

definition GetLE16 :: "bytes \<Rightarrow> nat \<Rightarrow> u16 option" where
  "GetLE16 mem off = map_option (\<lambda>bs. htole16 (obj_load bs)) (load mem off 2)"

definition GetLE32 :: "bytes \<Rightarrow> nat \<Rightarrow> u32 option" where
  "GetLE32 mem off = map_option (\<lambda>bs. htole32 (obj_load bs)) (load mem off 4)"

definition GetLE64 :: "bytes \<Rightarrow> nat \<Rightarrow> u64 option" where
  "GetLE64 mem off = map_option (\<lambda>bs. htole64 (obj_load bs)) (load mem off 8)"

section \<open>Independence of the host order\<close>

lemma length_obj_bytes [simp]: "length (obj_bytes n v) = n"
  by (simp add: obj_bytes_def)

lemma le_bytes_bswap:
  "8 * n = LENGTH('a::len) \<Longrightarrow> le_bytes n (bswap n (v :: 'a word)) = rev (le_bytes n v)"
  using le_bytes_le_load [where 'a = 'a and bs = "rev (le_bytes n v)"]
  by (simp add: bswap_def)

lemma bswap_le_load:
  "8 * length bs = LENGTH('a::len) \<Longrightarrow> bswap (length bs) (le_load bs :: 'a word) = le_load (rev bs)"
  by (simp add: bswap_def le_bytes_le_load)

lemma obj_bytes_htobe [wire_simps]:
  "obj_bytes 2 (htobe16 a) = be_bytes 2 a"
  "obj_bytes 4 (htobe32 b) = be_bytes 4 b"
  "obj_bytes 8 (htobe64 c) = be_bytes 8 c"
  by (simp_all add: obj_bytes_def htobe16_def htobe32_def htobe64_def be_bytes_def le_bytes_bswap)

lemma obj_bytes_htole [wire_simps]:
  "obj_bytes 2 (htole16 a) = le_bytes 2 a"
  "obj_bytes 4 (htole32 b) = le_bytes 4 b"
  "obj_bytes 8 (htole64 c) = le_bytes 8 c"
  by (simp_all add: obj_bytes_def htole16_def htole32_def htole64_def le_bytes_bswap)

lemma htobe_obj_load:
  "length bs = 2 \<Longrightarrow> htobe16 (obj_load bs) = be_load bs"
  "length bs = 4 \<Longrightarrow> htobe32 (obj_load bs) = be_load bs"
  "length bs = 8 \<Longrightarrow> htobe64 (obj_load bs) = be_load bs"
  using bswap_le_load [where 'a = 16 and bs = bs] bswap_le_load [where 'a = 32 and bs = bs]
    bswap_le_load [where 'a = 64 and bs = bs]
  by (auto simp: obj_load_def htobe16_def htobe32_def htobe64_def be_load_def)

lemma htole_obj_load:
  "length bs = 2 \<Longrightarrow> htole16 (obj_load bs) = le_load bs"
  "length bs = 4 \<Longrightarrow> htole32 (obj_load bs) = le_load bs"
  "length bs = 8 \<Longrightarrow> htole64 (obj_load bs) = le_load bs"
  using bswap_le_load [where 'a = 16 and bs = "rev bs"] bswap_le_load [where 'a = 32 and bs = "rev bs"]
    bswap_le_load [where 'a = 64 and bs = "rev bs"]
  by (auto simp: obj_load_def htole16_def htole32_def htole64_def)

lemma HostToNetwork_wire [wire_simps]:
  "obj_bytes 2 (HostToNetwork16 a) = be_bytes 2 a"
  "obj_bytes 4 (HostToNetwork32 b) = be_bytes 4 b"
  "obj_bytes 8 (HostToNetwork64 c) = be_bytes 8 c"
  by (simp_all add: HostToNetwork16_def HostToNetwork32_def HostToNetwork64_def obj_bytes_htobe)

lemma NetworkToHost_wire [wire_simps]:
  "length bs = 2 \<Longrightarrow> NetworkToHost16 (obj_load bs) = be_load bs"
  "length bs = 4 \<Longrightarrow> NetworkToHost32 (obj_load bs) = be_load bs"
  "length bs = 8 \<Longrightarrow> NetworkToHost64 (obj_load bs) = be_load bs"
  by (simp_all add: NetworkToHost16_def NetworkToHost32_def NetworkToHost64_def htobe_obj_load)

lemma bswap_bswap: "8 * n = LENGTH('a::len) \<Longrightarrow> bswap n (bswap n v) = (v :: 'a word)"
  using le_bytes_bswap [of n v] by (simp add: bswap_def [of n "bswap n v"] le_load_le_bytes)

lemma NetworkToHost_inverse [simp]:
  "NetworkToHost16 (HostToNetwork16 a) = a" "NetworkToHost32 (HostToNetwork32 b) = b"
  by (simp_all add: NetworkToHost16_def HostToNetwork16_def NetworkToHost32_def HostToNetwork32_def
      htobe16_def htobe32_def bswap_bswap)

lemma load_Some_iff: "load mem off n = Some bs \<longleftrightarrow> off + n \<le> length mem \<and> bs = take n (drop off mem)"
  by (auto simp: load_def)

lemma length_load: "load mem off n = Some bs \<Longrightarrow> length bs = n"
  by (auto simp: load_def split: if_splits)

lemma GetBE_eq [wire_simps]:
  "GetBE16 mem off = (if off + 2 \<le> length mem then Some (be_load (take 2 (drop off mem))) else None)"
  "GetBE32 mem off = (if off + 4 \<le> length mem then Some (be_load (take 4 (drop off mem))) else None)"
  "GetBE64 mem off = (if off + 8 \<le> length mem then Some (be_load (take 8 (drop off mem))) else None)"
  by (simp_all add: GetBE16_def GetBE32_def GetBE64_def load_def htobe_obj_load)

lemma GetLE_eq:
  "GetLE16 mem off = (if off + 2 \<le> length mem then Some (le_load (take 2 (drop off mem))) else None)"
  "GetLE32 mem off = (if off + 4 \<le> length mem then Some (le_load (take 4 (drop off mem))) else None)"
  "GetLE64 mem off = (if off + 8 \<le> length mem then Some (le_load (take 8 (drop off mem))) else None)"
  by (simp_all add: GetLE16_def GetLE32_def GetLE64_def load_def htole_obj_load)

section \<open>The memory cell interface\<close>

text \<open>
  The contract the callers rely on: what is set at an offset is what is read there, other
  bytes keep their values, and the access succeeds exactly when it stays inside the memory.
\<close>

locale memory_cell =
  fixes setc :: "bytes \<Rightarrow> nat \<Rightarrow> 'v \<Rightarrow> bytes option"
    and getc :: "bytes \<Rightarrow> nat \<Rightarrow> 'v option"
    and width :: nat
    and enc :: "'v \<Rightarrow> bytes"
    and dec :: "bytes \<Rightarrow> 'v"
  assumes setc_store: "setc mem off v = store mem off (enc v)"
    and getc_load: "getc mem off = map_option dec (load mem off width)"
    and enc_width: "length (enc v) = width"
    and dec_enc: "dec (enc v) = v"
begin

lemma get_set: "setc mem off v = Some mem' \<Longrightarrow> getc mem' off = Some v"
  by (auto simp: setc_store getc_load store_def load_def enc_width dec_enc split: if_splits)

lemma set_other:
  assumes "setc mem off v = Some mem'" "i < off \<or> off + width \<le> i" "i < length mem"
  shows "mem' ! i = mem ! i"
proof -
  have "off + width \<le> length mem" and m: "mem' = take off mem @ enc v @ drop (off + width) mem"
    using assms(1) by (auto simp: setc_store store_def enc_width split: if_splits)
  then show ?thesis
    using assms(2,3) by (auto simp: nth_append enc_width)
qed

lemma set_length: "setc mem off v = Some mem' \<Longrightarrow> length mem' = length mem"
  by (auto simp: setc_store store_def split: if_splits)

lemma set_total: "off + width \<le> length mem \<Longrightarrow> \<exists>mem'. setc mem off v = Some mem'"
  by (simp add: setc_store store_def enc_width)

end

interpretation be16: memory_cell SetBE16 GetBE16 2 "be_bytes 2" be_load
  by unfold_locales
    (simp_all add: SetBE16_def wire_simps load_def)

interpretation be32: memory_cell SetBE32 GetBE32 4 "be_bytes 4" be_load
  by unfold_locales
    (simp_all add: SetBE32_def wire_simps load_def)

interpretation be64: memory_cell SetBE64 GetBE64 8 "be_bytes 8" be_load
  by unfold_locales
    (simp_all add: SetBE64_def wire_simps load_def)

interpretation le16: memory_cell SetLE16 GetLE16 2 "le_bytes 2" le_load
  by unfold_locales
    (simp_all add: SetLE16_def wire_simps GetLE_eq load_def le_load_le_bytes)

interpretation le32: memory_cell SetLE32 GetLE32 4 "le_bytes 4" le_load
  by unfold_locales
    (simp_all add: SetLE32_def wire_simps GetLE_eq load_def le_load_le_bytes)

interpretation le64: memory_cell SetLE64 GetLE64 8 "le_bytes 8" le_load
  by unfold_locales
    (simp_all add: SetLE64_def wire_simps GetLE_eq load_def le_load_le_bytes)

interpretation byte8: memory_cell Set8 Get8 1 "\<lambda>v. [v]" hd
  by unfold_locales (simp_all add: Set8_def Get8_def)

end
