(* ===== verification/Byte_Buffer.thy ===== *)
theory Byte_Buffer
  imports Byte_Order
begin

text \<open>
  The growable buffer \<open>BufferT\<close> of \<open>stun/const_buffer.h\<close>, and the writer and reader of
  \<open>stun/byte_buffer.h\<close> and \<open>stun/byte_buffer.cc\<close>. A buffer is its initialised contents
  (\<open>buf_data\<close>, whose length is \<open>size_\<close>) and its capacity; bytes a growing \<open>SetSize\<close> exposes
  are indeterminate in C++ and are an argument of the model. A reader is the referenced bytes
  with the positions \<open>start_\<close> and \<open>end_\<close>; its operations return the value read, \<open>None\<close> for
  the return value \<open>false\<close>, and the reader after the call. The interface \<open>wire_codec\<close> states
  what a writer and a reader of one type promise each other; it is interpreted for every
  integer type the buffers carry, the varint included.
\<close>

section \<open>The growable buffer\<close>

record BufferT =
  buf_data :: bytes
  buf_capacity :: nat

definition buf_size :: "BufferT \<Rightarrow> nat" where
  "buf_size b = length (buf_data b)"

definition IsConsistent :: "BufferT \<Rightarrow> bool" where
  "IsConsistent b \<longleftrightarrow> buf_capacity b \<ge> buf_size b"

definition new_BufferT :: BufferT where
  "new_BufferT = \<lparr>buf_data = [], buf_capacity = 0\<rparr>"

definition EnsureCapacityWithHeadroom :: "nat \<Rightarrow> bool \<Rightarrow> BufferT \<Rightarrow> BufferT" where
  "EnsureCapacityWithHeadroom capacity extra_headroom b =
     (if capacity \<le> buf_capacity b then b
      else let new_capacity =
             (if extra_headroom then max capacity (buf_capacity b + buf_capacity b div 2)
              else capacity)
           in b\<lparr>buf_capacity := new_capacity\<rparr>)"

definition EnsureCapacity :: "nat \<Rightarrow> BufferT \<Rightarrow> BufferT" where
  "EnsureCapacity capacity b = EnsureCapacityWithHeadroom capacity False b"

definition AppendData :: "bytes \<Rightarrow> BufferT \<Rightarrow> BufferT" where
  "AppendData data b =
     (let new_size = buf_size b + length data;
          b' = EnsureCapacityWithHeadroom new_size True b
      in b'\<lparr>buf_data := buf_data b' @ data\<rparr>)"

definition SetData :: "bytes \<Rightarrow> BufferT \<Rightarrow> BufferT" where
  "SetData data b = AppendData data (b\<lparr>buf_data := []\<rparr>)"

definition SetSize :: "bytes \<Rightarrow> nat \<Rightarrow> BufferT \<Rightarrow> BufferT" where
  "SetSize indeterminate sz b =
     (let b' = EnsureCapacityWithHeadroom sz True b
      in b'\<lparr>buf_data := take sz (buf_data b' @ indeterminate)\<rparr>)"

definition Clear :: "BufferT \<Rightarrow> BufferT" where
  "Clear b = b\<lparr>buf_data := []\<rparr>"

lemma IsConsistent_new: "IsConsistent new_BufferT"
  by (simp add: IsConsistent_def new_BufferT_def buf_size_def)

lemma buf_data_EnsureCapacityWithHeadroom [simp]:
  "buf_data (EnsureCapacityWithHeadroom c h b) = buf_data b"
  by (simp add: EnsureCapacityWithHeadroom_def Let_def)

lemma capacity_EnsureCapacityWithHeadroom:
  "c \<le> buf_capacity (EnsureCapacityWithHeadroom c h b)"
  "buf_capacity b \<le> buf_capacity (EnsureCapacityWithHeadroom c h b)"
  by (auto simp: EnsureCapacityWithHeadroom_def Let_def)

lemma buf_data_AppendData [wire_simps]: "buf_data (AppendData data b) = buf_data b @ data"
  by (simp add: AppendData_def Let_def)

lemma buf_data_Clear [simp]: "buf_data (Clear b) = []"
  by (simp add: Clear_def)

lemma IsConsistent_AppendData: "IsConsistent (AppendData data b)"
  using capacity_EnsureCapacityWithHeadroom(1) [of "buf_size b + length data" True b]
  by (simp add: IsConsistent_def AppendData_def Let_def buf_size_def)

lemma IsConsistent_SetSize:
  "length indeterminate = sz - buf_size b \<Longrightarrow> IsConsistent (SetSize indeterminate sz b)"
  using capacity_EnsureCapacityWithHeadroom(1) [of sz True b]
  by (simp add: IsConsistent_def SetSize_def Let_def buf_size_def)

lemma IsConsistent_Clear: "IsConsistent b \<Longrightarrow> IsConsistent (Clear b)"
  by (simp add: IsConsistent_def Clear_def buf_size_def)

text \<open>Capacity grows by at least one half whenever an append reallocates.\<close>

lemma AppendData_headroom:
  assumes "buf_capacity (AppendData data b) \<noteq> buf_capacity b"
  shows "buf_capacity b + buf_capacity b div 2 \<le> buf_capacity (AppendData data b)"
  using assms by (auto simp: AppendData_def Let_def EnsureCapacityWithHeadroom_def split: if_splits)

section \<open>ByteBufferWriter\<close>

definition kDefaultCapacity :: nat where
  "kDefaultCapacity = 4096"

definition new_ByteBufferWriter :: BufferT where
  "new_ByteBufferWriter = EnsureCapacity kDefaultCapacity new_BufferT"

definition ByteBufferWriter_from :: "bytes \<Rightarrow> BufferT" where
  "ByteBufferWriter_from bs = AppendData bs new_BufferT"

definition WriteBytes :: "bytes \<Rightarrow> BufferT \<Rightarrow> BufferT" where
  "WriteBytes val w = AppendData val w"

definition WriteString :: "bytes \<Rightarrow> BufferT \<Rightarrow> BufferT" where
  "WriteString val w = WriteBytes val w"

definition WriteUInt8 :: "u8 \<Rightarrow> BufferT \<Rightarrow> BufferT" where
  "WriteUInt8 val w = WriteBytes (obj_bytes 1 val) w"

definition WriteUInt16 :: "u16 \<Rightarrow> BufferT \<Rightarrow> BufferT" where
  "WriteUInt16 val w = WriteBytes (obj_bytes 2 (HostToNetwork16 val)) w"

definition WriteUInt24 :: "u32 \<Rightarrow> BufferT \<Rightarrow> BufferT" where
  "WriteUInt24 val w = WriteBytes (take 3 (drop 1 (obj_bytes 4 (HostToNetwork32 val)))) w"

definition WriteUInt32 :: "u32 \<Rightarrow> BufferT \<Rightarrow> BufferT" where
  "WriteUInt32 val w = WriteBytes (obj_bytes 4 (HostToNetwork32 val)) w"

definition WriteUInt64 :: "u64 \<Rightarrow> BufferT \<Rightarrow> BufferT" where
  "WriteUInt64 val w = WriteBytes (obj_bytes 8 (HostToNetwork64 val)) w"

lemma unat_drop_bit_7_less:
  fixes val :: u64
  assumes "val \<ge> 0x80"
  shows "unat (drop_bit 7 val) < unat val"
proof -
  have "0 < unat val" using assms by (simp add: word_le_nat_alt)
  then have "unat val div 2 ^ 7 < unat val" by simp
  then show ?thesis unfolding unat_drop_bit_eq by (simp only: drop_bit_eq_div)
qed

function WriteUVarint :: "u64 \<Rightarrow> BufferT \<Rightarrow> BufferT" where
  "WriteUVarint val w =
     (if val \<ge> 0x80
      then WriteUVarint (drop_bit 7 val) (WriteBytes [ucast val OR 0x80] w)
      else WriteBytes [ucast val] w)"
  by pat_completeness auto
termination
  by (relation "measure (\<lambda>(val, w). unat val)") (simp_all add: unat_drop_bit_7_less)

declare WriteUVarint.simps [simp del]

lemma buf_data_new_writer [simp]: "buf_data new_ByteBufferWriter = []"
  by (simp add: new_ByteBufferWriter_def EnsureCapacity_def new_BufferT_def)

lemma obj_bytes_1 [simp]: "obj_bytes (Suc 0) (v :: u8) = [v]"
  by (simp add: obj_bytes_def)

lemma buf_data_writes [wire_simps]:
  "buf_data (WriteBytes bs w) = buf_data w @ bs"
  "buf_data (WriteString bs w) = buf_data w @ bs"
  "buf_data (WriteUInt8 a w) = buf_data w @ [a]"
  "buf_data (WriteUInt16 b w) = buf_data w @ be_bytes 2 b"
  "buf_data (WriteUInt32 c w) = buf_data w @ be_bytes 4 c"
  "buf_data (WriteUInt64 d w) = buf_data w @ be_bytes 8 d"
  by (simp_all add: WriteBytes_def WriteString_def WriteUInt8_def WriteUInt16_def WriteUInt32_def
      WriteUInt64_def wire_simps)

lemma buf_data_WriteUInt24 [wire_simps]:
  "buf_data (WriteUInt24 c w) = buf_data w @ drop 1 (be_bytes 4 c)"
  by (simp add: WriteUInt24_def WriteBytes_def wire_simps)

section \<open>ByteBufferReader\<close>

record ByteBufferReader =
  rd_bytes :: bytes
  rd_size :: nat
  rd_start :: nat
  rd_end :: nat

definition new_ByteBufferReader :: "bytes \<Rightarrow> ByteBufferReader" where
  "new_ByteBufferReader bs =
     \<lparr>rd_bytes = bs, rd_size = length bs, rd_start = 0, rd_end = length bs\<rparr>"

definition Length :: "ByteBufferReader \<Rightarrow> nat" where
  "Length r = rd_end r - rd_start r"

definition ReadBytes :: "nat \<Rightarrow> ByteBufferReader \<Rightarrow> bytes option \<times> ByteBufferReader" where
  "ReadBytes len r =
     (if len > Length r then (None, r)
      else (Some (take len (drop (rd_start r) (rd_bytes r))), r\<lparr>rd_start := rd_start r + len\<rparr>))"

definition ReadString :: "nat \<Rightarrow> ByteBufferReader \<Rightarrow> bytes option \<times> ByteBufferReader" where
  "ReadString len r =
     (if len > Length r then (None, r)
      else (Some (take len (drop (rd_start r) (rd_bytes r))), r\<lparr>rd_start := rd_start r + len\<rparr>))"

definition Consume :: "nat \<Rightarrow> ByteBufferReader \<Rightarrow> bool \<times> ByteBufferReader" where
  "Consume sz r =
     (if sz > Length r then (False, r) else (True, r\<lparr>rd_start := rd_start r + sz\<rparr>))"

definition ReadUInt8 :: "ByteBufferReader \<Rightarrow> u8 option \<times> ByteBufferReader" where
  "ReadUInt8 r = (case ReadBytes 1 r of (v, r') \<Rightarrow> (map_option obj_load v, r'))"

definition ReadUInt16 :: "ByteBufferReader \<Rightarrow> u16 option \<times> ByteBufferReader" where
  "ReadUInt16 r =
     (case ReadBytes 2 r of (v, r') \<Rightarrow> (map_option (\<lambda>bs. NetworkToHost16 (obj_load bs)) v, r'))"

definition ReadUInt24 :: "ByteBufferReader \<Rightarrow> u32 option \<times> ByteBufferReader" where
  "ReadUInt24 r =
     (case ReadBytes 3 r of (v, r') \<Rightarrow>
        (map_option (\<lambda>bs. NetworkToHost32 (obj_load (0 # bs))) v, r'))"

definition ReadUInt32 :: "ByteBufferReader \<Rightarrow> u32 option \<times> ByteBufferReader" where
  "ReadUInt32 r =
     (case ReadBytes 4 r of (v, r') \<Rightarrow> (map_option (\<lambda>bs. NetworkToHost32 (obj_load bs)) v, r'))"

definition ReadUInt64 :: "ByteBufferReader \<Rightarrow> u64 option \<times> ByteBufferReader" where
  "ReadUInt64 r =
     (case ReadBytes 8 r of (v, r') \<Rightarrow> (map_option (\<lambda>bs. NetworkToHost64 (obj_load bs)) v, r'))"

text \<open>The loop of \<open>ReadUVarint\<close>; a \<open>char\<close> is signed, so the casts to \<open>uint64_t\<close> extend its sign.\<close>

function ReadUVarint_loop :: "nat \<Rightarrow> u64 \<Rightarrow> ByteBufferReader \<Rightarrow> u64 option \<times> ByteBufferReader" where
  "ReadUVarint_loop i v r =
     (if i < 64 then
        (case ReadBytes 1 r of
           (None, r') \<Rightarrow> (None, r')
         | (Some bs, r') \<Rightarrow>
             (let byte = scast (hd bs) :: u64;
                  v' = v OR push_bit i (byte AND 0x7F)
              in if byte < 0x80 then (Some v', r') else ReadUVarint_loop (i + 7) v' r'))
      else (None, r))"
  by pat_completeness auto
termination
  by (relation "measure (\<lambda>(i, v, r). 64 - i)") auto

declare ReadUVarint_loop.simps [simp del]

definition ReadUVarint :: "ByteBufferReader \<Rightarrow> u64 option \<times> ByteBufferReader" where
  "ReadUVarint r = ReadUVarint_loop 0 0 r"

section \<open>The reader invariant and the unread bytes\<close>

definition reader_ok :: "ByteBufferReader \<Rightarrow> bool" where
  "reader_ok r \<longleftrightarrow>
     rd_start r \<le> rd_end r \<and> rd_end r = rd_size r \<and> rd_size r = length (rd_bytes r)"

definition unread :: "ByteBufferReader \<Rightarrow> bytes" where
  "unread r = drop (rd_start r) (rd_bytes r)"

definition advance :: "nat \<Rightarrow> ByteBufferReader \<Rightarrow> ByteBufferReader" where
  "advance n r = r\<lparr>rd_start := rd_start r + n\<rparr>"

lemma reader_ok_new [simp]: "reader_ok (new_ByteBufferReader bs)"
  by (simp add: reader_ok_def new_ByteBufferReader_def)

lemma unread_new [simp]: "unread (new_ByteBufferReader bs) = bs"
  by (simp add: unread_def new_ByteBufferReader_def)

lemma Length_unread: "reader_ok r \<Longrightarrow> Length r = length (unread r)"
  by (simp add: reader_ok_def Length_def unread_def)

lemma unread_advance [simp]: "unread (advance n r) = drop n (unread r)"
  by (simp add: unread_def advance_def add.commute)

lemma advance_advance [simp]: "advance n (advance m r) = advance (m + n) r"
  by (simp add: advance_def)

lemma advance_0 [simp]: "advance 0 r = r"
  by (simp add: advance_def)

lemma reader_ok_advance: "reader_ok r \<Longrightarrow> n \<le> Length r \<Longrightarrow> reader_ok (advance n r)"
  by (auto simp: reader_ok_def advance_def Length_def)

lemma ReadBytes_eq [reader_simps]:
  "reader_ok r \<Longrightarrow> ReadBytes n r =
     (if n \<le> length (unread r) then (Some (take n (unread r)), advance n r) else (None, r))"
  by (simp add: ReadBytes_def Length_unread unread_def advance_def)

lemma ReadString_eq [reader_simps]:
  "reader_ok r \<Longrightarrow> ReadString n r =
     (if n \<le> length (unread r) then (Some (take n (unread r)), advance n r) else (None, r))"
  by (simp add: ReadString_def Length_unread unread_def advance_def)

lemma Consume_eq [reader_simps]:
  "reader_ok r \<Longrightarrow> Consume n r =
     (if n \<le> length (unread r) then (True, advance n r) else (False, r))"
  by (simp add: Consume_def Length_unread unread_def advance_def)

lemma be_load_prefix_zero: "length bs = 3 \<Longrightarrow> be_load (0 # bs) = (be_load bs :: u32)"
  using le_load_zero_extend [of "rev bs" 1] by (simp add: be_load_def)

lemma ReadUInt_eq [reader_simps]:
  assumes "reader_ok r"
  shows "ReadUInt8 r = (if 1 \<le> length (unread r) then (Some (hd (unread r)), advance 1 r) else (None, r))"
    and "ReadUInt16 r = (if 2 \<le> length (unread r) then (Some (be_load (take 2 (unread r))), advance 2 r) else (None, r))"
    and "ReadUInt24 r = (if 3 \<le> length (unread r) then (Some (be_load (take 3 (unread r))), advance 3 r) else (None, r))"
    and "ReadUInt32 r = (if 4 \<le> length (unread r) then (Some (be_load (take 4 (unread r))), advance 4 r) else (None, r))"
    and "ReadUInt64 r = (if 8 \<le> length (unread r) then (Some (be_load (take 8 (unread r))), advance 8 r) else (None, r))"
proof -
  have "take 1 (unread r) = [hd (unread r)]" if "1 \<le> length (unread r)"
    using that by (cases "unread r") auto
  then show "ReadUInt8 r = (if 1 \<le> length (unread r) then (Some (hd (unread r)), advance 1 r) else (None, r))"
    using assms by (simp add: ReadUInt8_def ReadBytes_eq obj_load_def)
qed (use assms in \<open>simp_all add: ReadUInt16_def ReadUInt24_def ReadUInt32_def ReadUInt64_def
      ReadBytes_eq NetworkToHost_wire be_load_prefix_zero\<close>)

lemma scast_and_127: "(scast (b :: u8) :: u64) AND 0x7F = ucast b AND 0x7F"
proof -
  have "(scast b :: u64) AND mask 7 = ucast b AND mask 7"
    by (rule bit_word_eqI) (auto simp: bit_simps min_def)
  then show ?thesis by (simp add: mask_eq_exp_minus_1)
qed
lemma scast_less_128: "(scast (b :: u8) :: u64) < 0x80 \<longleftrightarrow> b < 0x80"
proof -
  have "(scast b :: u64) < 2 ^ 7 \<longleftrightarrow> take_bit 7 (scast b :: u64) = scast b"
    by (rule word_less_exp_iff) simp
  also have "\<dots> \<longleftrightarrow> take_bit 7 b = b"
  proof
    assume a: "take_bit 7 (scast b :: u64) = scast b"
    have "\<not> bit b 7"
      using arg_cong [OF a, where f = "\<lambda>w. bit w 7"] by (simp add: bit_simps)
    then show "take_bit 7 b = b"
      by (intro bit_word_eqI) (auto simp: bit_simps less_Suc_eq numeral_eq_Suc)
  next
    assume a: "take_bit 7 b = b"
    have "\<not> bit b 7"
      using arg_cong [OF a, where f = "\<lambda>w. bit w 7"] by (simp add: bit_simps)
    then show "take_bit 7 (scast b :: u64) = scast b"
      by (intro bit_word_eqI) (auto simp: bit_simps min_def)
  qed
  also have "\<dots> \<longleftrightarrow> b < 2 ^ 7"
    by (rule word_less_exp_iff [symmetric]) simp
  finally show ?thesis by simp
qed
lemma ReadUVarint_loop_eq:
  assumes "reader_ok r"
  shows "ReadUVarint_loop i v r =
     (if i < 64 then
        (case unread r of
           [] \<Rightarrow> (None, r)
         | b # _ \<Rightarrow>
             (if b < 0x80 then (Some (v OR push_bit i (ucast b AND 0x7F)), advance 1 r)
              else ReadUVarint_loop (i + 7) (v OR push_bit i (ucast b AND 0x7F)) (advance 1 r)))
      else (None, r))"
  using assms
  by (subst ReadUVarint_loop.simps)
    (simp add: ReadBytes_eq Let_def scast_less_128 scast_and_127 del: push_bit_and split: list.split)

lemma reader_ok_ReadUVarint_loop:
  assumes "reader_ok r"
  shows "reader_ok (snd (ReadUVarint_loop i v r))"
  using assms
proof (induction "64 - i" arbitrary: i v r rule: less_induct)
  case less
  have ok: "reader_ok (advance 1 r)" if "unread r = b # bs" for b bs
    using that less.prems by (simp add: reader_ok_advance Length_unread)
  have "reader_ok (snd (ReadUVarint_loop (i + 7) v' (advance 1 r)))"
    if "i < 64" "unread r = b # bs" for v' b bs
    using that ok by (intro less.hyps) auto
  with less.prems ok show ?case
    by (subst ReadUVarint_loop_eq) (auto simp del: push_bit_and split: list.split)
qed

section \<open>The codec interface\<close>

text \<open>
  A codec is a writer operation and a reader operation of one type: the writer appends the
  encoding of a value, and a reader whose unread bytes start with that encoding returns the
  value and moves past exactly it.
\<close>

locale wire_codec =
  fixes wr :: "'v \<Rightarrow> BufferT \<Rightarrow> BufferT"
    and rd :: "ByteBufferReader \<Rightarrow> 'v option \<times> ByteBufferReader"
    and enc :: "'v \<Rightarrow> bytes"
    and valid :: "'v \<Rightarrow> bool"
  assumes wr_enc: "valid v \<Longrightarrow> buf_data (wr v w) = buf_data w @ enc v"
    and rd_enc: "reader_ok r \<Longrightarrow> valid v \<Longrightarrow> unread r = enc v @ rest \<Longrightarrow>
      rd r = (Some v, advance (length (enc v)) r)"
begin

lemma round_trip: "valid v \<Longrightarrow> fst (rd (new_ByteBufferReader (buf_data (wr v new_ByteBufferWriter)))) = Some v"
  using rd_enc [of "new_ByteBufferReader (enc v)" v "[]"] by (simp add: wr_enc)

primrec rd_all :: "nat \<Rightarrow> ByteBufferReader \<Rightarrow> 'v list option \<times> ByteBufferReader" where
  "rd_all 0 r = (Some [], r)"
| "rd_all (Suc n) r =
     (case rd r of (None, r') \<Rightarrow> (None, r')
      | (Some v, r') \<Rightarrow> (case rd_all n r' of (vs, r'') \<Rightarrow> (map_option (Cons v) vs, r'')))"

lemma wr_all_enc:
  "\<forall>v \<in> set vs. valid v \<Longrightarrow> buf_data (fold wr vs w) = buf_data w @ concat (map enc vs)"
  by (induction vs arbitrary: w) (simp_all add: wr_enc)

lemma rd_all_enc:
  assumes "\<forall>v \<in> set vs. valid v" "reader_ok r" "unread r = concat (map enc vs) @ rest"
  shows "rd_all (length vs) r = (Some vs, advance (length (concat (map enc vs))) r)"
  using assms
proof (induction vs arbitrary: r)
  case Nil
  then show ?case by simp
next
  case (Cons v vs)
  have rd: "rd r = (Some v, advance (length (enc v)) r)"
    using Cons.prems by (intro rd_enc [where rest = "concat (map enc vs) @ rest"]) simp_all
  have "reader_ok (advance (length (enc v)) r)"
    using Cons.prems by (simp add: reader_ok_advance Length_unread)
  moreover have "unread (advance (length (enc v)) r) = concat (map enc vs) @ rest"
    using Cons.prems by simp
  ultimately have "rd_all (length vs) (advance (length (enc v)) r) =
      (Some vs, advance (length (concat (map enc vs))) (advance (length (enc v)) r))"
    using Cons.prems by (intro Cons.IH) simp_all
  then show ?case by (simp add: rd)
qed

end

interpretation u8_codec: wire_codec WriteUInt8 ReadUInt8 "\<lambda>v. [v]" "\<lambda>_. True"
  by unfold_locales (simp_all add: wire_simps reader_simps)

interpretation u16_codec: wire_codec WriteUInt16 ReadUInt16 "be_bytes 2" "\<lambda>_. True"
  by unfold_locales (simp_all add: wire_simps reader_simps)

interpretation u32_codec: wire_codec WriteUInt32 ReadUInt32 "be_bytes 4" "\<lambda>_. True"
  by unfold_locales (simp_all add: wire_simps reader_simps)

interpretation u64_codec: wire_codec WriteUInt64 ReadUInt64 "be_bytes 8" "\<lambda>_. True"
  by unfold_locales (simp_all add: wire_simps reader_simps)

section \<open>The varint codec\<close>

text \<open>The encoding of a 64-bit value in groups of seven bits, least significant group first.\<close>

function uvarint_bytes :: "u64 \<Rightarrow> bytes" where
  "uvarint_bytes val =
     (if val \<ge> 0x80 then (ucast val OR 0x80) # uvarint_bytes (drop_bit 7 val) else [ucast val])"
  by pat_completeness auto
termination
  by (relation "measure unat") (simp_all add: unat_drop_bit_7_less)

declare uvarint_bytes.simps [simp del]

lemma buf_data_WriteUVarint [wire_simps]: "buf_data (WriteUVarint val w) = buf_data w @ uvarint_bytes val"
proof (induction val w rule: WriteUVarint.induct)
  case (1 val w)
  then show ?case
    by (simp add: WriteUVarint.simps [of val w] uvarint_bytes.simps [of val] wire_simps)
qed

lemma bit_0x80: "bit (0x80 :: u8) n \<longleftrightarrow> n = 7" "bit (0x80 :: u64) n \<longleftrightarrow> n = 7"
  using bit_exp_iff [of 7 n, where 'a = u8] bit_exp_iff [of 7 n, where 'a = u64] by auto

lemma varint_group:
  fixes val :: u64
  shows "\<not> (ucast val OR 0x80 :: u8) < 0x80"
    and "ucast (ucast val OR 0x80 :: u8) AND 0x7F = take_bit 7 val"
proof -
  have "bit (ucast val OR 0x80 :: u8) 7" by (simp add: bit_simps bit_0x80)
  moreover have "\<not> bit (take_bit 7 (ucast val OR 0x80 :: u8)) 7" by (simp add: bit_simps)
  ultimately show "\<not> (ucast val OR 0x80 :: u8) < 0x80"
    using word_less_exp_iff [of 7 "ucast val OR 0x80 :: u8"] by fastforce
  have "bit (ucast val OR 0x80 :: u8) n = bit val n" if "n < 7" for n
    using that bit_0x80(1) [of n] by (auto simp: bit_or_iff bit_unsigned_iff)
  then have "take_bit 7 (ucast (ucast val OR 0x80 :: u8) :: u64) = take_bit 7 val"
    by (intro bit_word_eqI) (auto simp only: bit_take_bit_iff bit_unsigned_iff possible_bit_word)
  then show "ucast (ucast val OR 0x80 :: u8) AND 0x7F = take_bit 7 val"
    by (simp add: take_bit_eq_mask mask_eq_exp_minus_1)
qed

lemma push_bit_groups:
  fixes val :: u64
  shows "push_bit i (take_bit 7 val) OR push_bit (i + 7) (drop_bit 7 val) = push_bit i val"
proof (rule bit_word_eqI)
  fix n
  assume "n < LENGTH(64)"
  moreover have "7 + (n - (i + 7)) = n - i" if "i + 7 \<le> n" using that by simp
  ultimately show "bit (push_bit i (take_bit 7 val) OR push_bit (i + 7) (drop_bit 7 val)) n = bit (push_bit i val) n"
    by (cases "i + 7 \<le> n") (auto simp: bit_simps)
qed

lemma varint_last:
  fixes val :: u64
  assumes "val < 0x80"
  shows "(ucast val :: u8) < 0x80" "ucast (ucast val :: u8) AND 0x7F = val"
proof -
  have t: "take_bit 7 val = val" using assms word_less_exp_iff [of 7 val] by simp
  have "take_bit 7 (ucast val :: u8) = ucast val"
    by (rule bit_word_eqI) (use t in \<open>auto simp: bit_simps bit_eq_iff\<close>)
  then show "(ucast val :: u8) < 0x80" using word_less_exp_iff [of 7 "ucast val :: u8"] by simp
  have "take_bit 7 (ucast (ucast val :: u8) :: u64) = take_bit 7 val"
    by (rule bit_word_eqI) (auto simp: bit_simps)
  with t show "ucast (ucast val :: u8) AND 0x7F = val"
    by (simp add: take_bit_eq_mask mask_eq_exp_minus_1)
qed

lemma ReadUVarint_loop_enc:
  assumes "reader_ok r" "unread r = uvarint_bytes val @ rest" "i < 64" "take_bit (64 - i) val = val"
  shows "ReadUVarint_loop i v r = (Some (v OR push_bit i val), advance (length (uvarint_bytes val)) r)"
  using assms
proof (induction val arbitrary: i v r rule: uvarint_bytes.induct)
  case (1 val)
  show ?case
  proof (cases "val \<ge> 0x80")
    case True
    then have enc: "uvarint_bytes val = (ucast val OR 0x80) # uvarint_bytes (drop_bit 7 val)"
      by (simp add: uvarint_bytes.simps [of val])
    have "take_bit (64 - (i + 7)) (drop_bit 7 val) = drop_bit 7 val"
      using "1.prems"(4) by (metis diff_diff_left drop_bit_take_bit)
    moreover have "i + 7 < 64"
    proof (rule ccontr)
      assume "\<not> i + 7 < 64"
      then have "take_bit 7 val = val"
        using "1.prems"(4) by (metis add.commute le_diff_conv linorder_not_less min.absorb2 take_bit_take_bit)
      with True show False using word_less_exp_iff [of 7 val] by simp
    qed
    moreover have "reader_ok (advance 1 r)" "unread (advance 1 r) = uvarint_bytes (drop_bit 7 val) @ rest"
      using "1.prems" enc by (simp_all add: reader_ok_advance Length_unread unread_advance)
    ultimately have "ReadUVarint_loop (i + 7) w (advance 1 r) =
        (Some (w OR push_bit (i + 7) (drop_bit 7 val)),
         advance (length (uvarint_bytes (drop_bit 7 val))) (advance 1 r))" for w
      using True by (intro "1.IH") auto
    with "1.prems" enc show ?thesis
      by (subst ReadUVarint_loop_eq)
        (simp_all add: varint_group push_bit_groups advance_advance or.assoc del: push_bit_and)
  next
    case False
    then show ?thesis
      using "1.prems"
      by (subst ReadUVarint_loop_eq)
        (simp_all add: varint_last uvarint_bytes.simps [of val] del: push_bit_and)
  qed
qed

interpretation uvarint_codec: wire_codec WriteUVarint ReadUVarint uvarint_bytes "\<lambda>_. True"
proof unfold_locales
  fix r v rest
  assume "reader_ok r" "unread r = uvarint_bytes v @ rest"
  then show "ReadUVarint r = (Some v, advance (length (uvarint_bytes v)) r)"
    using ReadUVarint_loop_enc [of r v rest 0 0] by (simp add: ReadUVarint_def take_bit_word_eq_self)
qed (simp add: wire_simps)

lemma be_bytes_4_drop:
  fixes v :: u32
  assumes "v < 0x1000000"
  shows "0 # drop (Suc 0) (be_bytes 4 v) = be_bytes 4 v"
proof -
  have "take_bit 24 v = v" using assms word_less_exp_iff [of 24 v] by simp
  then have "\<not> bit v n" if "24 \<le> n" for n
    using that by (metis bit_take_bit_iff linorder_not_less)
  then have "(ucast (drop_bit 24 v) :: u8) = 0"
    by (intro bit_word_eqI) (auto simp: bit_simps)
  then show ?thesis by (simp add: be_bytes_def le_bytes_def numeral_eq_Suc)
qed

interpretation u24_codec: wire_codec WriteUInt24 ReadUInt24 "\<lambda>v. drop 1 (be_bytes 4 v)" "\<lambda>v. v < 0x1000000"
proof unfold_locales
  fix r and v :: u32 and rest
  assume "reader_ok r" "v < 0x1000000" "unread r = drop 1 (be_bytes 4 v) @ rest"
  then show "ReadUInt24 r = (Some v, advance (length (drop 1 (be_bytes 4 v))) r)"
    using be_load_prefix_zero [of "drop 1 (be_bytes 4 v)"] be_bytes_4_drop [of v]
      be_load_be_bytes [of 4 v]
    by (simp add: reader_simps)
qed (simp add: wire_simps)

section \<open>Malformed varints\<close>

text \<open>
  A reader never accepts more than ten bytes of a varint: after ten continuation bytes the
  loop has shifted by 70 bits and gives up.
\<close>

lemma ReadUVarint_loop_cont:
  assumes "reader_ok r" "\<forall>b \<in> set (take n (unread r)). \<not> b < 0x80" "length (unread r) \<ge> n" "64 \<le> i + 7 * n"
  shows "fst (ReadUVarint_loop i v r) = None"
  using assms
proof (induction n arbitrary: i v r)
  case 0
  then show ?case by (simp add: ReadUVarint_loop.simps)
next
  case (Suc n)
  then obtain b bs where bs: "unread r = b # bs" by (cases "unread r") auto
  have "reader_ok (advance 1 r)" using Suc.prems bs by (simp add: reader_ok_advance Length_unread)
  then have "fst (ReadUVarint_loop (i + 7) w (advance 1 r)) = None" for w
    using Suc.prems bs by (intro Suc.IH) simp_all
  with Suc.prems bs show ?case by (subst ReadUVarint_loop_eq) (simp_all del: push_bit_and)
qed

lemma length_uvarint_bytes:
  assumes "take_bit (7 * n) val = val" "0 < n"
  shows "length (uvarint_bytes val) \<le> n"
  using assms
proof (induction val arbitrary: n rule: uvarint_bytes.induct)
  case (1 val)
  show ?case
  proof (cases "val \<ge> 0x80")
    case True
    obtain m where n: "n = Suc m" using "1.prems"(2) by (cases n) auto
    have t: "take_bit (7 * m) (drop_bit 7 val) = drop_bit 7 val"
      using "1.prems"(1) n by (metis add.commute drop_bit_take_bit diff_add_inverse mult_Suc_right)
    have "0 < m"
    proof (rule ccontr)
      assume "\<not> 0 < m"
      with "1.prems"(1) n True word_less_exp_iff [of 7 val] show False by simp
    qed
    then have "length (uvarint_bytes (drop_bit 7 val)) \<le> m" using "1.IH" [OF True t] by simp
    with True n show ?thesis by (simp add: uvarint_bytes.simps [of val])
  qed (use "1.prems" in \<open>simp add: uvarint_bytes.simps [of val]\<close>)
qed

lemma reader_ok_reads:
  assumes "reader_ok r"
  shows "reader_ok (snd (ReadBytes n r))" "reader_ok (snd (ReadString n r))" "reader_ok (snd (Consume n r))"
    "reader_ok (snd (ReadUInt8 r))" "reader_ok (snd (ReadUInt16 r))" "reader_ok (snd (ReadUInt24 r))"
    "reader_ok (snd (ReadUInt32 r))" "reader_ok (snd (ReadUInt64 r))" "reader_ok (snd (ReadUVarint r))"
  using assms by (simp_all add: reader_simps reader_ok_advance Length_unread ReadUVarint_def
      reader_ok_ReadUVarint_loop)

section \<open>Properties\<close>

text \<open>C39. A 64-bit value written by \<open>WriteUVarint\<close> takes at most ten bytes, and \<open>ReadUVarint\<close>
  reads it back from a reader positioned at these bytes, leaving exactly what follows them.\<close>

theorem uvarint_stream:
  assumes "reader_ok r" "unread r = buf_data (WriteUVarint v new_ByteBufferWriter) @ rest"
  shows "fst (ReadUVarint r) = Some v \<and> unread (snd (ReadUVarint r)) = rest \<and>
    length (buf_data (WriteUVarint v new_ByteBufferWriter)) \<le> 10"
  using assms uvarint_codec.rd_enc [of r v rest] length_uvarint_bytes [of 10 v]
  by (simp add: wire_simps take_bit_word_eq_self)

theorem uvarint_stream_witness:
  "fst (ReadUVarint (new_ByteBufferReader [0xAC, 0x02, 0x07])) = Some 300 \<and>
   unread (snd (ReadUVarint (new_ByteBufferReader [0xAC, 0x02, 0x07]))) = [7]"
proof -
  have "unread (new_ByteBufferReader [0xAC, 0x02, 0x07]) = buf_data (WriteUVarint 300 new_ByteBufferWriter) @ [7]"
    by (simp add: wire_simps uvarint_bytes.simps)
  then show ?thesis
    using uvarint_stream [of "new_ByteBufferReader [0xAC, 0x02, 0x07]" 300 "[7]"] by simp
qed

text \<open>C40. A varint whose first ten bytes are all continuation bytes is rejected, however long the
  input: the reading loop never shifts by 64 bits or more.\<close>

theorem uvarint_overlong_rejected:
  assumes "reader_ok r" "10 \<le> length (unread r)" "\<forall>b \<in> set (take 10 (unread r)). \<not> b < 0x80"
  shows "fst (ReadUVarint r) = None"
  using assms ReadUVarint_loop_cont [of r 10 0 0] by (simp add: ReadUVarint_def)

theorem uvarint_overlong_rejected_witness:
  "fst (ReadUVarint (new_ByteBufferReader (replicate 10 0xFF @ [1]))) = None"
  by (rule uvarint_overlong_rejected) simp_all

text \<open>Every read operation of the reader keeps the bounds invariant \<open>start \<le> end = size\<close>, so no
  sequence of reads looks past the end of the wrapped bytes.\<close>

theorem reads_stay_in_bounds:
  assumes "reader_ok r"
  shows "reader_ok (snd (ReadBytes n r)) \<and> reader_ok (snd (ReadString n r)) \<and> reader_ok (snd (Consume n r)) \<and>
    reader_ok (snd (ReadUInt8 r)) \<and> reader_ok (snd (ReadUInt16 r)) \<and> reader_ok (snd (ReadUInt24 r)) \<and>
    reader_ok (snd (ReadUInt32 r)) \<and> reader_ok (snd (ReadUInt64 r)) \<and> reader_ok (snd (ReadUVarint r))"
  using reader_ok_reads [OF assms] by blast

theorem reads_stay_in_bounds_witness:
  "reader_ok (snd (ReadUInt16 (new_ByteBufferReader [1, 2, 3])))"
  using reads_stay_in_bounds [of "new_ByteBufferReader [1, 2, 3]"] by simp

end
