(* ===== verification/Byte_Fifo.thy ===== *)
theory Byte_Fifo
  imports Prelude
begin

text \<open>
  Circular byte storage and the interface of a byte queue.

  Both queues of the library (\<open>FifoBuffer\<close> of the STUN stack and \<open>Buffer\<close> of the base library)
  keep their bytes in one array and copy into and out of it with at most two \<open>memcpy\<close> calls, one
  up to the end of the array and one from its start. \<open>ring_read\<close> and \<open>ring_write\<close> are these two
  pairs of calls, and \<open>ring_read_nth\<close> and \<open>nth_ring_write\<close> describe them by the index modulo the
  length of the array. The locale \<open>byte_fifo\<close> is the contract of a byte queue of fixed size; its lemma says
  that what comes out is what went in, in order, for every sequence of operations. The locale \<open>byte_queue\<close> is
  the contract of a queue that grows; its lemma says that every sequence of operations gives what a list gives.
\<close>

section \<open>Copying\<close>

definition mem_read :: "bytes \<Rightarrow> nat \<Rightarrow> nat \<Rightarrow> bytes" where
  "mem_read mem pos n = take n (drop pos mem)"

definition mem_write :: "bytes \<Rightarrow> nat \<Rightarrow> bytes \<Rightarrow> bytes" where
  "mem_write mem pos bs = take pos mem @ bs @ drop (pos + length bs) mem"

lemma length_mem_write [simp]: "pos + length bs \<le> length mem \<Longrightarrow> length (mem_write mem pos bs) = length mem"
  by (simp add: mem_write_def)

lemma nth_mem_write:
  assumes "pos + length bs \<le> length mem" "i < length mem"
  shows "mem_write mem pos bs ! i = (if pos \<le> i \<and> i < pos + length bs then bs ! (i - pos) else mem ! i)"
  using assms by (auto simp: mem_write_def nth_append)

definition ring_read :: "bytes \<Rightarrow> nat \<Rightarrow> nat \<Rightarrow> bytes" where
  "ring_read mem pos n =
     (let tail = min n (length mem - pos) in mem_read mem pos tail @ mem_read mem 0 (n - tail))"

definition ring_write :: "bytes \<Rightarrow> nat \<Rightarrow> bytes \<Rightarrow> bytes" where
  "ring_write mem pos bs =
     (let tail = min (length bs) (length mem - pos)
      in mem_write (mem_write mem pos (take tail bs)) 0 (drop tail bs))"

text \<open>The byte at distance \<open>i\<close> after position \<open>pos\<close>, counted around the array.\<close>

definition ring_at :: "bytes \<Rightarrow> nat \<Rightarrow> nat \<Rightarrow> u8" where
  "ring_at mem pos i = mem ! ((pos + i) mod length mem)"

lemma mod_wrap: "a < (l :: nat) \<Longrightarrow> i < l \<Longrightarrow> (a + i) mod l = (if a + i < l then a + i else a + i - l)"
  by (auto simp: mod_if)

lemma length_ring_read [simp]: "pos \<le> length mem \<Longrightarrow> n \<le> length mem \<Longrightarrow> length (ring_read mem pos n) = n"
  by (auto simp: ring_read_def mem_read_def Let_def)

lemma ring_read_nth:
  assumes "pos < length mem" "n \<le> length mem"
  shows "ring_read mem pos n = map (ring_at mem pos) [0..<n]"
proof (rule nth_equalityI)
  fix i assume "i < length (ring_read mem pos n)"
  then have i: "i < n" using assms by simp
  with assms have m: "(pos + i) mod length mem = (if pos + i < length mem then pos + i else pos + i - length mem)"
    by (intro mod_wrap) simp_all
  have "ring_read mem pos n ! i = mem ! (if pos + i < length mem then pos + i else pos + i - length mem)"
    using i assms by (auto simp: ring_read_def mem_read_def Let_def nth_append min_def algebra_simps)
  then show "ring_read mem pos n ! i = map (ring_at mem pos) [0..<n] ! i"
    using i by (simp add: ring_at_def m)
qed (use assms in simp)

lemma mem_write_nil [simp]: "mem_write m p [] = m"
  by (simp add: mem_write_def)

lemma ring_write_short: "length bs \<le> length mem - pos \<Longrightarrow> ring_write mem pos bs = mem_write mem pos bs"
  by (simp add: ring_write_def)

lemma ring_write_long:
  "length mem - pos < length bs \<Longrightarrow> ring_write mem pos bs =
     mem_write (mem_write mem pos (take (length mem - pos) bs)) 0 (drop (length mem - pos) bs)"
  by (simp add: ring_write_def Let_def)

lemma length_ring_write [simp]:
  "pos < length mem \<Longrightarrow> length bs \<le> length mem \<Longrightarrow> length (ring_write mem pos bs) = length mem"
  by (auto simp: ring_write_def Let_def min_def)

lemma nth_ring_write:
  assumes "pos < length mem" "length bs \<le> length mem" "i < length mem"
  shows "ring_at (ring_write mem pos bs) pos i = (if i < length bs then bs ! i else ring_at mem pos i)"
proof -
  have m: "(pos + i) mod length mem = (if pos + i < length mem then pos + i else pos + i - length mem)"
    using assms by (intro mod_wrap) simp_all
  show ?thesis
  proof (cases "length bs \<le> length mem - pos")
    case True
    with assms m show ?thesis by (auto simp: ring_at_def ring_write_short nth_mem_write)
  next
    case False
    with assms m show ?thesis by (auto simp: ring_at_def ring_write_long nth_mem_write)
  qed
qed

text \<open>The same, read from another position of the array.\<close>

lemma ring_at_shift: "ring_at mem ((pos + k) mod length mem) i = ring_at mem pos (k + i)"
  by (simp add: ring_at_def mod_add_left_eq add.assoc)

lemma ring_at_write_shift:
  assumes "pos < length mem" "k + length bs \<le> length mem" "i < length mem"
  shows "ring_at (ring_write mem ((pos + k) mod length mem) bs) pos i =
    (if k \<le> i \<and> i < k + length bs then bs ! (i - k) else ring_at mem pos i)"
proof -
  define q where "q = (pos + k) mod length mem"
  have q: "q < length mem" unfolding q_def by (rule mod_less_divisor) (use assms in linarith)
  define j where "j = (if k \<le> i then i - k else length mem + i - k)"
  have j: "j < length mem" using assms by (auto simp: j_def)
  have "(pos + i) mod length mem = (q + j) mod length mem"
    using assms mod_add_self2 [of "pos + i" "length mem"]
    by (auto simp: q_def j_def mod_add_left_eq add.commute add.left_commute)
  then have "ring_at w pos i = ring_at w q j" if "length w = length mem" for w
    using that by (simp add: ring_at_def)
  moreover have "length (ring_write mem q bs) = length mem" using assms q by simp
  ultimately have "ring_at (ring_write mem q bs) pos i = (if j < length bs then bs ! j else ring_at mem pos i)"
    using nth_ring_write [OF q _ j, of bs] assms by simp
  moreover have "j < length bs \<longleftrightarrow> k \<le> i \<and> i < k + length bs" using assms by (auto simp: j_def)
  ultimately show ?thesis by (auto simp: q_def j_def)
qed

section \<open>The interface of a byte queue\<close>

datatype fifo_op = Push bytes | Pop nat

text \<open>
  A run of operations: the bytes accepted by the pushes, the bytes delivered by the pops, and the
  final state.
\<close>

primrec fifo_run ::
  "(bytes \<Rightarrow> 's \<Rightarrow> nat \<times> 's) \<Rightarrow> (nat \<Rightarrow> 's \<Rightarrow> bytes \<times> 's) \<Rightarrow> fifo_op list \<Rightarrow> 's \<Rightarrow> bytes \<times> bytes \<times> 's" where
  "fifo_run push pop [] s = ([], [], s)"
| "fifo_run push pop (oper # opers) s =
     (case oper of
        Push bs \<Rightarrow>
          (case push bs s of (n, s') \<Rightarrow>
             (case fifo_run push pop opers s' of (inp, out, s'') \<Rightarrow> (take n bs @ inp, out, s'')))
      | Pop k \<Rightarrow>
          (case pop k s of (bs, s') \<Rightarrow>
             (case fifo_run push pop opers s' of (inp, out, s'') \<Rightarrow> (inp, bs @ out, s''))))"

locale byte_fifo =
  fixes inv :: "'s \<Rightarrow> bool"
    and contents :: "'s \<Rightarrow> bytes"
    and push :: "bytes \<Rightarrow> 's \<Rightarrow> nat \<times> 's"
    and pop :: "nat \<Rightarrow> 's \<Rightarrow> bytes \<times> 's"
  assumes push_inv: "inv s \<Longrightarrow> inv (snd (push bs s))"
    and push_contents: "inv s \<Longrightarrow> contents (snd (push bs s)) = contents s @ take (fst (push bs s)) bs"
    and pop_inv: "inv s \<Longrightarrow> inv (snd (pop n s))"
    and pop_contents: "inv s \<Longrightarrow> fst (pop n s) @ contents (snd (pop n s)) = contents s"
begin

lemma run_order:
  assumes "inv s"
  shows "inv (snd (snd (fifo_run push pop opers s))) \<and>
    fst (snd (fifo_run push pop opers s)) @ contents (snd (snd (fifo_run push pop opers s))) =
    contents s @ fst (fifo_run push pop opers s)"
  using assms
proof (induction opers arbitrary: s)
  case (Cons oper opers)
  show ?case
  proof (cases oper)
    case (Push bs)
    show ?thesis
      using Cons.IH [OF push_inv [OF Cons.prems, of bs]] push_contents [OF Cons.prems, of bs]
      by (simp add: Push case_prod_beta)
  next
    case (Pop n)
    show ?thesis
      using Cons.IH [OF pop_inv [OF Cons.prems, of n]] pop_contents [OF Cons.prems, of n]
      by (simp add: Pop case_prod_beta)
  qed
qed simp

end

text \<open>
  A queue that grows instead of refusing bytes: an append may fail an assertion (\<open>None\<close>), a removal of more
  bytes than there are is refused. \<open>queue_run\<close> is a run that ends with the first failed assertion and lists what
  each removal gave; \<open>list_run\<close> is the same sequence of operations on a plain list.
\<close>

primrec queue_run ::
  "(bytes \<Rightarrow> 's \<Rightarrow> 's option) \<Rightarrow> (nat \<Rightarrow> 's \<Rightarrow> bytes option \<times> 's) \<Rightarrow> fifo_op list \<Rightarrow> 's \<Rightarrow> (bytes option list \<times> 's) option" where
  "queue_run app remove [] s = Some ([], s)"
| "queue_run app remove (oper # opers) s =
     (case oper of
        Push bs \<Rightarrow> (case app bs s of None \<Rightarrow> None | Some s' \<Rightarrow> queue_run app remove opers s')
      | Pop n \<Rightarrow>
          (case remove n s of (r, s') \<Rightarrow>
             map_option (\<lambda>(rs, s''). (r # rs, s'')) (queue_run app remove opers s')))"

primrec list_run :: "fifo_op list \<Rightarrow> bytes \<Rightarrow> bytes option list \<times> bytes" where
  "list_run [] q = ([], q)"
| "list_run (oper # opers) q =
     (case oper of
        Push bs \<Rightarrow> list_run opers (q @ bs)
      | Pop n \<Rightarrow>
          if n \<le> length q then (case list_run opers (drop n q) of (rs, q') \<Rightarrow> (Some (take n q) # rs, q'))
          else (case list_run opers q of (rs, q') \<Rightarrow> (None # rs, q')))"

primrec pushed :: "fifo_op list \<Rightarrow> bytes" where
  "pushed [] = []"
| "pushed (oper # opers) = (case oper of Push bs \<Rightarrow> bs | Pop n \<Rightarrow> []) @ pushed opers"

definition delivered :: "bytes option list \<Rightarrow> bytes" where
  "delivered rs = concat (map (\<lambda>r. case r of None \<Rightarrow> [] | Some bs \<Rightarrow> bs) rs)"

lemma list_run_order: "delivered (fst (list_run opers q)) @ snd (list_run opers q) = q @ pushed opers"
proof (induction opers arbitrary: q)
  case (Cons oper opers)
  show ?case
    using Cons.IH [of q] Cons.IH [of "q @ pushed [oper]"] Cons.IH [of "drop (case oper of Pop n \<Rightarrow> n | Push _ \<Rightarrow> 0) q"]
    by (cases oper) (simp_all add: delivered_def case_prod_beta)
qed (simp add: delivered_def)

locale byte_queue =
  fixes inv :: "'s \<Rightarrow> bool"
    and contents :: "'s \<Rightarrow> bytes"
    and app :: "bytes \<Rightarrow> 's \<Rightarrow> 's option"
    and remove :: "nat \<Rightarrow> 's \<Rightarrow> bytes option \<times> 's"
  assumes append_ok: "inv s \<Longrightarrow> \<exists>s'. app bs s = Some s' \<and> inv s' \<and> contents s' = contents s @ bs"
    and remove_ok: "inv s \<Longrightarrow> n \<le> length (contents s) \<Longrightarrow>
      \<exists>s'. remove n s = (Some (take n (contents s)), s') \<and> inv s' \<and> contents s' = drop n (contents s)"
    and remove_refused: "inv s \<Longrightarrow> length (contents s) < n \<Longrightarrow> remove n s = (None, s)"
begin

lemma run_refines:
  assumes "inv s"
  shows "\<exists>s'. queue_run app remove opers s = Some (fst (list_run opers (contents s)), s') \<and>
    inv s' \<and> contents s' = snd (list_run opers (contents s))"
  using assms
proof (induction opers arbitrary: s)
  case (Cons oper opers)
  show ?case
  proof (cases oper)
    case (Push bs)
    then obtain s1 where s1: "app bs s = Some s1" "inv s1" "contents s1 = contents s @ bs"
      using append_ok [OF Cons.prems] by blast
    show ?thesis using Cons.IH [OF s1(2)] s1 by (simp add: Push)
  next
    case (Pop n)
    show ?thesis
    proof (cases "n \<le> length (contents s)")
      case True
      then obtain s1 where s1: "remove n s = (Some (take n (contents s)), s1)" "inv s1" "contents s1 = drop n (contents s)"
        using remove_ok [OF Cons.prems] by blast
      show ?thesis using Cons.IH [OF s1(2)] s1 True by (auto simp: Pop case_prod_beta)
    next
      case False
      show ?thesis using Cons.IH [OF Cons.prems] remove_refused [OF Cons.prems, of n] False by (auto simp: Pop case_prod_beta)
    qed
  qed
qed simp

end

end
