(* ===== verification/Fifo_Buffer.thy ===== *)
theory Fifo_Buffer
  imports Byte_Fifo
begin

text \<open>
  \<open>FifoBuffer\<close>, the circular stream buffer of the STUN stack (\<open>fifo_buffer.h\<close>, \<open>fifo_buffer.cc\<close>),
  which holds the send and the receive window of \<open>PseudoTcp\<close>.

  The array \<open>buffer_\<close> is \<open>ff_buffer\<close>; a fresh allocation has unspecified bytes and is an argument
  of the operation that allocates. Every operation runs under the object's lock, so one operation is
  one function on the state. A failed assertion, and a division by a zero capacity, is \<open>None\<close>.
  The out-parameters are returned beside the result code. \<open>fifo_contents\<close> is the queue of readable
  bytes and \<open>fifo_cell\<close> the whole window in read order, including the cells behind the readable
  bytes that \<open>WriteOffset\<close> fills out of order.
\<close>

section \<open>State and operations\<close>

datatype StreamState = SS_CLOSED | SS_OPENING | SS_OPEN

datatype StreamResult = SR_ERROR | SR_SUCCESS | SR_BLOCK | SR_EOS

record FifoBuffer =
  ff_state :: StreamState
  ff_buffer :: bytes
  ff_buffer_length :: nat
  ff_data_length :: nat
  ff_read_position :: nat

definition new_FifoBuffer :: "bytes \<Rightarrow> FifoBuffer" where
  "new_FifoBuffer fresh =
     \<lparr>ff_state = SS_OPEN, ff_buffer = fresh, ff_buffer_length = length fresh,
      ff_data_length = 0, ff_read_position = 0\<rparr>"

definition GetBuffered :: "FifoBuffer \<Rightarrow> nat" where
  "GetBuffered f = ff_data_length f"

definition SetCapacity :: "bytes \<Rightarrow> FifoBuffer \<Rightarrow> bool \<times> FifoBuffer" where
  "SetCapacity fresh f =
     (let sz = length fresh in
      if ff_data_length f > sz then (False, f)
      else if sz \<noteq> ff_buffer_length f then
        (let copy = ff_data_length f;
             tail_copy = min copy (ff_buffer_length f - ff_read_position f);
             b1 = mem_write fresh 0 (mem_read (ff_buffer f) (ff_read_position f) tail_copy);
             b2 = mem_write b1 tail_copy (mem_read (ff_buffer f) 0 (copy - tail_copy))
         in (True, f\<lparr>ff_buffer := b2, ff_read_position := 0, ff_buffer_length := sz\<rparr>))
      else (True, f))"

definition ReadOffsetLocked :: "nat \<Rightarrow> nat \<Rightarrow> FifoBuffer \<Rightarrow> StreamResult \<times> bytes" where
  "ReadOffsetLocked n offset f =
     (if offset \<ge> ff_data_length f then
        (if ff_state f \<noteq> SS_CLOSED then SR_BLOCK else SR_EOS, [])
      else
        (let available = ff_data_length f - offset;
             read_position = (ff_read_position f + offset) mod ff_buffer_length f;
             copy = min n available;
             tail_copy = min copy (ff_buffer_length f - read_position)
         in (SR_SUCCESS,
             mem_read (ff_buffer f) read_position tail_copy @ mem_read (ff_buffer f) 0 (copy - tail_copy))))"

definition WriteOffsetLocked :: "bytes \<Rightarrow> nat \<Rightarrow> FifoBuffer \<Rightarrow> StreamResult \<times> nat \<times> FifoBuffer" where
  "WriteOffsetLocked bs offset f =
     (if ff_state f = SS_CLOSED then (SR_EOS, 0, f)
      else if ff_data_length f + offset \<ge> ff_buffer_length f then (SR_BLOCK, 0, f)
      else
        (let available = ff_buffer_length f - ff_data_length f - offset;
             write_position = (ff_read_position f + ff_data_length f + offset) mod ff_buffer_length f;
             copy = min (length bs) available;
             tail_copy = min copy (ff_buffer_length f - write_position);
             b1 = mem_write (ff_buffer f) write_position (mem_read bs 0 tail_copy);
             b2 = mem_write b1 0 (mem_read bs tail_copy (copy - tail_copy))
         in (SR_SUCCESS, copy, f\<lparr>ff_buffer := b2\<rparr>)))"

definition ReadOffset :: "nat \<Rightarrow> nat \<Rightarrow> FifoBuffer \<Rightarrow> StreamResult \<times> bytes" where
  "ReadOffset n offset f = ReadOffsetLocked n offset f"

definition WriteOffset :: "bytes \<Rightarrow> nat \<Rightarrow> FifoBuffer \<Rightarrow> StreamResult \<times> nat \<times> FifoBuffer" where
  "WriteOffset bs offset f = WriteOffsetLocked bs offset f"

definition GetState :: "FifoBuffer \<Rightarrow> StreamState" where
  "GetState f = ff_state f"

definition Read :: "nat \<Rightarrow> FifoBuffer \<Rightarrow> StreamResult \<times> bytes \<times> FifoBuffer" where
  "Read n f =
     (case ReadOffsetLocked n 0 f of
        (result, bs) \<Rightarrow>
          if result = SR_SUCCESS then
            (result, bs,
             f\<lparr>ff_read_position := (ff_read_position f + length bs) mod ff_buffer_length f,
               ff_data_length := ff_data_length f - length bs\<rparr>)
          else (result, [], f))"

definition Write :: "bytes \<Rightarrow> FifoBuffer \<Rightarrow> StreamResult \<times> nat \<times> FifoBuffer" where
  "Write bs f =
     (case WriteOffsetLocked bs 0 f of
        (result, copy, f') \<Rightarrow>
          if result = SR_SUCCESS then
            (result, copy, f'\<lparr>ff_data_length := ff_data_length f' + copy\<rparr>)
          else (result, 0, f'))"

definition Close :: "FifoBuffer \<Rightarrow> FifoBuffer" where
  "Close f = f\<lparr>ff_state := SS_CLOSED\<rparr>"

definition GetReadData :: "FifoBuffer \<Rightarrow> bytes" where
  "GetReadData f =
     (let sz = (if ff_read_position f + ff_data_length f \<le> ff_buffer_length f
                then ff_data_length f else ff_buffer_length f - ff_read_position f)
      in mem_read (ff_buffer f) (ff_read_position f) sz)"

definition ConsumeReadData :: "nat \<Rightarrow> FifoBuffer \<Rightarrow> FifoBuffer option" where
  "ConsumeReadData sz f =
     (if sz \<le> ff_data_length f \<and> ff_buffer_length f \<noteq> 0 then
        Some (f\<lparr>ff_read_position := (ff_read_position f + sz) mod ff_buffer_length f,
                ff_data_length := ff_data_length f - sz\<rparr>)
      else None)"

text \<open>\<open>GetWriteBuffer\<close> returns the position and the size of the writable block, or no block.\<close>

definition GetWriteBuffer :: "FifoBuffer \<Rightarrow> ((nat \<times> nat) option \<times> FifoBuffer) option" where
  "GetWriteBuffer f =
     (if ff_state f = SS_CLOSED then Some (None, f)
      else if ff_buffer_length f = 0 then None
      else
        (let f' = (if ff_data_length f = 0 then f\<lparr>ff_read_position := 0\<rparr> else f);
             write_position = (ff_read_position f' + ff_data_length f') mod ff_buffer_length f';
             sz = (if write_position > ff_read_position f' \<or> ff_data_length f' = 0
                   then ff_buffer_length f' - write_position
                   else ff_read_position f' - write_position)
         in Some (Some (write_position, sz), f')))"

definition ConsumeWriteBuffer :: "nat \<Rightarrow> FifoBuffer \<Rightarrow> FifoBuffer option" where
  "ConsumeWriteBuffer sz f =
     (if sz \<le> ff_buffer_length f - ff_data_length f
      then Some (f\<lparr>ff_data_length := ff_data_length f + sz\<rparr>) else None)"

definition GetWriteRemaining :: "FifoBuffer \<Rightarrow> nat" where
  "GetWriteRemaining f = ff_buffer_length f - ff_data_length f"

section \<open>Invariant and abstraction\<close>

definition fifo_ok :: "FifoBuffer \<Rightarrow> bool" where
  "fifo_ok f \<longleftrightarrow>
     length (ff_buffer f) = ff_buffer_length f \<and> ff_data_length f \<le> ff_buffer_length f \<and>
     (ff_read_position f < ff_buffer_length f \<or> ff_read_position f = 0)"

definition fifo_cell :: "FifoBuffer \<Rightarrow> nat \<Rightarrow> u8" where
  "fifo_cell f i = ring_at (ff_buffer f) (ff_read_position f) i"

definition fifo_contents :: "FifoBuffer \<Rightarrow> bytes" where
  "fifo_contents f = map (fifo_cell f) [0..<ff_data_length f]"

lemma length_fifo_contents [simp]: "length (fifo_contents f) = ff_data_length f"
  by (simp add: fifo_contents_def)

lemma fifo_contents_empty [simp]: "ff_data_length f = 0 \<Longrightarrow> fifo_contents f = []"
  by (simp add: fifo_contents_def)

lemma fifo_ok_new [simp]: "fifo_ok (new_FifoBuffer fresh)"
  by (simp add: fifo_ok_def new_FifoBuffer_def)

lemma fifo_contents_new [simp]: "fifo_contents (new_FifoBuffer fresh) = []"
  by (simp add: fifo_contents_def new_FifoBuffer_def)

lemma upt_shift: "map h [a..<a + n] = map (\<lambda>i. h (a + i)) [0..<n]"
  by (rule nth_equalityI) simp_all

lemma drop_fifo_contents: "drop n (fifo_contents f) = map (\<lambda>i. fifo_cell f (n + i)) [0..<ff_data_length f - n]"
proof (cases "n \<le> ff_data_length f")
  case True
  then have "[n..<ff_data_length f] = [n..<n + (ff_data_length f - n)]" by simp
  then show ?thesis by (simp add: fifo_contents_def drop_map upt_shift)
qed (simp add: fifo_contents_def)

subsection \<open>Reading\<close>

lemma ReadOffsetLocked_eq [fifo_simps]:
  assumes "fifo_ok f"
  shows "ReadOffsetLocked n off f =
    (if off < ff_data_length f then (SR_SUCCESS, take n (drop off (fifo_contents f)))
     else (if ff_state f \<noteq> SS_CLOSED then SR_BLOCK else SR_EOS, []))"
proof (cases "off < ff_data_length f")
  case True
  let ?L = "ff_buffer_length f" and ?p = "(ff_read_position f + off) mod ff_buffer_length f"
  let ?c = "min n (ff_data_length f - off)"
  have L: "length (ff_buffer f) = ?L" "0 < ?L" "?p < ?L" "?c \<le> ?L"
    using assms True by (auto simp: fifo_ok_def)
  have "ReadOffsetLocked n off f = (SR_SUCCESS, ring_read (ff_buffer f) ?p ?c)"
    using True L by (simp add: ReadOffsetLocked_def ring_read_def Let_def)
  also have "ring_read (ff_buffer f) ?p ?c = map (\<lambda>i. fifo_cell f (off + i)) [0..<?c]"
    using L ring_read_nth [of ?p "ff_buffer f" ?c] ring_at_shift [of "ff_buffer f" "ff_read_position f" off]
    by (simp add: fifo_cell_def)
  also have "\<dots> = take n (drop off (fifo_contents f))"
    by (simp add: drop_fifo_contents take_map min_def)
  finally show ?thesis using True by simp
qed (simp add: ReadOffsetLocked_def)

lemma fifo_skip:
  assumes "fifo_ok f" "n \<le> ff_data_length f" "0 < ff_buffer_length f"
    "f' = f\<lparr>ff_read_position := (ff_read_position f + n) mod ff_buffer_length f,
           ff_data_length := ff_data_length f - n\<rparr>"
  shows "fifo_ok f'" "fifo_contents f' = drop n (fifo_contents f)"
    "fifo_cell f' i = fifo_cell f (n + i)"
proof -
  have c: "fifo_cell f' i = fifo_cell f (n + i)" for i
    using assms ring_at_shift [of "ff_buffer f" "ff_read_position f" n i] by (simp add: fifo_cell_def fifo_ok_def)
  then show "fifo_cell f' i = fifo_cell f (n + i)" .
  show "fifo_ok f'" using assms by (auto simp: fifo_ok_def)
  show "fifo_contents f' = drop n (fifo_contents f)"
    unfolding drop_fifo_contents fifo_contents_def [of f'] c by (simp add: assms(4))
qed

lemma Read_eq [fifo_simps]:
  assumes "fifo_ok f"
  shows "fst (snd (Read n f)) = take n (fifo_contents f)"
    and "fifo_contents (snd (snd (Read n f))) = drop n (fifo_contents f)"
    and "fifo_ok (snd (snd (Read n f)))"
    and "fst (Read n f) = (if 0 < ff_data_length f then SR_SUCCESS
           else if ff_state f \<noteq> SS_CLOSED then SR_BLOCK else SR_EOS)"
proof -
  show "fst (Read n f) = (if 0 < ff_data_length f then SR_SUCCESS
           else if ff_state f \<noteq> SS_CLOSED then SR_BLOCK else SR_EOS)"
    using assms by (simp add: Read_def fifo_simps)
  show "fst (snd (Read n f)) = take n (fifo_contents f)"
    using assms by (simp add: Read_def fifo_simps)
  show "fifo_contents (snd (snd (Read n f))) = drop n (fifo_contents f)"
  proof (cases "0 < ff_data_length f")
    case True
    then show ?thesis
      using assms fifo_skip(2) [OF assms _ _ refl, of "min (ff_data_length f) n"]
      by (auto simp: Read_def fifo_simps fifo_ok_def min_def)
  qed (use assms in \<open>simp add: Read_def fifo_simps\<close>)
  show "fifo_ok (snd (snd (Read n f)))"
  proof (cases "0 < ff_data_length f")
    case True
    then show ?thesis
      using assms fifo_skip(1) [OF assms _ _ refl, of "min (ff_data_length f) n"]
      by (auto simp: Read_def fifo_simps fifo_ok_def)
  qed (use assms in \<open>simp add: Read_def fifo_simps\<close>)
qed

lemma ConsumeReadData_spec [fifo_simps]:
  assumes "fifo_ok f" "n \<le> ff_data_length f" "0 < ff_buffer_length f"
  shows "\<exists>f'. ConsumeReadData n f = Some f' \<and> fifo_ok f' \<and> fifo_contents f' = drop n (fifo_contents f) \<and>
    (\<forall>i. fifo_cell f' i = fifo_cell f (n + i)) \<and> ff_state f' = ff_state f \<and> ff_buffer_length f' = ff_buffer_length f"
  using assms fifo_skip [OF assms refl] by (simp add: ConsumeReadData_def)

subsection \<open>Writing\<close>

lemma mem_read_0 [simp]: "mem_read bs 0 n = take n bs"
  by (simp add: mem_read_def)

lemma WriteOffsetLocked_ring:
  fixes bs :: bytes and f :: FifoBuffer and off :: nat
  assumes "fifo_ok f" "ff_state f \<noteq> SS_CLOSED" "ff_data_length f + off < ff_buffer_length f"
  defines "copy \<equiv> min (length bs) (ff_buffer_length f - ff_data_length f - off)"
  shows "WriteOffsetLocked bs off f = (SR_SUCCESS, copy,
    f\<lparr>ff_buffer := ring_write (ff_buffer f)
       ((ff_read_position f + (ff_data_length f + off)) mod ff_buffer_length f) (take copy bs)\<rparr>)"
  using assms
  by (simp add: WriteOffsetLocked_def ring_write_def Let_def fifo_ok_def mem_read_def add.assoc min.commute
      drop_take)

text \<open>
  A write at an offset behind the readable bytes changes exactly the cells it covers, and neither
  the readable bytes nor any other cell of the window.
\<close>

lemma WriteOffset_spec:
  fixes bs :: bytes and f :: FifoBuffer and off :: nat
  assumes "fifo_ok f" "ff_state f \<noteq> SS_CLOSED" "ff_data_length f + off < ff_buffer_length f"
  defines "copy \<equiv> min (length bs) (ff_buffer_length f - ff_data_length f - off)"
  shows "\<exists>f'. WriteOffset bs off f = (SR_SUCCESS, copy, f') \<and> fifo_ok f' \<and>
    ff_data_length f' = ff_data_length f \<and> ff_buffer_length f' = ff_buffer_length f \<and>
    ff_state f' = ff_state f \<and> ff_read_position f' = ff_read_position f \<and>
    (\<forall>i < ff_buffer_length f. fifo_cell f' i =
       (if ff_data_length f + off \<le> i \<and> i < ff_data_length f + off + copy
        then bs ! (i - (ff_data_length f + off)) else fifo_cell f i))"
proof -
  let ?k = "ff_data_length f + off"
  let ?m = "ring_write (ff_buffer f) ((ff_read_position f + ?k) mod ff_buffer_length f) (take copy bs)"
  have c: "copy \<le> length bs" "?k + copy \<le> ff_buffer_length f" "0 < ff_buffer_length f"
    using assms(3) by (auto simp: copy_def)
  have p: "ff_read_position f < length (ff_buffer f)" "length (ff_buffer f) = ff_buffer_length f"
    using assms(1) c by (auto simp: fifo_ok_def)
  have "length ?m = ff_buffer_length f" using c p by simp
  moreover have "ring_at ?m (ff_read_position f) i =
      (if ?k \<le> i \<and> i < ?k + copy then bs ! (i - ?k) else fifo_cell f i)" if "i < ff_buffer_length f" for i
    using that c p ring_at_write_shift [of "ff_read_position f" "ff_buffer f" ?k "take copy bs" i]
    by (auto simp: fifo_cell_def)
  ultimately show ?thesis
    using WriteOffsetLocked_ring [OF assms(1-3), of bs] assms(1)
    by (simp add: WriteOffset_def fifo_ok_def copy_def fifo_cell_def)
qed

text \<open>Making written cells readable: the cells behind the readable bytes join them in order.\<close>

lemma map_upt_add: "map h [0..<n + k] = map h [0..<n] @ map (\<lambda>i. h (n + i)) [0..<k]"
proof -
  have "[0..<n + k] = [0..<n] @ [n..<n + k]" by (rule upt_add_eq_append) simp
  then show ?thesis by (simp add: upt_shift)
qed

lemma ConsumeWriteBuffer_spec:
  assumes "fifo_ok f" "n \<le> ff_buffer_length f - ff_data_length f"
  shows "\<exists>f'. ConsumeWriteBuffer n f = Some f' \<and> fifo_ok f' \<and> ff_data_length f' = ff_data_length f + n \<and>
    ff_buffer_length f' = ff_buffer_length f \<and> ff_state f' = ff_state f \<and> fifo_cell f' = fifo_cell f \<and>
    fifo_contents f' = fifo_contents f @ map (\<lambda>i. fifo_cell f (ff_data_length f + i)) [0..<n]"
proof -
  let ?f' = "f\<lparr>ff_data_length := ff_data_length f + n\<rparr>"
  have cell: "fifo_cell ?f' = fifo_cell f" by (rule ext) (simp add: fifo_cell_def)
  then have "fifo_contents ?f' = map (fifo_cell f) [0..<ff_data_length f + n]"
    by (simp add: fifo_contents_def)
  moreover have "ff_data_length f + n \<le> ff_buffer_length f" using assms by (auto simp: fifo_ok_def)
  ultimately show ?thesis
    using map_upt_add [of "fifo_cell f" "ff_data_length f" n] cell assms
    by (simp add: ConsumeWriteBuffer_def fifo_ok_def fifo_contents_def)
qed

lemma Write_consumes:
  "Write bs f =
     (case WriteOffset bs 0 f of
        (result, copy, f') \<Rightarrow>
          if result = SR_SUCCESS then (result, copy, f'\<lparr>ff_data_length := ff_data_length f' + copy\<rparr>)
          else (result, 0, f'))"
  by (simp add: Write_def WriteOffset_def)

lemma Write_eq [fifo_simps]:
  fixes bs :: bytes and f :: FifoBuffer
  assumes "fifo_ok f"
  defines "n \<equiv> (if ff_state f = SS_CLOSED then 0 else min (length bs) (ff_buffer_length f - ff_data_length f))"
  shows "fst (snd (Write bs f)) = n" "fifo_ok (snd (snd (Write bs f)))"
    "fifo_contents (snd (snd (Write bs f))) = fifo_contents f @ take n bs"
proof -
  have "fst (snd (Write bs f)) = n \<and> fifo_ok (snd (snd (Write bs f))) \<and>
    fifo_contents (snd (snd (Write bs f))) = fifo_contents f @ take n bs"
  proof (cases "ff_state f \<noteq> SS_CLOSED \<and> ff_data_length f < ff_buffer_length f")
    case True
    then have n: "n = min (length bs) (ff_buffer_length f - ff_data_length f - 0)" by (simp add: n_def)
    from True WriteOffset_spec [OF assms(1), of 0 bs] obtain g where
      g: "WriteOffset bs 0 f = (SR_SUCCESS, n, g)" "fifo_ok g" "ff_data_length g = ff_data_length f"
        "ff_buffer_length g = ff_buffer_length f"
        "\<forall>i < ff_buffer_length f. fifo_cell g i = (if ff_data_length f \<le> i \<and> i < ff_data_length f + n
           then bs ! (i - ff_data_length f) else fifo_cell f i)"
      by (auto simp: n)
    from ConsumeWriteBuffer_spec [OF g(2), of n] obtain h where
      h: "ConsumeWriteBuffer n g = Some h" "fifo_ok h"
        "fifo_contents h = fifo_contents g @ map (\<lambda>i. fifo_cell g (ff_data_length g + i)) [0..<n]"
      using g by (auto simp: n)
    have "h = g\<lparr>ff_data_length := ff_data_length g + n\<rparr>"
      using h(1) by (simp add: ConsumeWriteBuffer_def split: if_splits)
    then have "Write bs f = (SR_SUCCESS, n, h)" using g(1) by (simp add: Write_consumes)
    moreover have "fifo_contents g = fifo_contents f"
      using g True by (auto simp: fifo_contents_def)
    moreover have "map (\<lambda>i. fifo_cell g (ff_data_length g + i)) [0..<n] = take n bs"
      using g True by (intro nth_equalityI) (auto simp: n)
    ultimately show ?thesis using h by simp
  next
    case False
    then have w: "snd (Write bs f) = (0, f)" by (cases "ff_state f = SS_CLOSED") (simp_all add: Write_def WriteOffsetLocked_def)
    have "n = 0" using False by (auto simp: n_def)
    with w assms(1) show ?thesis by simp
  qed
  then show "fst (snd (Write bs f)) = n" "fifo_ok (snd (snd (Write bs f)))"
    "fifo_contents (snd (snd (Write bs f))) = fifo_contents f @ take n bs" by auto
qed

subsection \<open>Resizing and direct access\<close>

lemma SetCapacity_eq [fifo_simps]:
  assumes "fifo_ok f"
  shows "fst (SetCapacity fresh f) \<longleftrightarrow> ff_data_length f \<le> length fresh"
    and "fifo_ok (snd (SetCapacity fresh f))"
    and "fifo_contents (snd (SetCapacity fresh f)) = fifo_contents f"
    and "ff_state (snd (SetCapacity fresh f)) = ff_state f"
    and "ff_data_length (snd (SetCapacity fresh f)) = ff_data_length f"
    and "ff_buffer_length (snd (SetCapacity fresh f)) =
      (if ff_data_length f \<le> length fresh then length fresh else ff_buffer_length f)"
proof -
  show "fst (SetCapacity fresh f) \<longleftrightarrow> ff_data_length f \<le> length fresh"
    "ff_state (snd (SetCapacity fresh f)) = ff_state f"
    "ff_data_length (snd (SetCapacity fresh f)) = ff_data_length f"
    "ff_buffer_length (snd (SetCapacity fresh f)) =
      (if ff_data_length f \<le> length fresh then length fresh else ff_buffer_length f)"
    by (auto simp: SetCapacity_def Let_def)
  let ?g = "snd (SetCapacity fresh f)"
  have "fifo_ok ?g \<and> fifo_contents ?g = fifo_contents f"
  proof (cases "ff_data_length f \<le> length fresh \<and> length fresh \<noteq> ff_buffer_length f \<and> 0 < ff_data_length f")
    case True
    let ?r = "ring_read (ff_buffer f) (ff_read_position f) (ff_data_length f)"
    have p: "ff_read_position f < length (ff_buffer f)" "length (ff_buffer f) = ff_buffer_length f"
      "ff_data_length f \<le> ff_buffer_length f" using assms True by (auto simp: fifo_ok_def)
    have two: "mem_write (mem_write fresh 0 xs) (length xs) ys = xs @ ys @ drop (length xs + length ys) fresh"
      for xs ys by (simp add: mem_write_def add.commute)
    have "ff_buffer ?g = ?r @ drop (ff_data_length f) fresh"
      using True p two [of "mem_read (ff_buffer f) (ff_read_position f)
          (min (ff_data_length f) (ff_buffer_length f - ff_read_position f))"]
      by (auto simp: SetCapacity_def Let_def ring_read_def mem_read_def)
    moreover have "ff_read_position ?g = 0" "ff_buffer_length ?g = length fresh" "ff_data_length ?g = ff_data_length f"
      using True by (auto simp: SetCapacity_def Let_def)
    moreover have "length ?r = ff_data_length f" using p by simp
    moreover have "?r = fifo_contents f"
      using p ring_read_nth [of "ff_read_position f" "ff_buffer f" "ff_data_length f"]
      by (simp add: fifo_contents_def fifo_cell_def [abs_def])
    ultimately show ?thesis
      using True by (auto simp: fifo_ok_def fifo_contents_def [of ?g] fifo_cell_def ring_at_def nth_append
          intro!: nth_equalityI)
  next
    case False
    show ?thesis
    proof (cases "ff_data_length f \<le> length fresh \<and> length fresh \<noteq> ff_buffer_length f")
      case True
      with False have "ff_data_length f = 0" by simp
      with True show ?thesis by (simp add: SetCapacity_def Let_def fifo_ok_def fifo_contents_def mem_read_def)
    next
      case False
      then have "?g = f" by (auto simp: SetCapacity_def Let_def)
      with assms show ?thesis by simp
    qed
  qed
  then show "fifo_ok ?g" "fifo_contents ?g = fifo_contents f" by auto
qed

lemma GetReadData_prefix:
  assumes "fifo_ok f"
  shows "\<exists>rest. fifo_contents f = GetReadData f @ rest \<and> (0 < ff_data_length f \<longrightarrow> GetReadData f \<noteq> [])"
proof (cases "0 < ff_data_length f")
  case True
  have p: "ff_read_position f < length (ff_buffer f)" "length (ff_buffer f) = ff_buffer_length f"
    "ff_data_length f \<le> ff_buffer_length f" using assms True by (auto simp: fifo_ok_def)
  then have r: "fifo_contents f = ring_read (ff_buffer f) (ff_read_position f) (ff_data_length f)"
    using ring_read_nth [of "ff_read_position f" "ff_buffer f" "ff_data_length f"]
    by (simp add: fifo_contents_def fifo_cell_def [abs_def])
  have "GetReadData f = mem_read (ff_buffer f) (ff_read_position f)
      (min (ff_data_length f) (length (ff_buffer f) - ff_read_position f))"
    using p by (auto simp: GetReadData_def Let_def min_def)
  with True p show ?thesis by (auto simp: r ring_read_def Let_def mem_read_def)
qed (use assms in \<open>simp add: GetReadData_def mem_read_def\<close>)

text \<open>
  The block that \<open>GetWriteBuffer\<close> hands out lies behind the readable bytes: filling a prefix of it
  and consuming that many bytes appends them.
\<close>

lemma GetWriteBuffer_append:
  assumes "fifo_ok f" "GetWriteBuffer f = Some (Some (pos, sz), f1)" "length bs \<le> sz"
  shows "\<exists>f2. ConsumeWriteBuffer (length bs) (f1\<lparr>ff_buffer := mem_write (ff_buffer f1) pos bs\<rparr>) = Some f2 \<and>
    fifo_ok f2 \<and> fifo_contents f2 = fifo_contents f @ bs"
proof -
  let ?L = "ff_buffer_length f1" and ?d = "ff_data_length f1" and ?r = "ff_read_position f1"
  have f1: "fifo_ok f1" "fifo_contents f = fifo_contents f1" "ff_state f1 \<noteq> SS_CLOSED" "0 < ?L"
    "pos = (?r + ?d) mod ?L" "sz = (if ?r < pos \<or> ?d = 0 then ?L - pos else ?r - pos)"
    "?d = 0 \<longrightarrow> ?r = 0"
    using assms(1,2) by (auto simp: GetWriteBuffer_def Let_def fifo_ok_def fifo_contents_def split: if_splits)
  then have lens: "length (ff_buffer f1) = ?L" "?r < ?L" "?d \<le> ?L" by (auto simp: fifo_ok_def)
  have pos: "pos = (if ?r + ?d < ?L then ?r + ?d else ?r + ?d - ?L)"
    using f1(5) lens by (auto simp: mod_if)
  have fit: "pos + length bs \<le> ?L" "?d + length bs \<le> ?L"
    using assms(3) f1(6,7) lens pos by (auto split: if_splits)
  let ?g = "f1\<lparr>ff_buffer := mem_write (ff_buffer f1) pos bs\<rparr>"
  have g: "fifo_ok ?g" using f1(1) fit lens by (simp add: fifo_ok_def)
  have cell: "fifo_cell ?g i = (if ?d \<le> i then bs ! (i - ?d) else fifo_cell f1 i)" if "i < ?d + length bs" for i
  proof -
    have m: "(?r + i) mod ?L = (if ?r + i < ?L then ?r + i else ?r + i - ?L)"
      using that fit lens by (intro mod_wrap) simp_all
    have lt: "(?r + i) mod ?L < ?L" using f1(4) by simp
    have "pos \<le> (?r + i) mod ?L \<and> (?r + i) mod ?L < pos + length bs \<longleftrightarrow> ?d \<le> i"
      "?d \<le> i \<Longrightarrow> (?r + i) mod ?L - pos = i - ?d"
      using that fit lens pos assms(3) f1(6,7) unfolding m by (auto split: if_splits)
    then show ?thesis
      using fit lens lt by (simp add: fifo_cell_def ring_at_def nth_mem_write)
  qed
  have "fifo_contents ?g = fifo_contents f1"
    using cell by (simp add: fifo_contents_def)
  moreover have "map (\<lambda>i. fifo_cell ?g (?d + i)) [0..<length bs] = bs"
    using cell by (intro nth_equalityI) simp_all
  moreover have "length bs \<le> ff_buffer_length ?g - ff_data_length ?g" using fit by simp
  ultimately show ?thesis
    using ConsumeWriteBuffer_spec [OF g, of "length bs"] f1(2) by auto
qed

section \<open>The queue interface\<close>

definition fifo_push :: "bytes \<Rightarrow> FifoBuffer \<Rightarrow> nat \<times> FifoBuffer" where
  "fifo_push bs f = snd (Write bs f)"

definition fifo_pop :: "nat \<Rightarrow> FifoBuffer \<Rightarrow> bytes \<times> FifoBuffer" where
  "fifo_pop n f = snd (Read n f)"

interpretation fifo_queue: byte_fifo fifo_ok fifo_contents fifo_push fifo_pop
  by unfold_locales (simp_all add: fifo_push_def fifo_pop_def fifo_simps)

section \<open>Properties\<close>

text \<open>C5. For every sequence of \<open>Write\<close> and \<open>Read\<close> calls on a fresh \<open>FifoBuffer\<close> of any capacity, the
  bytes read followed by the bytes still buffered are exactly the bytes accepted by the writes, in
  order: wrapping around the array loses, duplicates and reorders nothing.\<close>

theorem fifo_stream_order:
  "fst (snd (fifo_run fifo_push fifo_pop opers (new_FifoBuffer fresh))) @
     fifo_contents (snd (snd (fifo_run fifo_push fifo_pop opers (new_FifoBuffer fresh)))) =
   fst (fifo_run fifo_push fifo_pop opers (new_FifoBuffer fresh))"
  using fifo_queue.run_order [OF fifo_ok_new, of opers fresh] by simp

text \<open>C23. \<open>WriteOffset\<close> at offset \<open>off\<close> behind the readable bytes stores as much as fits, fills exactly
  the covered cells of the window and changes neither the readable bytes nor their number; this is
  what lets out-of-order segments be stored before the bytes in front of them arrive.\<close>

theorem fifo_write_offset:
  assumes "fifo_ok f" "ff_state f \<noteq> SS_CLOSED" "ff_data_length f + off < ff_buffer_length f"
  shows "\<exists>f'. WriteOffset bs off f =
      (SR_SUCCESS, min (length bs) (ff_buffer_length f - ff_data_length f - off), f') \<and>
    fifo_ok f' \<and> fifo_contents f' = fifo_contents f \<and>
    (\<forall>i < ff_buffer_length f. fifo_cell f' i =
       (if ff_data_length f + off \<le> i \<and> i < ff_data_length f + off + min (length bs) (ff_buffer_length f - ff_data_length f - off)
        then bs ! (i - (ff_data_length f + off)) else fifo_cell f i))"
  using WriteOffset_spec [OF assms, of bs] assms(3) by (auto simp: fifo_contents_def)

theorem fifo_write_offset_witness:
  "\<exists>f'. WriteOffset [7, 8, 9] 1 (snd (snd (Write [1] (new_FifoBuffer [0, 0, 0, 0])))) = (SR_SUCCESS, 2, f') \<and>
     fifo_contents f' = [1] \<and> fifo_cell f' 2 = 7 \<and> fifo_cell f' 3 = 8"
proof -
  let ?f = "snd (snd (Write [1] (new_FifoBuffer [0, 0, 0, 0])))"
  have "fifo_ok ?f \<and> ff_state ?f \<noteq> SS_CLOSED \<and> ff_data_length ?f = 1 \<and> ff_buffer_length ?f = 4 \<and> fifo_contents ?f = [1]"
    by code_simp
  then show ?thesis using fifo_write_offset [of ?f 1 "[7, 8, 9]"] by auto
qed

text \<open>C24. \<open>SetCapacity\<close> fails exactly when the readable bytes do not fit, and otherwise moves them to
  the new array unchanged, whatever their position around the old one.\<close>

theorem fifo_set_capacity:
  assumes "fifo_ok f"
  shows "(fst (SetCapacity fresh f) \<longleftrightarrow> ff_data_length f \<le> length fresh) \<and>
    fifo_ok (snd (SetCapacity fresh f)) \<and> fifo_contents (snd (SetCapacity fresh f)) = fifo_contents f \<and>
    (fst (SetCapacity fresh f) \<longrightarrow> GetWriteRemaining (snd (SetCapacity fresh f)) = length fresh - ff_data_length f)"
  using SetCapacity_eq [OF assms, of fresh] by (simp add: GetWriteRemaining_def)

theorem fifo_set_capacity_witness:
  "fifo_contents (snd (SetCapacity [9, 9, 9, 9] (\<lparr>ff_state = SS_OPEN, ff_buffer = [3, 1, 2],
     ff_buffer_length = 3, ff_data_length = 3, ff_read_position = 1\<rparr>))) = [1, 2, 3]"
proof -
  let ?f = "\<lparr>ff_state = SS_OPEN, ff_buffer = [3, 1, 2], ff_buffer_length = 3, ff_data_length = 3, ff_read_position = 1\<rparr>"
  have "fifo_ok ?f \<and> fifo_contents ?f = [1, 2, 3]"
    by code_simp
  then show ?thesis using fifo_set_capacity [of ?f "[9, 9, 9, 9]"] by simp
qed

text \<open>C25. Filling part of the block returned by \<open>GetWriteBuffer\<close> in place and calling
  \<open>ConsumeWriteBuffer\<close> appends these bytes to the queue, and the assertion of
  \<open>ConsumeWriteBuffer\<close> holds.\<close>

theorem fifo_direct_write:
  assumes "fifo_ok f" "GetWriteBuffer f = Some (Some (pos, sz), f1)" "length bs \<le> sz"
  shows "\<exists>f2. ConsumeWriteBuffer (length bs) (f1\<lparr>ff_buffer := mem_write (ff_buffer f1) pos bs\<rparr>) = Some f2 \<and>
    fifo_ok f2 \<and> fifo_contents f2 = fifo_contents f @ bs"
  by (rule GetWriteBuffer_append [OF assms])

theorem fifo_direct_write_witness:
  "\<exists>f2. ConsumeWriteBuffer (length [5 :: u8, 6]) (new_FifoBuffer [5, 6, 0]) = Some f2 \<and> fifo_contents f2 = [5, 6]"
proof -
  let ?f = "new_FifoBuffer [0, 0, 0]"
  have "GetWriteBuffer ?f = Some (Some (0, 3), ?f)"
    by (simp add: GetWriteBuffer_def new_FifoBuffer_def)
  moreover have "?f\<lparr>ff_buffer := mem_write (ff_buffer ?f) 0 [5, 6]\<rparr> = new_FifoBuffer [5, 6, 0]"
    by (simp add: new_FifoBuffer_def mem_write_def)
  ultimately show ?thesis
    using fifo_direct_write [of ?f 0 3 ?f "[5, 6]"] by auto
qed

end
