(* ===== verification/Ring_Buffer.thy ===== *)
theory Ring_Buffer
  imports Byte_Fifo
begin

text \<open>
  \<open>Buffer\<close> of the base library (\<open>base/buffer.h\<close>, \<open>base/buffer.cc\<close>): the growable circular buffer of
  the connections.

  The record has the four members of the class; one cell stays free, so that equal indices mean
  an empty buffer. \<open>Receive\<close> and \<open>Remove\<close> return the copied bytes, \<open>None\<close> standing for the return
  value -1; a failed assertion of \<open>HasWritten\<close>, \<open>DoAppend\<close> and \<open>MakeSpace\<close> is \<open>None\<close>. The system calls
  \<open>readv\<close> and \<open>writev\<close> are parameters: \<open>readv\<close> maps the total length of the vectors to an error number
  or the received bytes, \<open>writev\<close> maps the gathered bytes to the returned count.
\<close>

section \<open>State and operations\<close>

record Buffer =
  bf_buffer :: bytes
  bf_capacity :: nat
  readerIndex :: nat
  writerIndex :: nat

definition new_Buffer :: "nat \<Rightarrow> Buffer" where
  "new_Buffer initialSize =
     \<lparr>bf_buffer = replicate initialSize 0, bf_capacity = initialSize, readerIndex = 0, writerIndex = 0\<rparr>"

definition ReadableBytes :: "Buffer \<Rightarrow> nat" where
  "ReadableBytes b =
     (if readerIndex b \<le> writerIndex b then writerIndex b - readerIndex b
      else writerIndex b + bf_capacity b - readerIndex b)"

definition WriteableBytes :: "Buffer \<Rightarrow> nat" where
  "WriteableBytes b = bf_capacity b - 1 - ReadableBytes b"

definition Retrieve :: "nat \<Rightarrow> Buffer \<Rightarrow> int \<times> Buffer" where
  "Retrieve len b =
     (if len > ReadableBytes b then (-1, b)
      else (let r = readerIndex b + len
            in (int len, b\<lparr>readerIndex := (if r \<ge> bf_capacity b then r - bf_capacity b else r)\<rparr>)))"

definition RetrieveAll :: "Buffer \<Rightarrow> Buffer" where
  "RetrieveAll b = b\<lparr>readerIndex := 0, writerIndex := 0\<rparr>"

definition Receive :: "nat \<Rightarrow> Buffer \<Rightarrow> bytes option" where
  "Receive len b =
     (if len > ReadableBytes b then None
      else (let next = readerIndex b + len in
            if next < bf_capacity b then Some (mem_read (bf_buffer b) (readerIndex b) len)
            else Some (mem_read (bf_buffer b) (readerIndex b) (bf_capacity b - readerIndex b) @
                       mem_read (bf_buffer b) 0 (next - bf_capacity b))))"

definition Buffer_Remove :: "nat \<Rightarrow> Buffer \<Rightarrow> bytes option \<times> Buffer" where
  "Buffer_Remove len b =
     (if len > ReadableBytes b then (None, b)
      else (let next = readerIndex b + len in
            if next < bf_capacity b then
              (Some (mem_read (bf_buffer b) (readerIndex b) len), b\<lparr>readerIndex := readerIndex b + len\<rparr>)
            else
              (Some (mem_read (bf_buffer b) (readerIndex b) (bf_capacity b - readerIndex b) @
                     mem_read (bf_buffer b) 0 (next - bf_capacity b)),
               b\<lparr>readerIndex := next - bf_capacity b\<rparr>)))"

definition HasWritten :: "nat \<Rightarrow> Buffer \<Rightarrow> Buffer option" where
  "HasWritten len b =
     (if len > WriteableBytes b then None
      else (let next = writerIndex b + len in
            if next < bf_capacity b then Some (b\<lparr>writerIndex := writerIndex b + len\<rparr>)
            else if next - bf_capacity b < readerIndex b then Some (b\<lparr>writerIndex := next - bf_capacity b\<rparr>)
            else None))"

definition DoAppend :: "bytes \<Rightarrow> Buffer \<Rightarrow> Buffer option" where
  "DoAppend data b =
     (let len = length data in
      if len > WriteableBytes b then None
      else (let next = writerIndex b + len in
            if next < bf_capacity b then
              Some (b\<lparr>bf_buffer := mem_write (bf_buffer b) (writerIndex b) data,
                      writerIndex := writerIndex b + len\<rparr>)
            else
              (let part1 = bf_capacity b - writerIndex b;
                   mem1 = mem_write (bf_buffer b) (writerIndex b) (mem_read data 0 part1);
                   mem2 = mem_write mem1 0 (mem_read data part1 (next - bf_capacity b))
               in if next - bf_capacity b < readerIndex b
                  then Some (b\<lparr>bf_buffer := mem2, writerIndex := next - bf_capacity b\<rparr>)
                  else None)))"

definition MakeSpace :: "nat \<Rightarrow> Buffer \<Rightarrow> Buffer option" where
  "MakeSpace len b =
     (let readable = ReadableBytes b;
          diff = len - WriteableBytes b;
          capacity = bf_capacity b + diff;
          b' = (if readerIndex b \<le> writerIndex b then
                  b\<lparr>bf_buffer := take capacity (bf_buffer b @ replicate diff 0), bf_capacity := capacity\<rparr>
                else
                  (let tmp = bf_buffer b;
                       part1_size = length tmp - readerIndex b;
                       part2_size = writerIndex b;
                       mem1 = mem_write (replicate capacity 0) 0 (drop (readerIndex b) tmp);
                       mem2 = mem_write mem1 part1_size (take (writerIndex b) tmp)
                   in b\<lparr>bf_buffer := mem2, bf_capacity := capacity, readerIndex := 0,
                        writerIndex := part1_size + part2_size\<rparr>))
      in if readable = ReadableBytes b' then Some b' else None)"

definition Buffer_Append :: "bytes \<Rightarrow> Buffer \<Rightarrow> Buffer option" where
  "Buffer_Append data b =
     (if WriteableBytes b < length data
      then Option.bind (MakeSpace (length data) b) (DoAppend data)
      else DoAppend data b)"

subsection \<open>Scatter and gather input/output\<close>

datatype iovec = Iov_mem nat nat | Iov_extra nat

primrec iov_len :: "iovec \<Rightarrow> nat" where
  "iov_len (Iov_mem pos len) = len"
| "iov_len (Iov_extra len) = len"

text \<open>What \<open>readv\<close> stores: the vectors are filled one after the other.\<close>

fun scatter :: "iovec list \<Rightarrow> bytes \<Rightarrow> bytes \<Rightarrow> bytes \<times> bytes" where
  "scatter [] data mem = (mem, [])"
| "scatter (Iov_mem pos len # vs) data mem =
     scatter vs (drop len data) (mem_write mem pos (take len data))"
| "scatter (Iov_extra len # vs) data mem =
     (case scatter vs (drop len data) mem of (mem', extra) \<Rightarrow> (mem', take len data @ extra))"

definition read_vectors :: "Buffer \<Rightarrow> iovec list" where
  "read_vectors b =
     (if readerIndex b \<le> writerIndex b then
        (if readerIndex b = 0 then [Iov_mem (writerIndex b) (bf_capacity b - 1 - writerIndex b)]
         else Iov_mem (writerIndex b) (bf_capacity b - writerIndex b) #
              (if readerIndex b > 1 then [Iov_mem 0 (readerIndex b - 1)] else []))
      else [Iov_mem (writerIndex b) (readerIndex b - 1 - writerIndex b)]) @
     (if WriteableBytes b < 65536 then [Iov_extra 65536] else [])"

definition ReadFd :: "(nat \<Rightarrow> nat + bytes) \<Rightarrow> Buffer \<Rightarrow> ((nat + nat) \<times> Buffer) option" where
  "ReadFd readv b =
     (let writeable = WriteableBytes b;
          vec = read_vectors b
      in case readv (sum_list (map iov_len vec)) of
           Inl err \<Rightarrow> Some (Inl err, b)
         | Inr data \<Rightarrow>
             (let n = length data;
                  (mem, extrabuf) = scatter vec data (bf_buffer b);
                  b' = b\<lparr>bf_buffer := mem\<rparr>
              in if n \<le> writeable then map_option (Pair (Inr n)) (HasWritten n b')
                 else Option.bind (HasWritten writeable b')
                        (\<lambda>b''. map_option (Pair (Inr n)) (Buffer_Append (take (n - writeable) extrabuf) b''))))"

definition write_vectors :: "Buffer \<Rightarrow> (nat \<times> nat) list" where
  "write_vectors b =
     (if readerIndex b < writerIndex b then [(readerIndex b, writerIndex b - readerIndex b)]
      else (readerIndex b, bf_capacity b - readerIndex b) #
           (if writerIndex b \<noteq> 0 then [(0, writerIndex b)] else []))"

definition WriteFd :: "(bytes \<Rightarrow> int) \<Rightarrow> Buffer \<Rightarrow> int \<times> Buffer" where
  "WriteFd writev b =
     (if readerIndex b = writerIndex b then (0, b)
      else (let n = writev (concat (map (\<lambda>(pos, len). mem_read (bf_buffer b) pos len) (write_vectors b)))
            in (n, if n > 0 then snd (Retrieve (nat n) b) else b)))"

section \<open>Invariant and abstraction\<close>

definition buffer_ok :: "Buffer \<Rightarrow> bool" where
  "buffer_ok b \<longleftrightarrow>
     length (bf_buffer b) = bf_capacity b \<and> readerIndex b < bf_capacity b \<and> writerIndex b < bf_capacity b"

definition buffer_contents :: "Buffer \<Rightarrow> bytes" where
  "buffer_contents b = map (ring_at (bf_buffer b) (readerIndex b)) [0..<ReadableBytes b]"

lemma length_buffer_contents [simp]: "length (buffer_contents b) = ReadableBytes b"
  by (simp add: buffer_contents_def)

lemma ReadableBytes_less: "buffer_ok b \<Longrightarrow> ReadableBytes b < bf_capacity b"
  by (auto simp: buffer_ok_def ReadableBytes_def)

lemma Readable_Writeable: "buffer_ok b \<Longrightarrow> ReadableBytes b + WriteableBytes b = bf_capacity b - 1"
  using ReadableBytes_less [of b] by (simp add: WriteableBytes_def)

lemma writerIndex_eq: "buffer_ok b \<Longrightarrow> writerIndex b = (readerIndex b + ReadableBytes b) mod bf_capacity b"
  by (auto simp: buffer_ok_def ReadableBytes_def mod_if)

subsection \<open>Reading\<close>

lemma buffer_contents_drop:
  assumes "buffer_ok b" "len \<le> ReadableBytes b"
    "b' = b\<lparr>readerIndex := (readerIndex b + len) mod bf_capacity b\<rparr>"
  shows "buffer_ok b'" "ReadableBytes b' = ReadableBytes b - len" "buffer_contents b' = drop len (buffer_contents b)"
proof -
  show "buffer_ok b'" using assms by (auto simp: buffer_ok_def)
  have r: "(readerIndex b + len) mod bf_capacity b =
      (if readerIndex b + len < bf_capacity b then readerIndex b + len else readerIndex b + len - bf_capacity b)"
    using assms ReadableBytes_less [of b] by (intro mod_wrap) (auto simp: buffer_ok_def)
  show n: "ReadableBytes b' = ReadableBytes b - len"
    using assms by (auto simp: ReadableBytes_def r buffer_ok_def)
  have "ring_at (bf_buffer b) ((readerIndex b + len) mod bf_capacity b) i = ring_at (bf_buffer b) (readerIndex b) (len + i)" for i
    using assms(1) ring_at_shift [of "bf_buffer b" "readerIndex b" len i] by (simp add: buffer_ok_def)
  then show "buffer_contents b' = drop len (buffer_contents b)"
    using n by (intro nth_equalityI) (simp_all add: buffer_contents_def assms(3))
qed

lemma reader_step:
  assumes "buffer_ok b" "len \<le> ReadableBytes b"
  shows "(readerIndex b + len) mod bf_capacity b =
    (if readerIndex b + len < bf_capacity b then readerIndex b + len else readerIndex b + len - bf_capacity b)"
  using assms ReadableBytes_less [of b] by (intro mod_wrap) (auto simp: buffer_ok_def)

lemma Receive_eq:
  assumes "buffer_ok b"
  shows "Receive len b = (if len \<le> ReadableBytes b then Some (take len (buffer_contents b)) else None)"
proof (cases "len \<le> ReadableBytes b")
  case True
  have len: "readerIndex b < length (bf_buffer b)" "len \<le> length (bf_buffer b)" "length (bf_buffer b) = bf_capacity b"
    using assms True ReadableBytes_less [of b] by (auto simp: buffer_ok_def)
  have "Receive len b = Some (ring_read (bf_buffer b) (readerIndex b) len)"
    using True len by (auto simp: Receive_def ring_read_def Let_def min_def mem_read_def add.commute)
  with True ring_read_nth [OF len(1,2)] show ?thesis
    by (simp add: buffer_contents_def take_map)
qed (simp add: Receive_def)

lemma Buffer_Remove_Receive:
  "Buffer_Remove len b =
     (Receive len b, if len \<le> ReadableBytes b
        then b\<lparr>readerIndex := (if readerIndex b + len < bf_capacity b then readerIndex b + len
                               else readerIndex b + len - bf_capacity b)\<rparr> else b)"
  by (simp add: Buffer_Remove_def Receive_def Let_def)

lemma Retrieve_ok:
  assumes "buffer_ok b" "len \<le> ReadableBytes b"
  shows "fst (Retrieve len b) = int len" "buffer_ok (snd (Retrieve len b))"
    "buffer_contents (snd (Retrieve len b)) = drop len (buffer_contents b)"
proof -
  have "Retrieve len b = (int len, b\<lparr>readerIndex := (readerIndex b + len) mod bf_capacity b\<rparr>)"
    using assms reader_step [OF assms] by (auto simp: Retrieve_def Let_def)
  with buffer_contents_drop [OF assms refl]
  show "fst (Retrieve len b) = int len" "buffer_ok (snd (Retrieve len b))"
    "buffer_contents (snd (Retrieve len b)) = drop len (buffer_contents b)" by simp_all
qed

lemma Buffer_Remove_ok:
  assumes "buffer_ok b" "len \<le> ReadableBytes b"
  shows "fst (Buffer_Remove len b) = Some (take len (buffer_contents b))" "buffer_ok (snd (Buffer_Remove len b))"
    "buffer_contents (snd (Buffer_Remove len b)) = drop len (buffer_contents b)"
  using assms buffer_contents_drop [OF assms refl] reader_step [OF assms]
  by (simp_all add: Buffer_Remove_Receive Receive_eq)

subsection \<open>Writing\<close>

lemma writer_step:
  assumes "buffer_ok b" "len \<le> WriteableBytes b"
  shows "(writerIndex b + len) mod bf_capacity b =
      (if writerIndex b + len < bf_capacity b then writerIndex b + len else writerIndex b + len - bf_capacity b)"
    and "\<not> writerIndex b + len < bf_capacity b \<Longrightarrow> writerIndex b + len - bf_capacity b < readerIndex b"
proof -
  show "(writerIndex b + len) mod bf_capacity b =
      (if writerIndex b + len < bf_capacity b then writerIndex b + len else writerIndex b + len - bf_capacity b)"
    using assms by (intro mod_wrap) (auto simp: buffer_ok_def WriteableBytes_def)
  show "\<not> writerIndex b + len < bf_capacity b \<Longrightarrow> writerIndex b + len - bf_capacity b < readerIndex b"
    using assms by (auto simp: buffer_ok_def WriteableBytes_def ReadableBytes_def split: if_splits)
qed

lemma buffer_contents_append:
  assumes "buffer_ok b" "length bs \<le> WriteableBytes b"
    "b' = b\<lparr>bf_buffer := ring_write (bf_buffer b) (writerIndex b) bs,
           writerIndex := (writerIndex b + length bs) mod bf_capacity b\<rparr>"
  shows "buffer_ok b'" "ReadableBytes b' = ReadableBytes b + length bs" "buffer_contents b' = buffer_contents b @ bs"
proof -
  let ?n = "ReadableBytes b"
  have cap: "?n + length bs < bf_capacity b" "length (bf_buffer b) = bf_capacity b"
    "writerIndex b < bf_capacity b" "readerIndex b < bf_capacity b" "0 < bf_capacity b"
    using assms(1,2) Readable_Writeable [OF assms(1)] by (auto simp: buffer_ok_def)
  show ok: "buffer_ok b'" using cap assms(3) by (simp add: buffer_ok_def)
  show n: "ReadableBytes b' = ?n + length bs"
    using assms writer_step [OF assms(1,2)] by (auto simp: ReadableBytes_def buffer_ok_def WriteableBytes_def split: if_splits)
  have "ring_at (bf_buffer b') (readerIndex b') i =
      (if ?n \<le> i \<and> i < ?n + length bs then bs ! (i - ?n) else ring_at (bf_buffer b) (readerIndex b) i)"
    if "i < bf_capacity b" for i
    using that cap ring_at_write_shift [of "readerIndex b" "bf_buffer b" ?n bs i]
    by (simp add: assms(3) writerIndex_eq [OF assms(1)])
  with cap show "buffer_contents b' = buffer_contents b @ bs"
    by (intro nth_equalityI) (auto simp: n buffer_contents_def nth_append)
qed

lemma HasWritten_eq:
  assumes "buffer_ok b" "len \<le> WriteableBytes b"
  shows "HasWritten len b = Some (b\<lparr>writerIndex := (writerIndex b + len) mod bf_capacity b\<rparr>)"
  using assms writer_step [OF assms] by (auto simp: HasWritten_def Let_def)

lemma DoAppend_eq:
  assumes "buffer_ok b" "length bs \<le> WriteableBytes b"
  shows "DoAppend bs b = Some (b\<lparr>bf_buffer := ring_write (bf_buffer b) (writerIndex b) bs,
      writerIndex := (writerIndex b + length bs) mod bf_capacity b\<rparr>)"
proof -
  have "mem_write m 0 [] = m" for m by (simp add: mem_write_def)
  moreover have "length (bf_buffer b) = bf_capacity b" "writerIndex b < bf_capacity b"
    using assms(1) by (auto simp: buffer_ok_def)
  ultimately show ?thesis
    using assms(2) writer_step [OF assms]
    by (auto simp: DoAppend_def ring_write_def Let_def min_def mem_read_def)
qed

lemma DoAppend_ok:
  assumes "buffer_ok b" "length bs \<le> WriteableBytes b"
  shows "\<exists>b'. DoAppend bs b = Some b' \<and> buffer_ok b' \<and> buffer_contents b' = buffer_contents b @ bs"
  using DoAppend_eq [OF assms] buffer_contents_append [OF assms refl] by blast

lemma mem_write_prefix: "mem_write (replicate n 0) 0 xs = xs @ replicate (n - length xs) 0"
  by (simp add: mem_write_def)

lemma mem_write_at: "length ys \<le> n \<Longrightarrow> mem_write (xs @ replicate n 0) (length xs) ys = xs @ ys @ replicate (n - length ys) 0"
  by (simp add: mem_write_def)

lemma MakeSpace_ok:
  assumes "buffer_ok b" "WriteableBytes b < len"
  shows "\<exists>b'. MakeSpace len b = Some b' \<and> buffer_ok b' \<and> buffer_contents b' = buffer_contents b \<and> WriteableBytes b' = len"
proof (cases "readerIndex b \<le> writerIndex b")
  case True
  define diff where "diff = len - WriteableBytes b"
  let ?b = "b\<lparr>bf_buffer := bf_buffer b @ replicate diff 0, bf_capacity := bf_capacity b + diff\<rparr>"
  have ok: "length (bf_buffer b) = bf_capacity b" "writerIndex b < bf_capacity b"
    using assms(1) by (auto simp: buffer_ok_def)
  have R: "ReadableBytes ?b = ReadableBytes b" using True by (simp add: ReadableBytes_def)
  have "MakeSpace len b = Some ?b"
    using True ok by (simp add: MakeSpace_def Let_def diff_def [symmetric] ReadableBytes_def)
  moreover have "buffer_contents ?b = buffer_contents b"
    unfolding buffer_contents_def R
    using True ok by (auto simp: ReadableBytes_def ring_at_def nth_append)
  moreover have "WriteableBytes ?b = len"
    using R assms(2) ReadableBytes_less [OF assms(1)] by (simp add: WriteableBytes_def diff_def)
  ultimately show ?thesis using ok True by (auto simp: buffer_ok_def)
next
  case False
  define diff where "diff = len - WriteableBytes b"
  define r where "r = readerIndex b"
  define w where "w = writerIndex b"
  define m where "m = bf_buffer b"
  define p where "p = drop r m @ take w m"
  have ok: "length m = bf_capacity b" "r < bf_capacity b" "w < r" "bf_capacity b > 0" "0 < diff"
    using assms False by (auto simp: buffer_ok_def r_def w_def m_def diff_def)
  have lp: "length p = ReadableBytes b" using ok False by (simp add: p_def ReadableBytes_def r_def w_def m_def)
  let ?b = "b\<lparr>bf_buffer := p @ replicate (bf_capacity b + diff - length p) 0, bf_capacity := bf_capacity b + diff,
    readerIndex := 0, writerIndex := length p\<rparr>"
  have R: "ReadableBytes ?b = ReadableBytes b" using lp by (simp add: ReadableBytes_def)
  have "mem_write (mem_write (replicate (bf_capacity b + diff) 0) 0 (drop r m)) (length m - r) (take w m) =
      p @ replicate (bf_capacity b + diff - length p) 0"
    using ok mem_write_at [of "take w m" "diff + r" "drop r m"]
    by (simp add: mem_write_prefix p_def algebra_simps)
  then have "MakeSpace len b = Some ?b"
    using False ok R lp by (simp add: MakeSpace_def Let_def diff_def [symmetric] r_def [symmetric] w_def [symmetric]
        m_def [symmetric] p_def)
  moreover have "buffer_contents b = p"
  proof -
    have "ring_read m r (length p) = p"
      using ok by (auto simp: ring_read_def Let_def mem_read_def p_def min_def)
    with ring_read_nth [of r m "length p"] ok lp ReadableBytes_less [OF assms(1)] show ?thesis
      by (simp add: buffer_contents_def r_def m_def)
  qed
  moreover have "buffer_contents ?b = p"
    unfolding buffer_contents_def R
    using lp ok ReadableBytes_less [OF assms(1)] by (intro nth_equalityI) (auto simp: ring_at_def nth_append)
  moreover have "WriteableBytes ?b = len"
    using R assms(2) ReadableBytes_less [OF assms(1)] by (simp add: WriteableBytes_def diff_def)
  moreover have "buffer_ok ?b"
    using ok lp ReadableBytes_less [OF assms(1)] by (simp add: buffer_ok_def)
  ultimately show ?thesis by auto
qed

lemma Buffer_Append_ok:
  assumes "buffer_ok b"
  shows "\<exists>b'. Buffer_Append bs b = Some b' \<and> buffer_ok b' \<and> buffer_contents b' = buffer_contents b @ bs"
proof (cases "WriteableBytes b < length bs")
  case True
  from MakeSpace_ok [OF assms True] obtain c where
    c: "MakeSpace (length bs) b = Some c" "buffer_ok c" "buffer_contents c = buffer_contents b" "WriteableBytes c = length bs"
    by blast
  with DoAppend_ok [of c bs] True show ?thesis by (auto simp: Buffer_Append_def)
qed (use DoAppend_ok [OF assms, of bs] in \<open>auto simp: Buffer_Append_def\<close>)

subsection \<open>Descriptors\<close>

lemma read_vectors_len:
  assumes "buffer_ok b"
  shows "sum_list (map iov_len (read_vectors b)) = WriteableBytes b + (if WriteableBytes b < 65536 then 65536 else 0)"
  using assms by (auto simp: read_vectors_def WriteableBytes_def ReadableBytes_def buffer_ok_def)

lemma scatter_read_vectors:
  assumes "buffer_ok b" "length data \<le> sum_list (map iov_len (read_vectors b))"
  shows "scatter (read_vectors b) data (bf_buffer b) =
    (ring_write (bf_buffer b) (writerIndex b) (take (WriteableBytes b) data), drop (WriteableBytes b) data)"
proof -
  define W where "W = WriteableBytes b"
  have ok: "length (bf_buffer b) = bf_capacity b" "readerIndex b < bf_capacity b" "writerIndex b < bf_capacity b"
    using assms(1) by (auto simp: buffer_ok_def)
  have fits: "length data \<le> W + (if W < 65536 then 65536 else 0)"
    using assms read_vectors_len [OF assms(1)] by (simp add: W_def)
  consider (low) "readerIndex b = 0" | (mid) "0 < readerIndex b" "readerIndex b \<le> writerIndex b"
    | (high) "writerIndex b < readerIndex b" by linarith
  then show ?thesis
  proof cases
    case low
    then have "W = bf_capacity b - 1 - writerIndex b" by (simp add: W_def WriteableBytes_def ReadableBytes_def)
    with low ok have v: "read_vectors b = Iov_mem (writerIndex b) W # (if W < 65536 then [Iov_extra 65536] else [])"
        and "length (take W data) \<le> length (bf_buffer b) - writerIndex b"
      by (auto simp: read_vectors_def W_def [symmetric])
    then have "ring_write (bf_buffer b) (writerIndex b) (take W data) = mem_write (bf_buffer b) (writerIndex b) (take W data)"
      by (intro ring_write_short)
    with fits show ?thesis by (auto simp: v W_def [symmetric] split: if_splits)
  next
    case mid
    define a where "a = bf_capacity b - writerIndex b"
    obtain c where c: "readerIndex b = Suc c" using mid(1) by (cases "readerIndex b") auto
    have a: "length (bf_buffer b) - writerIndex b = a" "0 < a" using ok by (simp_all add: a_def)
    have W: "W = a + c" using mid ok c by (simp add: W_def WriteableBytes_def ReadableBytes_def a_def)
    have v: "read_vectors b = Iov_mem (writerIndex b) a # (if 0 < c then [Iov_mem 0 c] else []) @
        (if W < 65536 then [Iov_extra 65536] else [])"
      using mid c by (simp add: read_vectors_def a_def W_def)
    have "take a (take (a + c) data) = take a data" "drop a (take (a + c) data) = take c (drop a data)"
      by (simp_all add: drop_take)
    moreover have "take (min (length (take W data)) a) (take W data) = take a data"
      "drop (min (length (take W data)) a) (take W data) = take c (drop a data)"
      by (auto simp: W min_def drop_take)
    moreover have "drop c (drop a data) = drop W data" by (simp add: W add.commute)
    moreover have "W < 65536 \<or> drop W data = []" "take 65536 (drop W data) = drop W data"
      using fits by (auto split: if_splits)
    ultimately show ?thesis
      by (cases "c = 0") (auto simp: v ring_write_def Let_def a W_def [symmetric])
  next
    case high
    then have "W = readerIndex b - 1 - writerIndex b"
      using ok by (simp add: W_def WriteableBytes_def ReadableBytes_def)
    with high ok have v: "read_vectors b = Iov_mem (writerIndex b) W # (if W < 65536 then [Iov_extra 65536] else [])"
        and "length (take W data) \<le> length (bf_buffer b) - writerIndex b"
      by (auto simp: read_vectors_def W_def [symmetric])
    then have "ring_write (bf_buffer b) (writerIndex b) (take W data) = mem_write (bf_buffer b) (writerIndex b) (take W data)"
      by (intro ring_write_short)
    with fits show ?thesis by (auto simp: v W_def [symmetric] split: if_splits)
  qed
qed

lemma ReadFd_ok:
  assumes "buffer_ok b" "readv (sum_list (map iov_len (read_vectors b))) = Inr data"
    "length data \<le> sum_list (map iov_len (read_vectors b))"
  shows "\<exists>b'. ReadFd readv b = Some (Inr (length data), b') \<and> buffer_ok b' \<and> buffer_contents b' = buffer_contents b @ data"
proof -
  define W where "W = WriteableBytes b"
  let ?n = "min (length data) W"
  let ?m = "ring_write (bf_buffer b) (writerIndex b) (take W data)"
  let ?c = "b\<lparr>bf_buffer := ?m, writerIndex := (writerIndex b + ?n) mod bf_capacity b\<rparr>"
  have sc: "scatter (read_vectors b) data (bf_buffer b) = (?m, drop W data)"
    using scatter_read_vectors [OF assms(1,3)] by (simp add: W_def)
  have "length (take W data) \<le> WriteableBytes b" by (simp add: W_def)
  note c = buffer_contents_append [OF assms(1) this refl, simplified]
  have b': "buffer_ok (b\<lparr>bf_buffer := ?m\<rparr>)" "WriteableBytes (b\<lparr>bf_buffer := ?m\<rparr>) = W"
    using assms(1) c(1) by (simp_all add: buffer_ok_def W_def WriteableBytes_def ReadableBytes_def)
  have hw: "HasWritten ?n (b\<lparr>bf_buffer := ?m\<rparr>) = Some ?c"
    using HasWritten_eq [OF b'(1), of ?n] b'(2) by simp
  show ?thesis
  proof (cases "length data \<le> W")
    case True
    with hw c show ?thesis
      by (simp add: ReadFd_def assms(2) sc Let_def W_def [symmetric] min_def)
  next
    case False
    with Buffer_Append_ok [OF c(1), of "drop W data"] hw c show ?thesis
      by (auto simp: ReadFd_def assms(2) sc Let_def W_def [symmetric] min_def)
  qed
qed

lemma gather_write_vectors:
  assumes "buffer_ok b" "readerIndex b \<noteq> writerIndex b"
  shows "concat (map (\<lambda>(pos, len). mem_read (bf_buffer b) pos len) (write_vectors b)) = buffer_contents b"
proof -
  have ok: "length (bf_buffer b) = bf_capacity b" "readerIndex b < bf_capacity b" "writerIndex b < bf_capacity b"
    using assms(1) by (auto simp: buffer_ok_def)
  have "concat (map (\<lambda>(pos, len). mem_read (bf_buffer b) pos len) (write_vectors b)) =
      ring_read (bf_buffer b) (readerIndex b) (ReadableBytes b)"
    using assms(2) ok by (auto simp: write_vectors_def ring_read_def Let_def ReadableBytes_def mem_read_def min_def)
  with ok ReadableBytes_less [OF assms(1)] show ?thesis
    by (simp add: ring_read_nth buffer_contents_def)
qed

lemma WriteFd_ok:
  assumes "buffer_ok b" "writev (buffer_contents b) \<le> int (ReadableBytes b)"
  shows "buffer_ok (snd (WriteFd writev b))"
    "buffer_contents (snd (WriteFd writev b)) = drop (nat (fst (WriteFd writev b))) (buffer_contents b)"
proof -
  have "buffer_ok (snd (WriteFd writev b)) \<and>
    buffer_contents (snd (WriteFd writev b)) = drop (nat (fst (WriteFd writev b))) (buffer_contents b)"
  proof (cases "readerIndex b = writerIndex b")
    case False
    then have g: "concat (map (\<lambda>(pos, len). mem_read (bf_buffer b) pos len) (write_vectors b)) = buffer_contents b"
      by (rule gather_write_vectors [OF assms(1)])
    show ?thesis
      using assms False Retrieve_ok [OF assms(1), of "nat (writev (buffer_contents b))"]
      by (simp add: WriteFd_def g Let_def)
  qed (use assms in \<open>simp add: WriteFd_def\<close>)
  then show "buffer_ok (snd (WriteFd writev b))"
    "buffer_contents (snd (WriteFd writev b)) = drop (nat (fst (WriteFd writev b))) (buffer_contents b)" by auto
qed

section \<open>The queue interface\<close>

interpretation ring_queue: byte_queue buffer_ok buffer_contents Buffer_Append Buffer_Remove
proof unfold_locales
  fix b bs n
  assume ok: "buffer_ok b"
  have len: "length (buffer_contents b) = ReadableBytes b" by (simp add: buffer_contents_def)
  show "\<exists>b'. Buffer_Append bs b = Some b' \<and> buffer_ok b' \<and> buffer_contents b' = buffer_contents b @ bs"
    using ok by (rule Buffer_Append_ok)
  show "\<exists>b'. Buffer_Remove n b = (Some (take n (buffer_contents b)), b') \<and> buffer_ok b' \<and>
      buffer_contents b' = drop n (buffer_contents b)" if "n \<le> length (buffer_contents b)"
    using Buffer_Remove_ok [OF ok, of n] that len by (cases "Buffer_Remove n b") simp
  show "Buffer_Remove n b = (None, b)" if "length (buffer_contents b) < n"
    using that len by (simp add: Buffer_Remove_def)
qed

lemma new_Buffer_ok [simp]: "0 < n \<Longrightarrow> buffer_ok (new_Buffer n)" "buffer_contents (new_Buffer n) = []"
  by (simp_all add: buffer_ok_def new_Buffer_def buffer_contents_def ReadableBytes_def)

section \<open>Properties\<close>

text \<open>C26. \<open>Append\<close> never fails an assertion, keeps the index invariant and appends all the bytes, growing
  and straightening the array when they do not fit.\<close>

theorem buffer_append:
  assumes "buffer_ok b"
  shows "\<exists>b'. Buffer_Append data b = Some b' \<and> buffer_ok b' \<and> buffer_contents b' = buffer_contents b @ data"
  by (rule Buffer_Append_ok [OF assms])

theorem buffer_append_witness:
  "\<exists>b'. Buffer_Append [7, 8, 9] \<lparr>bf_buffer = [2, 0, 1], bf_capacity = 3, readerIndex = 2, writerIndex = 1\<rparr> = Some b' \<and>
     buffer_contents b' = [1, 2, 7, 8, 9]"
proof -
  let ?b = "\<lparr>bf_buffer = [2, 0, 1], bf_capacity = 3, readerIndex = 2, writerIndex = 1\<rparr>"
  have "buffer_ok ?b \<and> buffer_contents ?b = [1, 2]" by code_simp
  then show ?thesis using buffer_append [of ?b "[7, 8, 9]"] by auto
qed

text \<open>C27. On a fresh buffer every sequence of \<open>Append\<close> and \<open>Remove\<close> calls runs to its end without a failed
  assertion, each \<open>Remove\<close> gives what it gives on a plain list, a refusal when there are too few bytes, and the
  buffer ends with the list's contents. So the bytes removed followed by the bytes still buffered are exactly all
  the bytes appended, in order.\<close>

theorem buffer_stream_order:
  assumes "0 < initialSize"
  shows "\<exists>rs b. queue_run Buffer_Append Buffer_Remove opers (new_Buffer initialSize) = Some (rs, b) \<and> buffer_ok b \<and>
    (rs, buffer_contents b) = list_run opers [] \<and> delivered rs @ buffer_contents b = pushed opers"
  using ring_queue.run_refines [OF new_Buffer_ok(1) [OF assms], of opers] list_run_order [of opers "[]"]
  by (auto simp: prod_eq_iff)

theorem buffer_stream_order_witness:
  "\<exists>b. queue_run Buffer_Append Buffer_Remove [Push [1, 2], Pop 1, Push [3, 4], Pop 9, Pop 2] (new_Buffer 2) =
      Some ([Some [1], None, Some [2, 3]], b) \<and> buffer_contents b = [4]"
  using buffer_stream_order [of 2 "[Push [1, 2], Pop 1, Push [3, 4], Pop 9, Pop 2]"] by auto

text \<open>C28. \<open>ReadFd\<close> offers \<open>readv\<close> the free cells and, when they are fewer than 65536, a spill area. If \<open>readv\<close>
  returns at most what was offered, every received byte is appended in order, whether it landed
  behind the data, at the start of the array or in the spill area, and the byte count is returned.\<close>

theorem buffer_read_fd:
  assumes "buffer_ok b" "readv (sum_list (map iov_len (read_vectors b))) = Inr data"
    "length data \<le> sum_list (map iov_len (read_vectors b))"
  shows "\<exists>b'. ReadFd readv b = Some (Inr (length data), b') \<and> buffer_ok b' \<and> buffer_contents b' = buffer_contents b @ data"
  by (rule ReadFd_ok [where readv = readv, OF assms])

theorem buffer_read_fd_witness:
  "\<exists>b'. ReadFd (\<lambda>_. Inr [4, 5, 6, 7]) \<lparr>bf_buffer = [0, 0, 1], bf_capacity = 3, readerIndex = 2, writerIndex = 0\<rparr> =
      Some (Inr 4, b') \<and> buffer_contents b' = [1, 4, 5, 6, 7]"
proof -
  let ?b = "\<lparr>bf_buffer = [0, 0, 1], bf_capacity = 3, readerIndex = 2, writerIndex = 0\<rparr>"
  have "buffer_ok ?b \<and> buffer_contents ?b = [1]" by code_simp
  moreover have "length [4, 5, 6, 7 :: u8] \<le> sum_list (map iov_len (read_vectors ?b))"
    by (simp add: read_vectors_def WriteableBytes_def ReadableBytes_def)
  ultimately show ?thesis using buffer_read_fd [of ?b "\<lambda>_. Inr [4, 5, 6, 7]" "[4, 5, 6, 7]"] by auto
qed

text \<open>C29. \<open>WriteFd\<close> passes all buffered bytes to \<open>writev\<close> in order and removes exactly the bytes that
  \<open>writev\<close> reports as written; an error removes nothing.\<close>

theorem buffer_write_fd:
  assumes "buffer_ok b" "writev (buffer_contents b) \<le> int (ReadableBytes b)"
  shows "buffer_ok (snd (WriteFd writev b)) \<and>
    (buffer_contents b \<noteq> [] \<longrightarrow> fst (WriteFd writev b) = writev (buffer_contents b)) \<and>
    buffer_contents (snd (WriteFd writev b)) = drop (nat (fst (WriteFd writev b))) (buffer_contents b)"
proof -
  have "fst (WriteFd writev b) = writev (buffer_contents b)" if "buffer_contents b \<noteq> []"
  proof -
    have "readerIndex b \<noteq> writerIndex b" using that by (auto simp: buffer_contents_def ReadableBytes_def)
    with gather_write_vectors [OF assms(1)] show ?thesis by (simp add: WriteFd_def Let_def)
  qed
  with WriteFd_ok [where writev = writev, OF assms] show ?thesis by blast
qed

theorem buffer_write_fd_witness:
  "buffer_contents (snd (WriteFd (\<lambda>bs. int (length bs) - 1)
     \<lparr>bf_buffer = [2, 0, 1], bf_capacity = 3, readerIndex = 2, writerIndex = 1\<rparr>)) = [2]"
proof -
  let ?b = "\<lparr>bf_buffer = [2, 0, 1], bf_capacity = 3, readerIndex = 2, writerIndex = 1\<rparr>"
  have "buffer_ok ?b \<and> buffer_contents ?b = [1, 2] \<and> ReadableBytes ?b = 2" by code_simp
  then show ?thesis using buffer_write_fd [of ?b "\<lambda>bs. int (length bs) - 1"] by simp
qed

end
