(* ===== verification/Bit_Buffer.thy ===== *)
theory Bit_Buffer
  imports Prelude
begin

text \<open>
  \<open>BitBuffer\<close> and \<open>BitBufferWriter\<close> (\<open>bit_buffer.h\<close>, \<open>bit_buffer.cc\<close>): reading and writing of bit
  fields, of non-symmetric values and of exponential Golomb codes.

  A call that asserts, or that shifts by the width of the shifted type or more, is \<open>None\<close>;
  otherwise the value beside the state is the out-parameter (\<open>None\<close> when the call returns false).
  The seek-back of a failed Golomb read stands inside an \<open>assert\<close>, so it happens only in builds
  without \<open>NDEBUG\<close>: the flag \<open>debug\<close> of that operation says which build is meant.

  \<open>stream_bit\<close> numbers the bits of the byte array from the most significant bit of the first byte;
  \<open>PeekBits_spec\<close> and \<open>WriteBits_spec\<close> describe the two primitive operations by it.
\<close>

section \<open>Helpers on bytes\<close>

definition LowestBits :: "u8 \<Rightarrow> nat \<Rightarrow> u8" where
  "LowestBits byte bit_count = ucast ((ucast byte :: u32) AND (push_bit bit_count 1 - 1))"

definition HighestBits :: "u8 \<Rightarrow> nat \<Rightarrow> u8" where
  "HighestBits byte bit_count =
     (let shift = 8 - bit_count; m = (ucast (push_bit shift (0xFF :: u32)) :: u8)
      in drop_bit shift (byte AND m))"

definition HighestByte :: "u64 \<Rightarrow> u8" where
  "HighestByte val = ucast (drop_bit 56 val)"

definition WritePartialByte :: "u8 \<Rightarrow> nat \<Rightarrow> u8 \<Rightarrow> nat \<Rightarrow> u8" where
  "WritePartialByte source source_bit_count target target_bit_offset =
     (let m = drop_bit target_bit_offset (ucast (push_bit (8 - source_bit_count) (0xFF :: u32)) :: u8)
      in (target AND NOT m) OR drop_bit target_bit_offset source)"

lemma unat_drop_bit_1_less: "val \<noteq> 0 \<Longrightarrow> unat (drop_bit 1 val) < unat (val :: u64)"
  unfolding unat_drop_bit_eq by (simp add: drop_bit_eq_div unat_gt_0)

function CountBits :: "u64 \<Rightarrow> nat" where
  "CountBits val = (if val \<noteq> 0 then Suc (CountBits (drop_bit 1 val)) else 0)"
  by pat_completeness auto
termination
  by (relation "measure unat") (auto simp only: in_measure wf_measure intro!: unat_drop_bit_1_less)

declare CountBits.simps [simp del]

section \<open>Reading\<close>

record BitBuffer =
  bb_bytes :: bytes
  byte_count :: nat
  byte_offset :: nat
  bit_offset :: nat

definition new_BitBuffer :: "bytes \<Rightarrow> BitBuffer" where
  "new_BitBuffer bs = \<lparr>bb_bytes = bs, byte_count = length bs, byte_offset = 0, bit_offset = 0\<rparr>"

definition RemainingBitCount :: "BitBuffer \<Rightarrow> nat" where
  "RemainingBitCount b = (byte_count b - byte_offset b) * 8 - bit_offset b"

text \<open>The loop of \<open>PeekBits\<close> over whole bytes: the collected bits, the next byte, the bits still wanted.\<close>

fun PeekBits_loop :: "bytes \<Rightarrow> u32 \<Rightarrow> nat \<Rightarrow> nat \<Rightarrow> u32 \<times> nat \<times> nat" where
  "PeekBits_loop mem bits idx bit_count =
     (if bit_count \<ge> 8
      then PeekBits_loop mem (push_bit 8 bits OR ucast (mem ! idx)) (idx + 1) (bit_count - 8)
      else (bits, idx, bit_count))"

declare PeekBits_loop.simps [simp del]

definition PeekBits :: "nat \<Rightarrow> BitBuffer \<Rightarrow> u32 option option" where
  "PeekBits bit_count b =
     (if bit_count = 0 then None
      else if bit_count > RemainingBitCount b \<or> bit_count > 32 then Some None
      else
        (let remaining_bits_in_current_byte = 8 - bit_offset b;
             bits = ucast (LowestBits (bb_bytes b ! byte_offset b) remaining_bits_in_current_byte) :: u32
         in if bit_count < remaining_bits_in_current_byte
            then Some (Some (ucast (HighestBits (ucast bits) (bit_offset b + bit_count))))
            else
              (case PeekBits_loop (bb_bytes b) bits (byte_offset b + 1)
                      (bit_count - remaining_bits_in_current_byte) of
                 (bits', idx, left) \<Rightarrow>
                   if left > 0
                   then Some (Some (push_bit left bits' OR ucast (HighestBits (bb_bytes b ! idx) left)))
                   else Some (Some bits'))))"

definition ConsumeBits :: "nat \<Rightarrow> BitBuffer \<Rightarrow> bool \<times> BitBuffer" where
  "ConsumeBits bit_count b =
     (if bit_count > RemainingBitCount b then (False, b)
      else (True, b\<lparr>byte_offset := byte_offset b + (bit_offset b + bit_count) div 8,
                    bit_offset := (bit_offset b + bit_count) mod 8\<rparr>))"

definition ConsumeBytes :: "nat \<Rightarrow> BitBuffer \<Rightarrow> bool \<times> BitBuffer" where
  "ConsumeBytes byte_cnt b = ConsumeBits (byte_cnt * 8) b"

definition ReadBits :: "nat \<Rightarrow> BitBuffer \<Rightarrow> (u32 option \<times> BitBuffer) option" where
  "ReadBits bit_count b =
     (case PeekBits bit_count b of
        None \<Rightarrow> None
      | Some None \<Rightarrow> Some (None, b)
      | Some (Some v) \<Rightarrow>
          (case ConsumeBits bit_count b of (ok, b') \<Rightarrow> Some (if ok then Some v else None, b')))"

definition BitBuffer_ReadUInt8 :: "BitBuffer \<Rightarrow> (u8 option \<times> BitBuffer) option" where
  "BitBuffer_ReadUInt8 b =
     (case ReadBits 8 b of
        None \<Rightarrow> None
      | Some (None, b') \<Rightarrow> Some (None, b')
      | Some (Some v, b') \<Rightarrow> (if v \<le> 0xFF then Some (Some (ucast v), b') else None))"

definition BitBuffer_ReadUInt16 :: "BitBuffer \<Rightarrow> (u16 option \<times> BitBuffer) option" where
  "BitBuffer_ReadUInt16 b =
     (case ReadBits 16 b of
        None \<Rightarrow> None
      | Some (None, b') \<Rightarrow> Some (None, b')
      | Some (Some v, b') \<Rightarrow> (if v \<le> 0xFFFF then Some (Some (ucast v), b') else None))"

definition BitBuffer_ReadUInt32 :: "BitBuffer \<Rightarrow> (u32 option \<times> BitBuffer) option" where
  "BitBuffer_ReadUInt32 b = ReadBits 32 b"

definition ReadNonSymmetric :: "u32 \<Rightarrow> BitBuffer \<Rightarrow> (u32 option \<times> BitBuffer) option" where
  "ReadNonSymmetric num_values b =
     (if \<not> (num_values > 0 \<and> num_values \<le> push_bit 31 1) then None
      else if num_values = 1 then Some (Some 0, b)
      else
        (let count_bits = CountBits (ucast num_values) in
         if count_bits \<ge> 32 then None
         else
           (let num_min_bits_values = push_bit count_bits 1 - num_values in
            case ReadBits (count_bits - 1) b of
              None \<Rightarrow> None
            | Some (None, b') \<Rightarrow> Some (None, b')
            | Some (Some v, b') \<Rightarrow>
                if v < num_min_bits_values then Some (Some v, b')
                else (case ReadBits 1 b' of
                        None \<Rightarrow> None
                      | Some (None, b'') \<Rightarrow> Some (None, b'')
                      | Some (Some extra_bit, b'') \<Rightarrow>
                          Some (Some (push_bit 1 v + extra_bit - num_min_bits_values), b'')))))"

definition GetCurrentOffset :: "BitBuffer \<Rightarrow> nat \<times> nat" where
  "GetCurrentOffset b = (byte_offset b, bit_offset b)"

definition Seek :: "nat \<Rightarrow> nat \<Rightarrow> BitBuffer \<Rightarrow> bool \<times> BitBuffer" where
  "Seek byte_off bit_off b =
     (if byte_off > byte_count b \<or> bit_off > 7 \<or> (byte_off = byte_count b \<and> bit_off > 0) then (False, b)
      else (True, b\<lparr>byte_offset := byte_off, bit_offset := bit_off\<rparr>))"

lemma RemainingBitCount_Consume:
  assumes "n \<le> RemainingBitCount b"
  shows "RemainingBitCount (snd (ConsumeBits n b)) = RemainingBitCount b - n"
proof -
  define q where "q = (bit_offset b + n) div 8"
  define r where "r = (bit_offset b + n) mod 8"
  have s: "bit_offset b + n = 8 * q + r" unfolding q_def r_def by simp
  have "snd (ConsumeBits n b) = b\<lparr>byte_offset := byte_offset b + q, bit_offset := r\<rparr>"
    using assms by (simp add: ConsumeBits_def q_def r_def)
  then show ?thesis
    using assms s by (simp add: RemainingBitCount_def)
qed

lemma PeekBits_Some_le: "PeekBits n b = Some (Some v) \<Longrightarrow> 0 < n \<and> n \<le> RemainingBitCount b \<and> n \<le> 32"
  by (auto simp: PeekBits_def split: if_splits)

text \<open>The loop that counts and skips leading zero bits.\<close>

function golomb_zeros :: "nat \<Rightarrow> BitBuffer \<Rightarrow> nat \<times> BitBuffer" where
  "golomb_zeros zero_bit_count b =
     (if PeekBits 1 b = Some (Some 0)
      then golomb_zeros (zero_bit_count + 1) (snd (ConsumeBits 1 b))
      else (zero_bit_count, b))"
  by pat_completeness auto
termination
proof (relation "measure (\<lambda>(z, b). RemainingBitCount b)")
  fix z b
  assume "PeekBits 1 b = Some (Some 0)"
  then have "1 \<le> RemainingBitCount b" using PeekBits_Some_le [of 1 b 0] by simp
  then show "((z + 1, snd (ConsumeBits 1 b)), z, b) \<in> measure (\<lambda>(z, b). RemainingBitCount b)"
    by (simp add: RemainingBitCount_Consume)
qed simp

declare golomb_zeros.simps [simp del]

definition ReadExponentialGolomb :: "bool \<Rightarrow> BitBuffer \<Rightarrow> (u32 option \<times> BitBuffer) option" where
  "ReadExponentialGolomb debug b =
     (case golomb_zeros 0 b of
        (zero_bit_count, b1) \<Rightarrow>
          (if \<not> (PeekBits 1 b1 = Some None \<or> PeekBits 1 b1 = Some (Some 1)) then None
           else
             (let value_bit_count = zero_bit_count + 1;
                  fail = (\<lambda>b2. if debug
                           then (case Seek (byte_offset b) (bit_offset b) b2 of
                                   (True, b3) \<Rightarrow> Some (None, b3) | (False, b3) \<Rightarrow> None)
                           else Some (None, b2))
              in if value_bit_count > 32 then fail b1
                 else (case ReadBits value_bit_count b1 of
                         None \<Rightarrow> None
                       | Some (None, b2) \<Rightarrow> fail b2
                       | Some (Some v, b2) \<Rightarrow> Some (Some (v - 1), b2)))))"

definition ReadSignedExponentialGolomb :: "bool \<Rightarrow> BitBuffer \<Rightarrow> (32 word option \<times> BitBuffer) option" where
  "ReadSignedExponentialGolomb debug b =
     (case ReadExponentialGolomb debug b of
        None \<Rightarrow> None
      | Some (None, b') \<Rightarrow> Some (None, b')
      | Some (Some u, b') \<Rightarrow>
          Some (Some (if u AND 1 = 0 then - (u div 2) else (u + 1) div 2), b'))"

section \<open>Writing\<close>

fun WriteBits_loop :: "bytes \<Rightarrow> u64 \<Rightarrow> nat \<Rightarrow> nat \<Rightarrow> bytes \<times> u64 \<times> nat \<times> nat" where
  "WriteBits_loop mem val idx bit_count =
     (if bit_count \<ge> 8
      then WriteBits_loop (mem[idx := HighestByte val]) (push_bit 8 val) (idx + 1) (bit_count - 8)
      else (mem, val, idx, bit_count))"

declare WriteBits_loop.simps [simp del]

definition WriteBits :: "u64 \<Rightarrow> nat \<Rightarrow> BitBuffer \<Rightarrow> (bool \<times> BitBuffer) option" where
  "WriteBits val bit_count b =
     (if bit_count > RemainingBitCount b then Some (False, b)
      else if bit_count = 0 \<or> bit_count > 64 then None
      else
        (let val1 = push_bit (64 - bit_count) val;
             idx = byte_offset b;
             remaining_bits_in_current_byte = 8 - bit_offset b;
             bits_in_first_byte = min bit_count remaining_bits_in_current_byte;
             mem1 = (bb_bytes b)[idx := WritePartialByte (HighestByte val1) bits_in_first_byte
                                          (bb_bytes b ! idx) (bit_offset b)]
         in if bit_count \<le> remaining_bits_in_current_byte
            then Some (ConsumeBits bit_count (b\<lparr>bb_bytes := mem1\<rparr>))
            else
              (case WriteBits_loop mem1 (push_bit bits_in_first_byte val1) (idx + 1)
                      (bit_count - bits_in_first_byte) of
                 (mem2, val2, idx2, left) \<Rightarrow>
                   (let mem3 = (if left > 0
                                then mem2[idx2 := WritePartialByte (HighestByte val2) left (mem2 ! idx2) 0]
                                else mem2)
                    in Some (ConsumeBits bit_count (b\<lparr>bb_bytes := mem3\<rparr>))))))"

definition BitBufferWriter_WriteUInt8 :: "u8 \<Rightarrow> BitBuffer \<Rightarrow> (bool \<times> BitBuffer) option" where
  "BitBufferWriter_WriteUInt8 val b = WriteBits (ucast val) 8 b"

definition BitBufferWriter_WriteUInt16 :: "u16 \<Rightarrow> BitBuffer \<Rightarrow> (bool \<times> BitBuffer) option" where
  "BitBufferWriter_WriteUInt16 val b = WriteBits (ucast val) 16 b"

definition BitBufferWriter_WriteUInt32 :: "u32 \<Rightarrow> BitBuffer \<Rightarrow> (bool \<times> BitBuffer) option" where
  "BitBufferWriter_WriteUInt32 val b = WriteBits (ucast val) 32 b"

definition WriteNonSymmetric :: "u32 \<Rightarrow> u32 \<Rightarrow> BitBuffer \<Rightarrow> (bool \<times> BitBuffer) option" where
  "WriteNonSymmetric val num_values b =
     (if \<not> (val < num_values \<and> num_values \<le> push_bit 31 1) then None
      else if num_values = 1 then Some (True, b)
      else
        (let count_bits = CountBits (ucast num_values) in
         if count_bits \<ge> 32 then None
         else
           (let num_min_bits_values = push_bit count_bits 1 - num_values in
            if val < num_min_bits_values then WriteBits (ucast val) (count_bits - 1) b
            else WriteBits (ucast (val + num_min_bits_values)) count_bits b)))"

definition SizeNonSymmetricBits :: "u32 \<Rightarrow> u32 \<Rightarrow> nat option" where
  "SizeNonSymmetricBits val num_values =
     (if \<not> (val < num_values \<and> num_values \<le> push_bit 31 1) then None
      else
        (let count_bits = CountBits (ucast num_values) in
         if count_bits \<ge> 32 then None
         else (let num_min_bits_values = push_bit count_bits 1 - num_values in
               Some (if val < num_min_bits_values then count_bits - 1 else count_bits))))"

definition WriteExponentialGolomb :: "u32 \<Rightarrow> BitBuffer \<Rightarrow> (bool \<times> BitBuffer) option" where
  "WriteExponentialGolomb val b =
     (if val = 0xFFFFFFFF then Some (False, b)
      else (let val_to_encode = ucast val + 1 :: u64
            in WriteBits val_to_encode (CountBits val_to_encode * 2 - 1) b))"

definition WriteSignedExponentialGolomb :: "32 word \<Rightarrow> BitBuffer \<Rightarrow> (bool \<times> BitBuffer) option" where
  "WriteSignedExponentialGolomb val b =
     (if val = 0 then WriteExponentialGolomb 0 b
      else if 0 <s val then WriteExponentialGolomb (val * 2 - 1) b
      else if sint val = - (2 ^ 31) then Some (False, b)
      else WriteExponentialGolomb ((- val) * 2) b)"

section \<open>The bit stream\<close>

definition bits_ok :: "BitBuffer \<Rightarrow> bool" where
  "bits_ok b \<longleftrightarrow> byte_count b = length (bb_bytes b) \<and> bit_offset b < 8 \<and>
     8 * byte_offset b + bit_offset b \<le> 8 * byte_count b"

definition bit_pos :: "BitBuffer \<Rightarrow> nat" where
  "bit_pos b = 8 * byte_offset b + bit_offset b"

lemma bits_ok_new [simp]: "bits_ok (new_BitBuffer bs)" "bit_pos (new_BitBuffer bs) = 0"
  by (simp_all add: bits_ok_def new_BitBuffer_def bit_pos_def)

lemma Remaining_pos: "bits_ok b \<Longrightarrow> RemainingBitCount b = 8 * byte_count b - bit_pos b"
  by (simp add: RemainingBitCount_def bit_pos_def algebra_simps)

lemma ConsumeBits_eq:
  assumes "n \<le> RemainingBitCount b"
  shows "ConsumeBits n b = (True, b\<lparr>byte_offset := (bit_pos b + n) div 8, bit_offset := (bit_pos b + n) mod 8\<rparr>)"
proof -
  have "(bit_pos b + n) div 8 = byte_offset b + (bit_offset b + n) div 8"
    "(bit_pos b + n) mod 8 = (bit_offset b + n) mod 8"
    unfolding bit_pos_def add.assoc by simp_all
  with assms show ?thesis by (simp add: ConsumeBits_def)
qed

lemma ConsumeBits_ok:
  assumes "bits_ok b" "n \<le> RemainingBitCount b"
  shows "bits_ok (snd (ConsumeBits n b))" "bit_pos (snd (ConsumeBits n b)) = bit_pos b + n"
    "bb_bytes (snd (ConsumeBits n b)) = bb_bytes b" "fst (ConsumeBits n b)"
  using assms by (auto simp: ConsumeBits_eq bits_ok_def bit_pos_def Remaining_pos)

subsection \<open>Bit facts of the byte helpers\<close>

lemma LowestBits_eq: "LowestBits byte n = take_bit n byte"
proof -
  have "(push_bit n 1 - 1 :: u32) = mask n" by (simp add: mask_eq_exp_minus_1 push_bit_of_1)
  then show ?thesis
    by (intro bit_word_eqI) (auto simp: LowestBits_def bit_simps)
qed

lemma bit_high_mask: "bit (ucast (push_bit s (0xFF :: u32)) :: u8) j \<longleftrightarrow> s \<le> j \<and> j < 8"
  by (auto simp only: bit_unsigned_iff bit_push_bit_iff bit_0xFF possible_bit_word) simp_all

lemma HighestBits_eq: "HighestBits byte n = drop_bit (8 - n) byte"
proof (rule bit_word_eqI)
  fix j
  have "bit byte k \<Longrightarrow> k < 8" for k using bit_imp_le_length [of byte k] by simp
  then show "bit (HighestBits byte n) j = bit (drop_bit (8 - n) byte) j"
    by (auto simp only: HighestBits_def Let_def bit_drop_bit_eq bit_and_iff bit_high_mask comp_apply)
qed

lemma ucast_byte [simp]: "ucast (ucast x :: u32) = (x :: u8)"
  by (rule bit_word_eqI) (simp add: bit_simps)

lemma bit_HighestByte: "bit (HighestByte val) j \<longleftrightarrow> j < 8 \<and> bit val (56 + j)"
  by (auto simp: HighestByte_def bit_simps)

lemma bit_WritePartialByte:
  assumes "i < 8" "off < 8" "n \<le> 8 - off" "\<forall>j < 8 - n. \<not> bit source j \<or> n = 8 - off"
  shows "bit (WritePartialByte source n target off) (7 - i) =
    (if off \<le> i \<and> i < off + n then bit source (7 - (i - off)) else bit target (7 - i))"
proof -
  have e: "off + (7 - i) = 7 - (i - off)" if "off \<le> i" using that assms(1) by simp
  have lt: "\<not> bit source (off + (7 - i))" if "i < off"
    using that by (auto simp: bit_simps dest: bit_imp_le_length)
  have m: "bit (ucast (push_bit (8 - n) (0xFF :: u32)) :: u8) (off + (7 - i)) \<longleftrightarrow> off \<le> i \<and> i < off + n"
    unfolding bit_high_mask using assms(1-3) by auto
  have z: "\<not> bit source (7 - (i - off))" if "off + n \<le> i"
  proof -
    have "7 - (i - off) < 8 - n" using that assms(1) by linarith
    then have "\<not> bit source (7 - (i - off)) \<or> n = 8 - off" using assms(4) by blast
    with that assms(1,2) show ?thesis by auto
  qed
  show ?thesis
    unfolding WritePartialByte_def Let_def bit_or_iff bit_and_iff bit_not_iff m bit_drop_bit_eq comp_apply
    using assms(1) e lt z by (cases "off \<le> i") auto
qed

subsection \<open>Reading bits\<close>

text \<open>The value \<open>v\<close> is the \<open>m\<close> bits of the stream from position \<open>p\<close> on.\<close>

definition holds_bits :: "bytes \<Rightarrow> nat \<Rightarrow> nat \<Rightarrow> u32 \<Rightarrow> bool" where
  "holds_bits mem p m v \<longleftrightarrow> (\<forall>j. bit v j \<longleftrightarrow> j < m \<and> stream_bit mem (p + m - 1 - j))"

lemma holds_bits_extend:
  assumes "holds_bits mem p m v" "8 * idx = p + m" "k \<le> 8" "m + k \<le> 32"
  shows "holds_bits mem p (m + k) (push_bit k v OR ucast (drop_bit (8 - k) (mem ! idx)))"
  unfolding holds_bits_def
proof
  fix j
  have low: "stream_bit mem (p + (m + k) - 1 - j) = bit (mem ! idx) (8 - k + j)" if "j < k"
  proof -
    have "p + (m + k) - 1 - j = 8 * idx + (k - 1 - j)" "7 - (k - 1 - j) = 8 - k + j"
      using that assms(2,3) by linarith+
    then show ?thesis using that assms(3) stream_bit_in_byte [of "k - 1 - j" mem idx] by auto
  qed
  have high: "bit v (j - k) \<longleftrightarrow> j < m + k \<and> stream_bit mem (p + (m + k) - 1 - j)" if "k \<le> j"
  proof -
    have "p + m - 1 - (j - k) = p + (m + k) - 1 - j" "j - k < m \<longleftrightarrow> j < m + k" using that by linarith+
    then show ?thesis using assms(1) unfolding holds_bits_def by metis
  qed
  have b8: "bit (mem ! idx) i \<Longrightarrow> i < 8" for i using bit_imp_le_length [of "mem ! idx" i] by simp
  have "bit (push_bit k v OR ucast (drop_bit (8 - k) (mem ! idx))) j \<longleftrightarrow>
      (k \<le> j \<and> j < 32 \<and> bit v (j - k)) \<or> (j < 32 \<and> bit (mem ! idx) (8 - k + j))"
    by (auto simp: bit_simps)
  then show "bit (push_bit k v OR ucast (drop_bit (8 - k) (mem ! idx))) j \<longleftrightarrow>
      j < m + k \<and> stream_bit mem (p + (m + k) - 1 - j)"
    using low high assms(3,4) b8 [of "8 - k + j"] by (cases "j < k") auto
qed

lemma PeekBits_loop_spec:
  assumes "holds_bits mem p m bits" "8 * idx = p + m" "m + n \<le> 32"
  shows "\<exists>bits' idx' m'. PeekBits_loop mem bits idx n = (bits', idx', n mod 8) \<and>
    holds_bits mem p m' bits' \<and> 8 * idx' = p + m' \<and> m' + n mod 8 = m + n"
  using assms
proof (induction mem bits idx n arbitrary: m rule: PeekBits_loop.induct)
  case (1 mem bits idx n)
  show ?case
  proof (cases "8 \<le> n")
    case True
    have h: "holds_bits mem p (m + 8) (push_bit 8 bits OR ucast (mem ! idx))"
      using holds_bits_extend [OF "1.prems"(1,2), of 8] "1.prems"(3) True by simp
    show ?thesis
      using "1.IH" [OF True h] "1.prems"(2,3) True
      by (subst PeekBits_loop.simps) (simp add: le_mod_geq)
  next
    case False
    with "1.prems" show ?thesis by (subst PeekBits_loop.simps) auto
  qed
qed

lemma PeekBits_spec:
  assumes "bits_ok b" "0 < n" "n \<le> 32" "n \<le> RemainingBitCount b"
  shows "\<exists>v. PeekBits n b = Some (Some v) \<and> holds_bits (bb_bytes b) (bit_pos b) n v"
proof -
  let ?off = "bit_offset b" and ?mem = "bb_bytes b"
  let ?byte = "?mem ! byte_offset b"
  have off: "?off < 8" using assms(1) by (simp add: bits_ok_def)
  have sb: "stream_bit ?mem (bit_pos b + i) = bit ?byte (7 - (?off + i))" if "?off + i < 8" for i
    using that stream_bit_in_byte [of "?off + i" ?mem "byte_offset b"] by (simp add: bit_pos_def add.assoc)
  show ?thesis
  proof (cases "n < 8 - ?off")
    case True
    let ?v = "ucast (drop_bit (8 - (?off + n)) (take_bit (8 - ?off) ?byte)) :: u32"
    have "holds_bits ?mem (bit_pos b) n ?v"
      unfolding holds_bits_def
    proof
      fix j
      have "bit ?v j \<longleftrightarrow> j < n \<and> bit ?byte (8 - (?off + n) + j)"
        using True assms(3) by (auto simp: bit_simps)
      moreover have "stream_bit ?mem (bit_pos b + n - 1 - j) = bit ?byte (8 - (?off + n) + j)" if "j < n"
        using that True sb [of "n - 1 - j"] by simp
      ultimately show "bit ?v j \<longleftrightarrow> j < n \<and> stream_bit ?mem (bit_pos b + n - 1 - j)" by auto
    qed
    with True assms show ?thesis by (simp add: PeekBits_def Let_def LowestBits_eq HighestBits_eq)
  next
    case False
    let ?m = "8 - ?off"
    have "holds_bits ?mem (bit_pos b) ?m (ucast (take_bit ?m ?byte))"
      unfolding holds_bits_def
    proof
      fix j
      have "stream_bit ?mem (bit_pos b + ?m - 1 - j) = bit ?byte j" if "j < ?m"
        using that off sb [of "?m - 1 - j"] by (simp add: add.commute)
      then show "bit (ucast (take_bit ?m ?byte) :: u32) j \<longleftrightarrow> j < ?m \<and> stream_bit ?mem (bit_pos b + ?m - 1 - j)"
        by (auto simp: bit_simps)
    qed
    moreover have "8 * (byte_offset b + 1) = bit_pos b + ?m" "?m + (n - ?m) = n" "?m + (n - ?m) \<le> 32"
      using off False assms(3) by (simp_all add: bit_pos_def)
    ultimately obtain bits' idx' m' where l: "PeekBits_loop ?mem (ucast (take_bit ?m ?byte)) (byte_offset b + 1) (n - ?m) = (bits', idx', (n - ?m) mod 8)"
      and h: "holds_bits ?mem (bit_pos b) m' bits'" and i: "8 * idx' = bit_pos b + m'" "m' + (n - ?m) mod 8 = n"
      using PeekBits_loop_spec [of ?mem "bit_pos b" ?m _ "byte_offset b + 1" "n - ?m"] by metis
    let ?l = "(n - ?m) mod 8"
    have "?l \<le> 8" by (simp add: less_imp_le)
    then have "holds_bits ?mem (bit_pos b) n (push_bit ?l bits' OR ucast (drop_bit (8 - ?l) (?mem ! idx')))"
      using holds_bits_extend [OF h i(1), of ?l] i(2) assms(3) by simp
    with h i(2) l False assms show ?thesis
      by (auto simp: PeekBits_def Let_def LowestBits_eq HighestBits_eq)
  qed
qed

lemma ReadBits_spec:
  assumes "bits_ok b" "0 < n" "n \<le> 32" "n \<le> RemainingBitCount b"
  shows "\<exists>v. ReadBits n b = Some (Some v, snd (ConsumeBits n b)) \<and> holds_bits (bb_bytes b) (bit_pos b) n v"
proof -
  from PeekBits_spec [OF assms] obtain v where "PeekBits n b = Some (Some v)" "holds_bits (bb_bytes b) (bit_pos b) n v"
    by blast
  with ConsumeBits_ok(4) [OF assms(1,4)] show ?thesis by (simp add: ReadBits_def case_prod_beta)
qed

lemma holds_bits_unique: "holds_bits mem p n v \<Longrightarrow> holds_bits mem p n w \<Longrightarrow> v = w"
  by (rule bit_word_eqI) (simp add: holds_bits_def)

subsection \<open>Writing bits\<close>

text \<open>
  The array \<open>mem'\<close> has the first \<open>m\<close> of the \<open>n\<close> lowest bits of \<open>val\<close> at position \<open>p\<close> and is \<open>mem\<close>
  everywhere else.
\<close>

definition wrote_bits :: "bytes \<Rightarrow> bytes \<Rightarrow> nat \<Rightarrow> u64 \<Rightarrow> nat \<Rightarrow> nat \<Rightarrow> bool" where
  "wrote_bits mem mem' p val n m \<longleftrightarrow> length mem' = length mem \<and>
     (\<forall>k < 8 * length mem. stream_bit mem' k =
        (if p \<le> k \<and> k < p + m then bit val (p + n - 1 - k) else stream_bit mem k))"

lemma stream_bit_update:
  assumes "k < 8 * length mem"
  shows "stream_bit (mem[idx := byte]) k = (if k div 8 = idx then bit byte (7 - k mod 8) else stream_bit mem k)"
  using assms by (auto simp: stream_bit_def)

lemma wrote_bits_step:
  assumes w: "wrote_bits mem mem1 p val n m"
    and idx: "8 * idx + off = p + m" "off < 8" "idx < length mem"
    and j: "0 < j" "m + j \<le> n" "n \<le> 64" "j \<le> 8 - off" "m + j = n \<or> j = 8 - off"
  shows "wrote_bits mem (mem1[idx := WritePartialByte (HighestByte (push_bit (64 - n + m) val)) j (mem1 ! idx) off]) p val n (m + j)"
proof -
  let ?s = "HighestByte (push_bit (64 - n + m) val)"
  have src: "bit ?s i \<longleftrightarrow> i < 8 \<and> 64 - n + m \<le> 56 + i \<and> bit val (56 + i - (64 - n + m))" for i
    using j by (auto simp: bit_HighestByte bit_push_bit_iff)
  have z: "\<forall>i < 8 - j. \<not> bit ?s i \<or> j = 8 - off"
  proof (intro allI impI)
    fix i
    assume "i < 8 - j"
    then have "m + j = n \<Longrightarrow> \<not> 64 - n + m \<le> 56 + i" using j by linarith
    then show "\<not> bit ?s i \<or> j = 8 - off" using j(5) src by blast
  qed
  have l: "length mem1 = length mem" using w by (simp add: wrote_bits_def)
  have "stream_bit (mem1[idx := WritePartialByte ?s j (mem1 ! idx) off]) k =
      (if p \<le> k \<and> k < p + (m + j) then bit val (p + n - 1 - k) else stream_bit mem k)" if k: "k < 8 * length mem" for k
  proof -
    have old: "stream_bit mem1 k = (if p \<le> k \<and> k < p + m then bit val (p + n - 1 - k) else stream_bit mem k)"
      using w k by (simp add: wrote_bits_def)
    show ?thesis
    proof (cases "k div 8 = idx")
      case False
      then have "k < 8 * idx \<or> 8 * idx + 8 \<le> k" by auto
      then have "\<not> (p + m \<le> k \<and> k < p + (m + j))" using idx(1) j by linarith
      then show ?thesis using False k l old by (auto simp: stream_bit_update)
    next
      case True
      define i where "i = k mod 8"
      have i: "i < 8" "k = 8 * idx + i" using True by (auto simp: i_def)
      have "stream_bit mem1 k = bit (mem1 ! idx) (7 - i)" using i by (simp add: stream_bit_in_byte)
      moreover have "bit ?s (7 - (i - off)) = bit val (p + n - 1 - k)" if "off \<le> i" "i < off + j"
      proof -
        have "56 + (7 - (i - off)) - (64 - n + m) = p + n - 1 - k" "64 - n + m \<le> 56 + (7 - (i - off))" "7 - (i - off) < 8"
          using that i idx j by linarith+
        then show ?thesis by (simp add: src)
      qed
      moreover have "off \<le> i \<longleftrightarrow> p + m \<le> k" "i < off + j \<longleftrightarrow> k < p + (m + j)" using i idx by linarith+
      moreover have "stream_bit (mem1[idx := WritePartialByte ?s j (mem1 ! idx) off]) k =
          bit (WritePartialByte ?s j (mem1 ! idx) off) (7 - i)"
        using k l True by (simp add: stream_bit_update i_def)
      ultimately show ?thesis
        using bit_WritePartialByte [OF i(1) idx(2) j(4) z, of "mem1 ! idx"] old by auto
    qed
  qed
  then show ?thesis using l by (simp add: wrote_bits_def)
qed

lemma WritePartialByte_full: "WritePartialByte source 8 target 0 = source"
proof (rule bit_word_eqI)
  fix j
  assume "j < LENGTH(8)"
  then show "bit (WritePartialByte source 8 target 0) j = bit source j"
    using bit_WritePartialByte [of "7 - j" 0 8 source target] by simp
qed

lemma WriteBits_loop_spec:
  assumes "wrote_bits mem mem1 p val n m" "8 * idx = p + m" "m + c = n" "n \<le> 64" "p + n \<le> 8 * length mem"
  shows "\<exists>mem2 idx2 m2. WriteBits_loop mem1 (push_bit (64 - n + m) val) idx c =
      (mem2, push_bit (64 - n + m2) val, idx2, c mod 8) \<and>
    wrote_bits mem mem2 p val n m2 \<and> 8 * idx2 = p + m2 \<and> m2 + c mod 8 = n"
  using assms
proof (induction c arbitrary: mem1 idx m rule: less_induct)
  case (less c)
  show ?case
  proof (cases "8 \<le> c")
    case True
    let ?mem = "mem1[idx := HighestByte (push_bit (64 - n + m) val)]"
    have "wrote_bits mem ?mem p val n (m + 8)"
      using wrote_bits_step [OF less.prems(1), of idx 0 8] less.prems True by (simp add: WritePartialByte_full)
    moreover have "8 * (idx + 1) = p + (m + 8)" "m + 8 + (c - 8) = n" using less.prems True by simp_all
    ultimately obtain mem2 idx2 m2 where
      "WriteBits_loop ?mem (push_bit (64 - n + (m + 8)) val) (idx + 1) (c - 8) =
        (mem2, push_bit (64 - n + m2) val, idx2, (c - 8) mod 8)"
      "wrote_bits mem mem2 p val n m2" "8 * idx2 = p + m2" "m2 + (c - 8) mod 8 = n"
      using less.IH [of "c - 8" ?mem "m + 8" "idx + 1"] True less.prems(4,5) by auto
    moreover have "push_bit 8 (push_bit (64 - n + m) val) = push_bit (64 - n + (m + 8)) val"
      by (simp add: push_bit_push_bit ac_simps)
    moreover have "(c - 8) mod 8 = c mod 8" using True by (simp add: le_mod_geq)
    ultimately show ?thesis
      using True by (subst WriteBits_loop.simps) auto
  next
    case False
    with less.prems show ?thesis by (subst WriteBits_loop.simps) auto
  qed
qed

text \<open>\<open>WriteBits\<close> sets the next \<open>n\<close> bits of the stream to the lowest \<open>n\<close> bits of \<open>val\<close>, and nothing else.\<close>

lemma WriteBits_spec:
  assumes "bits_ok b" "0 < n" "n \<le> 64" "n \<le> RemainingBitCount b"
  shows "\<exists>b'. WriteBits val n b = Some (True, b') \<and> bits_ok b' \<and> bit_pos b' = bit_pos b + n \<and>
    byte_count b' = byte_count b \<and> wrote_bits (bb_bytes b) (bb_bytes b') (bit_pos b) val n n"
proof -
  let ?mem = "bb_bytes b" and ?off = "bit_offset b" and ?idx = "byte_offset b" and ?p = "bit_pos b"
  let ?j = "min n (8 - ?off)"
  let ?mem1 = "?mem[?idx := WritePartialByte (HighestByte (push_bit (64 - n) val)) ?j (?mem ! ?idx) ?off]"
  have off: "?off < 8" "8 * ?idx + ?off = ?p" "?p + n \<le> 8 * length ?mem"
    using assms(1,2,4) Remaining_pos [OF assms(1)] by (auto simp: bits_ok_def bit_pos_def)
  have "wrote_bits ?mem ?mem ?p val n 0" by (auto simp: wrote_bits_def)
  from wrote_bits_step [OF this, of ?idx ?off ?j]
  have w1: "wrote_bits ?mem ?mem1 ?p val n ?j" using off assms(2,3) by (auto simp: min_def)
  have fin: ?thesis if "WriteBits val n b = Some (ConsumeBits n (b\<lparr>bb_bytes := m'\<rparr>))" "wrote_bits ?mem m' ?p val n n" for m'
  proof -
    let ?c = "b\<lparr>bb_bytes := m'\<rparr>"
    have "bits_ok ?c" "n \<le> RemainingBitCount ?c" "bit_pos ?c = ?p"
      using that(2) assms by (simp_all add: bits_ok_def wrote_bits_def RemainingBitCount_def bit_pos_def)
    moreover from this have "byte_count (snd (ConsumeBits n ?c)) = byte_count b" by (simp add: ConsumeBits_eq)
    ultimately show ?thesis
      using ConsumeBits_ok [of ?c n] that by (cases "ConsumeBits n ?c") simp
  qed
  show ?thesis
  proof (cases "n \<le> 8 - ?off")
    case True
    then have "?j = n" by simp
    with w1 True assms show ?thesis by (intro fin [of ?mem1]) (simp_all add: WriteBits_def Let_def)
  next
    case False
    then have j: "?j = 8 - ?off" by simp
    have "8 * (?idx + 1) = ?p + ?j" "?j + (n - ?j) = n" using off j False by auto
    from WriteBits_loop_spec [OF w1 this assms(3) off(3)] obtain mem2 idx2 m2 where
      l: "WriteBits_loop ?mem1 (push_bit (64 - n + ?j) val) (?idx + 1) (n - ?j) =
        (mem2, push_bit (64 - n + m2) val, idx2, (n - ?j) mod 8)"
      and w2: "wrote_bits ?mem mem2 ?p val n m2" and i2: "8 * idx2 = ?p + m2" "m2 + (n - ?j) mod 8 = n"
      by blast
    define l where "l = (n - ?j) mod 8"
    let ?mem3 = "if l > 0 then mem2[idx2 := WritePartialByte (HighestByte (push_bit (64 - n + m2) val)) l (mem2 ! idx2) 0] else mem2"
    have "l \<le> 8" "m2 + l = n" using i2(2) by (simp_all add: l_def less_imp_le)
    then have "wrote_bits ?mem ?mem3 ?p val n n"
      using w2 i2(1) wrote_bits_step [OF w2, of idx2 0 l] off(3) assms(3) by auto
    moreover have "push_bit ?j (push_bit (64 - n) val) = push_bit (64 - n + ?j) val"
      by (simp add: push_bit_push_bit add.commute)
    then have "WriteBits val n b = Some (ConsumeBits n (b\<lparr>bb_bytes := ?mem3\<rparr>))"
      using False assms l l_def by (simp add: WriteBits_def Let_def)
    ultimately show ?thesis by (intro fin)
  qed
qed

section \<open>The interface of a bit codec\<close>

text \<open>
  A codec writes a value as a fixed bit string \<open>code v\<close> and reads it back from any position of a
  stream that holds this bit string there. Several values written in a row are read back in order.
\<close>

definition has_code :: "bytes \<Rightarrow> nat \<Rightarrow> bool list \<Rightarrow> bool" where
  "has_code mem p bs \<longleftrightarrow> p + length bs \<le> 8 * length mem \<and> (\<forall>i < length bs. stream_bit mem (p + i) = bs ! i)"

definition same_outside :: "bytes \<Rightarrow> bytes \<Rightarrow> nat \<Rightarrow> nat \<Rightarrow> bool" where
  "same_outside mem mem' p q \<longleftrightarrow> length mem' = length mem \<and>
     (\<forall>k < 8 * length mem. k < p \<or> q \<le> k \<longrightarrow> stream_bit mem' k = stream_bit mem k)"

lemma has_code_preserved:
  assumes "has_code mem p bs" "same_outside mem mem' q r" "p + length bs \<le> q"
  shows "has_code mem' p bs"
  using assms by (simp add: has_code_def same_outside_def)

lemma has_code_append: "has_code mem p (xs @ ys) \<longleftrightarrow> has_code mem p xs \<and> has_code mem (p + length xs) ys"
proof
  assume h: "has_code mem p (xs @ ys)"
  have "stream_bit mem (p + length xs + i) = ys ! i" if "i < length ys" for i
    using h that by (auto simp: has_code_def nth_append add.assoc dest: spec [of _ "length xs + i"])
  with h show "has_code mem p xs \<and> has_code mem (p + length xs) ys"
    by (auto simp: has_code_def nth_append)
next
  assume h: "has_code mem p xs \<and> has_code mem (p + length xs) ys"
  have "stream_bit mem (p + i) = (xs @ ys) ! i" if "i < length (xs @ ys)" for i
  proof (cases "i < length xs")
    case False
    have "i - length xs < length ys" using that False by simp
    with h have "stream_bit mem (p + length xs + (i - length xs)) = ys ! (i - length xs)"
      unfolding has_code_def by blast
    with False show ?thesis by (simp add: nth_append)
  qed (use h in \<open>simp add: has_code_def nth_append\<close>)
  with h show "has_code mem p (xs @ ys)" by (simp add: has_code_def)
qed

text \<open>A list of values written, and a number of values read, one after the other.\<close>

primrec write_all :: "('v \<Rightarrow> BitBuffer \<Rightarrow> (bool \<times> BitBuffer) option) \<Rightarrow> 'v list \<Rightarrow> BitBuffer \<Rightarrow> (bool \<times> BitBuffer) option" where
  "write_all wr [] b = Some (True, b)"
| "write_all wr (v # vs) b = (case wr v b of Some (True, b') \<Rightarrow> write_all wr vs b' | r \<Rightarrow> r)"

primrec read_all :: "(BitBuffer \<Rightarrow> ('v option \<times> BitBuffer) option) \<Rightarrow> nat \<Rightarrow> BitBuffer \<Rightarrow> ('v list option \<times> BitBuffer) option" where
  "read_all rd 0 b = Some (Some [], b)"
| "read_all rd (Suc n) b =
     (case rd b of
        Some (Some v, b') \<Rightarrow>
          (case read_all rd n b' of Some (Some vs, b'') \<Rightarrow> Some (Some (v # vs), b'') | r \<Rightarrow> r)
      | Some (None, b') \<Rightarrow> Some (None, b')
      | None \<Rightarrow> None)"

locale bit_codec =
  fixes wr :: "'v \<Rightarrow> BitBuffer \<Rightarrow> (bool \<times> BitBuffer) option"
    and rd :: "BitBuffer \<Rightarrow> ('v option \<times> BitBuffer) option"
    and code :: "'v \<Rightarrow> bool list"
    and valid :: "'v \<Rightarrow> bool"
  assumes wr_code: "bits_ok b \<Longrightarrow> valid v \<Longrightarrow> length (code v) \<le> RemainingBitCount b \<Longrightarrow>
      \<exists>b'. wr v b = Some (True, b') \<and> bits_ok b' \<and> bit_pos b' = bit_pos b + length (code v) \<and>
        same_outside (bb_bytes b) (bb_bytes b') (bit_pos b) (bit_pos b') \<and> has_code (bb_bytes b') (bit_pos b) (code v)"
    and rd_code: "bits_ok b \<Longrightarrow> valid v \<Longrightarrow> has_code (bb_bytes b) (bit_pos b) (code v) \<Longrightarrow>
      \<exists>b'. rd b = Some (Some v, b') \<and> bits_ok b' \<and> bb_bytes b' = bb_bytes b \<and> bit_pos b' = bit_pos b + length (code v)"
begin

lemma wr_all_code:
  assumes "bits_ok b" "\<forall>v \<in> set vs. valid v" "length (concat (map code vs)) \<le> RemainingBitCount b"
  shows "\<exists>b'. write_all wr vs b = Some (True, b') \<and> bits_ok b' \<and> bit_pos b' = bit_pos b + length (concat (map code vs)) \<and>
    same_outside (bb_bytes b) (bb_bytes b') (bit_pos b) (bit_pos b') \<and>
    has_code (bb_bytes b') (bit_pos b) (concat (map code vs))"
  using assms
proof (induction vs arbitrary: b)
  case Nil
  then show ?case by (auto simp: same_outside_def has_code_def bits_ok_def bit_pos_def)
next
  case (Cons v vs)
  from Cons.prems wr_code [of b v] obtain c where
    c: "wr v b = Some (True, c)" "bits_ok c" "bit_pos c = bit_pos b + length (code v)"
      "same_outside (bb_bytes b) (bb_bytes c) (bit_pos b) (bit_pos c)" "has_code (bb_bytes c) (bit_pos b) (code v)"
    by auto
  have "length (concat (map code vs)) \<le> RemainingBitCount c"
    using Cons.prems(1,3) c(2,3,4) by (auto simp: Remaining_pos bits_ok_def same_outside_def)
  with Cons.IH [of c] Cons.prems(2) c(2) obtain d where
    d: "write_all wr vs c = Some (True, d)" "bits_ok d" "bit_pos d = bit_pos c + length (concat (map code vs))"
      "same_outside (bb_bytes c) (bb_bytes d) (bit_pos c) (bit_pos d)"
      "has_code (bb_bytes d) (bit_pos c) (concat (map code vs))"
    by auto
  have "has_code (bb_bytes d) (bit_pos b) (code v)"
    using has_code_preserved [OF c(5) d(4)] c(3) by simp
  moreover have "same_outside (bb_bytes b) (bb_bytes d) (bit_pos b) (bit_pos d)"
    using c(3,4) d(3,4) by (auto simp: same_outside_def)
  ultimately show ?case using c d by (simp add: has_code_append)
qed

lemma rd_all_code:
  assumes "bits_ok b" "\<forall>v \<in> set vs. valid v" "has_code (bb_bytes b) (bit_pos b) (concat (map code vs))"
  shows "\<exists>b'. read_all rd (length vs) b = Some (Some vs, b') \<and> bits_ok b' \<and> bb_bytes b' = bb_bytes b \<and>
    bit_pos b' = bit_pos b + length (concat (map code vs))"
  using assms
proof (induction vs arbitrary: b)
  case (Cons v vs)
  from Cons.prems rd_code [of b v] obtain c where
    c: "rd b = Some (Some v, c)" "bits_ok c" "bb_bytes c = bb_bytes b" "bit_pos c = bit_pos b + length (code v)"
    by (auto simp: has_code_append)
  with Cons.IH [of c] Cons.prems show ?case by (auto simp: has_code_append)
qed simp

text \<open>Write from a position, seek back to it, and read: the same values come out.\<close>

lemma write_seek_read:
  assumes "bits_ok b" "\<forall>v \<in> set vs. valid v" "length (concat (map code vs)) \<le> RemainingBitCount b" "vs \<noteq> []"
    "concat (map code vs) \<noteq> []"
  shows "\<exists>b' c. write_all wr vs b = Some (True, b') \<and> Seek (byte_offset b) (bit_offset b) b' = (True, c) \<and>
    (\<exists>c'. read_all rd (length vs) c = Some (Some vs, c') \<and> bit_pos c' = bit_pos b')"
proof -
  from wr_all_code [OF assms(1-3)] obtain b' where
    b': "write_all wr vs b = Some (True, b')" "bits_ok b'" "bit_pos b' = bit_pos b + length (concat (map code vs))"
      "has_code (bb_bytes b') (bit_pos b) (concat (map code vs))" "length (bb_bytes b') = length (bb_bytes b)"
    by (auto simp: same_outside_def)
  let ?c = "b'\<lparr>byte_offset := byte_offset b, bit_offset := bit_offset b\<rparr>"
  have "0 < length (concat (map code vs))" using assms(5) by simp
  then have "byte_offset b < byte_count b'"
    using assms(1) b'(2,3,5) unfolding bits_ok_def bit_pos_def by linarith
  then have "Seek (byte_offset b) (bit_offset b) b' = (True, ?c)"
    using assms(1) by (simp add: Seek_def bits_ok_def)
  moreover have "bits_ok ?c" "bit_pos ?c = bit_pos b" "bb_bytes ?c = bb_bytes b'"
    using assms(1) b' by (auto simp: bits_ok_def bit_pos_def)
  ultimately show ?thesis
    using rd_all_code [of ?c vs] assms(2) b' by fastforce
qed

end

section \<open>The codecs\<close>

definition code_of :: "nat \<Rightarrow> u64 \<Rightarrow> bool list" where
  "code_of n v = map (\<lambda>i. bit v (n - 1 - i)) [0..<n]"

lemma length_code_of [simp]: "length (code_of n v) = n"
  by (simp add: code_of_def)

lemma WriteBits_code:
  assumes "bits_ok b" "0 < n" "n \<le> 64" "n \<le> RemainingBitCount b"
  shows "\<exists>b'. WriteBits val n b = Some (True, b') \<and> bits_ok b' \<and> bit_pos b' = bit_pos b + n \<and>
    same_outside (bb_bytes b) (bb_bytes b') (bit_pos b) (bit_pos b') \<and>
    has_code (bb_bytes b') (bit_pos b) (code_of n val)"
proof -
  from WriteBits_spec [OF assms, of val] obtain b' where
    b': "WriteBits val n b = Some (True, b')" "bits_ok b'" "bit_pos b' = bit_pos b + n"
      "wrote_bits (bb_bytes b) (bb_bytes b') (bit_pos b) val n n"
    by blast
  have len: "bit_pos b + n \<le> 8 * length (bb_bytes b)"
    using assms(1,2,4) Remaining_pos [OF assms(1)] by (auto simp: bits_ok_def)
  have "stream_bit (bb_bytes b') (bit_pos b + i) = bit val (n - 1 - i)" if "i < n" for i
    using b'(4) that len unfolding wrote_bits_def by (auto dest: spec [of _ "bit_pos b + i"])
  then have "has_code (bb_bytes b') (bit_pos b) (code_of n val)"
    using len b'(4) by (simp add: has_code_def code_of_def wrote_bits_def)
  moreover have "same_outside (bb_bytes b) (bb_bytes b') (bit_pos b) (bit_pos b')"
    using b'(3,4) by (auto simp: same_outside_def wrote_bits_def)
  ultimately show ?thesis using b' by blast
qed

lemma has_code_remaining: "bits_ok b \<Longrightarrow> has_code (bb_bytes b) (bit_pos b) bs \<Longrightarrow> length bs \<le> RemainingBitCount b"
  by (auto simp: has_code_def Remaining_pos bits_ok_def)

lemma holds_bits_code:
  assumes "holds_bits mem p n w" "has_code mem p (code_of n v)" "n \<le> 32"
  shows "w = ucast (take_bit n v)"
proof (rule bit_word_eqI)
  fix j
  assume j: "j < LENGTH(32)"
  have "stream_bit mem (p + n - 1 - j) = bit v j" if "j < n"
  proof -
    have "n - 1 - j < n" using that by simp
    then have "stream_bit mem (p + (n - 1 - j)) = code_of n v ! (n - 1 - j)"
      using assms(2) unfolding has_code_def length_code_of by blast
    with that show ?thesis by (simp add: code_of_def)
  qed
  with assms(1) j show "bit w j = bit (ucast (take_bit n v) :: u32) j"
    by (auto simp: holds_bits_def bit_simps)
qed

lemma ReadBits_code:
  assumes "bits_ok b" "0 < n" "n \<le> 32" "has_code (bb_bytes b) (bit_pos b) (code_of n v)"
  shows "\<exists>b'. ReadBits n b = Some (Some (ucast (take_bit n v)), b') \<and> bits_ok b' \<and> bb_bytes b' = bb_bytes b \<and>
    bit_pos b' = bit_pos b + n"
proof -
  have r: "n \<le> RemainingBitCount b" using has_code_remaining [OF assms(1,4)] by simp
  from ReadBits_spec [OF assms(1-3) r] obtain w where
    "ReadBits n b = Some (Some w, snd (ConsumeBits n b))" "holds_bits (bb_bytes b) (bit_pos b) n w"
    by blast
  with holds_bits_code [OF _ assms(4,3)] ConsumeBits_ok [OF assms(1) r] show ?thesis by auto
qed

lemma ucast_field:
  "(ucast (take_bit 8 (ucast (v :: u8) :: u64)) :: u32) = ucast v"
  "(ucast (take_bit 16 (ucast (w :: u16) :: u64)) :: u32) = ucast w"
  "(ucast (take_bit 32 (ucast (x :: u32) :: u64)) :: u32) = x"
  by (rule bit_word_eqI; auto simp: bit_simps dest: bit_imp_le_length)+

lemma ucast_field_le: "(ucast (v :: u8) :: u32) \<le> 0xFF" "(ucast (w :: u16) :: u32) \<le> 0xFFFF"
  using unsigned_less [of v, where 'a = nat] unsigned_less [of w, where 'a = nat]
  by (simp_all add: word_le_nat_alt unsigned_ucast_eq take_bit_nat_eq_self)

interpretation field8: bit_codec BitBufferWriter_WriteUInt8 BitBuffer_ReadUInt8 "\<lambda>v. code_of 8 (ucast v)" "\<lambda>_. True"
proof unfold_locales
  fix b :: BitBuffer and v :: u8
  assume "bits_ok b" "has_code (bb_bytes b) (bit_pos b) (code_of 8 (ucast v))"
  then show "\<exists>b'. BitBuffer_ReadUInt8 b = Some (Some v, b') \<and> bits_ok b' \<and> bb_bytes b' = bb_bytes b \<and>
      bit_pos b' = bit_pos b + length (code_of 8 (ucast v))"
    using ReadBits_code [of b 8 "ucast v"] by (auto simp: BitBuffer_ReadUInt8_def ucast_field ucast_field_le)
qed (use WriteBits_code [of _ 8] in \<open>auto simp: BitBufferWriter_WriteUInt8_def\<close>)

interpretation field16: bit_codec BitBufferWriter_WriteUInt16 BitBuffer_ReadUInt16 "\<lambda>v. code_of 16 (ucast v)" "\<lambda>_. True"
proof unfold_locales
  fix b :: BitBuffer and v :: u16
  assume "bits_ok b" "has_code (bb_bytes b) (bit_pos b) (code_of 16 (ucast v))"
  moreover have "(ucast (ucast v :: u32) :: u16) = v" by (rule bit_word_eqI) (simp add: bit_simps)
  ultimately show "\<exists>b'. BitBuffer_ReadUInt16 b = Some (Some v, b') \<and> bits_ok b' \<and> bb_bytes b' = bb_bytes b \<and>
      bit_pos b' = bit_pos b + length (code_of 16 (ucast v))"
    using ReadBits_code [of b 16 "ucast v"] by (auto simp: BitBuffer_ReadUInt16_def ucast_field ucast_field_le)
qed (use WriteBits_code [of _ 16] in \<open>auto simp: BitBufferWriter_WriteUInt16_def\<close>)

interpretation field32: bit_codec BitBufferWriter_WriteUInt32 BitBuffer_ReadUInt32 "\<lambda>v. code_of 32 (ucast v)" "\<lambda>_. True"
proof unfold_locales
  fix b :: BitBuffer and v :: u32
  assume "bits_ok b" "has_code (bb_bytes b) (bit_pos b) (code_of 32 (ucast v))"
  then show "\<exists>b'. BitBuffer_ReadUInt32 b = Some (Some v, b') \<and> bits_ok b' \<and> bb_bytes b' = bb_bytes b \<and>
      bit_pos b' = bit_pos b + length (code_of 32 (ucast v))"
    using ReadBits_code [of b 32 "ucast v"] by (auto simp: BitBuffer_ReadUInt32_def ucast_field)
qed (use WriteBits_code [of _ 32] in \<open>auto simp: BitBufferWriter_WriteUInt32_def\<close>)

subsection \<open>Counting bits\<close>

lemma CountBits_bounds: "v \<noteq> 0 \<Longrightarrow> 2 ^ (CountBits v - 1) \<le> unat v \<and> unat v < 2 ^ CountBits v \<and> 0 < CountBits v"
proof (induction v rule: CountBits.induct)
  case (1 v)
  have u: "unat (drop_bit 1 v) = unat v div 2" unfolding unat_drop_bit_eq by (simp add: drop_bit_eq_div)
  show ?case
  proof (cases "drop_bit 1 v = 0")
    case True
    then have "unat v div 2 = 0" using u by simp
    moreover have "CountBits v = 1" using "1.prems" True by (simp add: CountBits.simps [of v] CountBits.simps [of 0])
    moreover have "0 < unat v" using "1.prems" by (simp add: unat_gt_0)
    ultimately show ?thesis by (auto simp: div_eq_0_iff)
  next
    case False
    define c where "c = CountBits (drop_bit 1 v)"
    have c: "2 ^ (c - 1) \<le> unat v div 2" "unat v div 2 < 2 ^ c" "0 < c"
      using "1.IH" [OF "1.prems" False] unfolding c_def u [symmetric] by blast+
    have "CountBits v = Suc c" using "1.prems" by (simp add: CountBits.simps [of v] c_def)
    moreover have "(2 :: nat) ^ c = 2 * 2 ^ (c - 1)" using c(3) by (cases c) simp_all
    ultimately show ?thesis using c by auto
  qed
qed

lemma CountBits_le: "unat v < 2 ^ n \<Longrightarrow> CountBits v \<le> n"
proof (rule ccontr)
  assume v: "unat v < 2 ^ n" "\<not> CountBits v \<le> n"
  then have "v \<noteq> 0" by (auto simp: CountBits.simps [of 0])
  then have "2 ^ (CountBits v - 1) \<le> unat v" using CountBits_bounds by blast
  moreover have "(2 :: nat) ^ n \<le> 2 ^ (CountBits v - 1)" using v(2) by (intro power_increasing) simp_all
  ultimately show False using v(1) by linarith
qed

lemma bit_iff_unat: "bit (v :: 'a::len word) n \<longleftrightarrow> odd (unat v div 2 ^ n)"
proof -
  have "bit v n \<longleftrightarrow> bit (unat v) n" by (simp add: bit_unsigned_iff)
  also have "\<dots> \<longleftrightarrow> odd (unat v div 2 ^ n)" by (rule bit_iff_odd)
  finally show ?thesis .
qed

lemma CountBits_bits:
  assumes "v \<noteq> 0"
  shows "bit v (CountBits v - 1)" "CountBits v \<le> n \<Longrightarrow> \<not> bit v n"
proof -
  define c where "c = CountBits v - 1"
  have b: "2 ^ c \<le> unat v" "unat v < 2 ^ Suc c" "CountBits v = Suc c"
    using CountBits_bounds [OF assms] by (auto simp: c_def)
  have "unat v div 2 ^ c = 1"
    using b(1,2) by (intro div_nat_eqI) simp_all
  then show "bit v (CountBits v - 1)" by (simp add: bit_iff_unat b(3))
  assume "CountBits v \<le> n"
  then have "(2 :: nat) ^ Suc c \<le> 2 ^ n" using b(3) by (intro power_increasing) simp_all
  then show "\<not> bit v n" using b(2) by (simp add: bit_iff_unat)
qed

subsection \<open>Exponential Golomb codes\<close>

text \<open>The bit string of \<open>val\<close>: \<open>val + 1\<close> in twice its bit count minus one bits.\<close>

definition golomb_code :: "u32 \<Rightarrow> bool list" where
  "golomb_code val = (let x = ucast val + 1 in code_of (CountBits x * 2 - 1) x)"

lemma PeekBits_1:
  assumes "bits_ok b" "1 \<le> RemainingBitCount b"
  shows "PeekBits 1 b = Some (Some (of_bool (stream_bit (bb_bytes b) (bit_pos b))))"
proof -
  from PeekBits_spec [OF assms(1) _ _ assms(2)] obtain v where
    v: "PeekBits 1 b = Some (Some v)" "holds_bits (bb_bytes b) (bit_pos b) 1 v" by auto
  moreover have "bit v j \<longleftrightarrow> stream_bit (bb_bytes b) (bit_pos b) \<and> j = 0" for j
    using v(2) unfolding holds_bits_def by (cases "j = 0") (simp_all del: bit_0)
  then have "v = of_bool (stream_bit (bb_bytes b) (bit_pos b))"
    by (intro bit_word_eqI) (auto simp only: bit_of_bool_iff)
  ultimately show ?thesis by simp
qed

lemma golomb_zeros_spec:
  assumes "bits_ok b" "has_code (bb_bytes b) (bit_pos b) (replicate z False @ [True])"
  shows "\<exists>b'. golomb_zeros acc b = (acc + z, b') \<and> bits_ok b' \<and> bb_bytes b' = bb_bytes b \<and> bit_pos b' = bit_pos b + z \<and>
    byte_count b' = byte_count b"
  using assms
proof (induction z arbitrary: acc b)
  case 0
  then have "PeekBits 1 b = Some (Some 1)"
    using PeekBits_1 [of b] has_code_remaining [of b "[True]"] by (simp add: has_code_def)
  with 0 show ?case by (subst golomb_zeros.simps) simp
next
  case (Suc z)
  have r: "1 \<le> RemainingBitCount b" using has_code_remaining [OF Suc.prems] by simp
  have split: "has_code (bb_bytes b) (bit_pos b) ([False] @ (replicate z False @ [True]))"
    using Suc.prems(2) by simp
  then have "\<not> stream_bit (bb_bytes b) (bit_pos b)"
    unfolding has_code_append by (simp add: has_code_def)
  then have p: "PeekBits 1 b = Some (Some 0)" using PeekBits_1 [OF Suc.prems(1) r] by simp
  let ?c = "snd (ConsumeBits 1 b)"
  have c: "bits_ok ?c" "bit_pos ?c = bit_pos b + 1" "bb_bytes ?c = bb_bytes b"
    using ConsumeBits_ok [OF Suc.prems(1) r] by simp_all
  moreover have "byte_count ?c = byte_count b" using r by (simp add: ConsumeBits_eq)
  moreover have "has_code (bb_bytes ?c) (bit_pos ?c) (replicate z False @ [True])"
    using split c unfolding has_code_append [of _ _ "[False]"] by simp
  ultimately show ?case
    using Suc.IH [of ?c "acc + 1"] p by (subst golomb_zeros.simps) simp
qed

lemma code_of_zeros: "(\<And>n. c \<le> n \<Longrightarrow> \<not> bit x n) \<Longrightarrow> code_of (a + c) x = replicate a False @ code_of c x"
  by (intro nth_equalityI) (auto simp: code_of_def nth_append add.commute)

lemma golomb_code_split:
  assumes "val \<noteq> 0xFFFFFFFF"
  defines "x \<equiv> ucast val + 1 :: u64"
  shows "golomb_code val = replicate (CountBits x - 1) False @ code_of (CountBits x) x"
    and "\<exists>bs. golomb_code val = (replicate (CountBits x - 1) False @ [True]) @ bs"
    and "0 < CountBits x" "CountBits x \<le> 32" "ucast (take_bit (CountBits x) x) = val + 1"
proof -
  let ?c = "CountBits x"
  have "unat val \<noteq> 2 ^ 32 - 1" using assms(1) by (simp add: word_unat_eq_iff)
  moreover have "unat val < 2 ^ 32" using unsigned_less [of val, where 'a = nat] by simp
  ultimately have v: "unat val + 1 < 2 ^ 32" by simp
  have u: "unat x = unat val + 1"
    using v by (simp add: x_def unat_word_ariths unsigned_ucast_eq take_bit_nat_eq_self)
  then have nz: "x \<noteq> 0" by auto
  show pos: "0 < ?c" using CountBits_bounds [OF nz] by simp
  show "?c \<le> 32" using CountBits_le [of x 32] u v by simp
  show split: "golomb_code val = replicate (?c - 1) False @ code_of ?c x"
    using code_of_zeros [of ?c x "?c - 1"] CountBits_bits(2) [OF nz] pos
    by (simp add: golomb_code_def x_def [symmetric] Let_def mult_2_right)
  have "code_of ?c x = True # drop 1 (code_of ?c x)"
    using CountBits_bits(1) [OF nz] pos by (intro nth_equalityI) (auto simp: code_of_def nth_Cons split: nat.split)
  then show "\<exists>bs. golomb_code val = (replicate (?c - 1) False @ [True]) @ bs"
    unfolding split by (metis append_Cons append_Nil append_assoc)
  have "take_bit ?c x = x"
    using CountBits_bounds [OF nz] by (simp add: word_unat_eq_iff unsigned_take_bit_eq take_bit_nat_eq_self)
  moreover have "ucast x = val + 1"
    using u v by (simp add: word_unat_eq_iff unsigned_ucast_eq take_bit_nat_eq_self unat_word_ariths)
  ultimately show "ucast (take_bit ?c x) = val + 1" by simp
qed

lemma ReadExponentialGolomb_code:
  assumes "bits_ok b" "val \<noteq> 0xFFFFFFFF" "has_code (bb_bytes b) (bit_pos b) (golomb_code val)"
  shows "\<exists>b'. ReadExponentialGolomb debug b = Some (Some val, b') \<and> bits_ok b' \<and> bb_bytes b' = bb_bytes b \<and>
    bit_pos b' = bit_pos b + length (golomb_code val)"
proof -
  define x where "x = (ucast val + 1 :: u64)"
  let ?c = "CountBits x"
  note g = golomb_code_split [OF assms(2), folded x_def]
  have z: "has_code (bb_bytes b) (bit_pos b) (replicate (?c - 1) False @ [True])"
    using g(2) assms(3) has_code_append by metis
  from golomb_zeros_spec [OF assms(1) z, of 0] obtain b1 where
    b1: "golomb_zeros 0 b = (?c - 1, b1)" "bits_ok b1" "bb_bytes b1 = bb_bytes b" "bit_pos b1 = bit_pos b + (?c - 1)"
    by auto
  have h: "has_code (bb_bytes b1) (bit_pos b1) (code_of ?c x)"
    using assms(3) b1(3,4) by (simp add: g(1) has_code_append)
  have "PeekBits 1 b1 = Some (Some 1)"
    using z b1 PeekBits_1 [OF b1(2)] has_code_remaining [OF b1(2), of "[True]"]
    by (simp add: has_code_append) (simp add: has_code_def)
  moreover from ReadBits_code [OF b1(2) g(3,4) h] obtain b' where
    "ReadBits ?c b1 = Some (Some (val + 1), b')" "bits_ok b'" "bb_bytes b' = bb_bytes b1" "bit_pos b' = bit_pos b1 + ?c"
    using g(5) by auto
  moreover have "?c - 1 + 1 = ?c" "\<not> ?c > 32" using g(3,4) by simp_all
  ultimately show ?thesis
    using b1 g(1,3) by (simp add: ReadExponentialGolomb_def)
qed

interpretation golomb: bit_codec WriteExponentialGolomb "ReadExponentialGolomb debug" golomb_code "\<lambda>v. v \<noteq> 0xFFFFFFFF" for debug
proof unfold_locales
  fix b v
  assume b: "bits_ok b" "v \<noteq> (0xFFFFFFFF :: u32)" "length (golomb_code v) \<le> RemainingBitCount b"
  define x where "x = (ucast v + 1 :: u64)"
  have "0 < CountBits x" "CountBits x \<le> 32"
    using golomb_code_split(3,4) [OF b(2)] by (simp_all add: x_def)
  moreover have "golomb_code v = code_of (CountBits x * 2 - 1) x"
    by (simp add: golomb_code_def x_def Let_def)
  ultimately show "\<exists>b'. WriteExponentialGolomb v b = Some (True, b') \<and> bits_ok b' \<and> bit_pos b' = bit_pos b + length (golomb_code v) \<and>
      same_outside (bb_bytes b) (bb_bytes b') (bit_pos b) (bit_pos b') \<and> has_code (bb_bytes b') (bit_pos b) (golomb_code v)"
    using b WriteBits_code [of b "CountBits x * 2 - 1" x]
    by (simp add: WriteExponentialGolomb_def x_def [symmetric] Let_def)
qed (rule ReadExponentialGolomb_code)

text \<open>A failed read in a debug build restores the position, and no assertion of the read fails.\<close>

lemma offsets_self: "\<exists>i j. b = b\<lparr>byte_offset := i, bit_offset := j\<rparr>"
  by (rule exI [of _ "byte_offset b"], rule exI [of _ "bit_offset b"]) simp

lemma ConsumeBits_only_offsets: "\<exists>i j. snd (ConsumeBits n b) = b\<lparr>byte_offset := i, bit_offset := j\<rparr>"
  using offsets_self [of b] by (cases "n > RemainingBitCount b") (auto simp: ConsumeBits_def)

lemma golomb_zeros_only_offsets:
  "\<exists>i j. snd (golomb_zeros z b) = b\<lparr>byte_offset := i, bit_offset := j\<rparr>"
proof (induction z b rule: golomb_zeros.induct)
  case (1 z b)
  show ?case
  proof (cases "PeekBits 1 b = Some (Some 0)")
    case True
    obtain i j where "snd (ConsumeBits 1 b) = b\<lparr>byte_offset := i, bit_offset := j\<rparr>"
      using ConsumeBits_only_offsets by blast
    with "1.IH" [OF True] True show ?thesis by (subst golomb_zeros.simps) auto
  next
    case False
    then show ?thesis
      using offsets_self [of b] by (subst golomb_zeros.simps) simp
  qed
qed

lemma golomb_zeros_stops: "PeekBits 1 (snd (golomb_zeros z b)) \<noteq> Some (Some 0)"
proof (induction z b rule: golomb_zeros.induct)
  case (1 z b)
  then show ?case by (cases "PeekBits 1 b = Some (Some 0)") (simp_all add: golomb_zeros.simps [of z b])
qed

lemma bits_ok_golomb_zeros: "bits_ok b \<Longrightarrow> bits_ok (snd (golomb_zeros z b))"
proof (induction z b rule: golomb_zeros.induct)
  case (1 z b)
  then show ?case
    using ConsumeBits_ok(1) [of b 1] PeekBits_Some_le [of 1 b 0]
    by (cases "PeekBits 1 b = Some (Some 0)") (simp_all add: golomb_zeros.simps [of z b])
qed

lemma PeekBits_1_cases:
  assumes "bits_ok b"
  shows "PeekBits 1 b = Some None \<or> PeekBits 1 b = Some (Some 0) \<or> PeekBits 1 b = Some (Some 1)"
  using PeekBits_1 [OF assms] by (cases "1 \<le> RemainingBitCount b") (auto simp: PeekBits_def of_bool_def)

lemma ReadBits_fail:
  assumes "bits_ok b" "0 < n" "n \<le> 32" "\<not> n \<le> RemainingBitCount b"
  shows "ReadBits n b = Some (None, b)"
  using assms by (simp add: ReadBits_def PeekBits_def)

lemma ReadExponentialGolomb_total:
  assumes "bits_ok b"
  shows "\<exists>r b'. ReadExponentialGolomb True b = Some (r, b') \<and> (r = None \<longrightarrow> b' = b)"
proof -
  obtain z b1 where zb: "golomb_zeros 0 b = (z, b1)" by (cases "golomb_zeros 0 b")
  have ok1: "bits_ok b1" using bits_ok_golomb_zeros [OF assms, of 0] zb by simp
  have pk: "PeekBits 1 b1 = Some None \<or> PeekBits 1 b1 = Some (Some 1)"
    using PeekBits_1_cases [OF ok1] golomb_zeros_stops [of 0 b] zb by auto
  obtain i j where b1: "b1 = b\<lparr>byte_offset := i, bit_offset := j\<rparr>"
    using golomb_zeros_only_offsets [of 0 b] zb by auto
  have seek: "Seek (byte_offset b) (bit_offset b) b1 = (True, b)"
    using assms by (auto simp: Seek_def b1 bits_ok_def)
  show ?thesis
  proof (cases "z + 1 \<le> 32")
    case True
    show ?thesis
    proof (cases "z + 1 \<le> RemainingBitCount b1")
      case fits: True
      from ReadBits_spec [OF ok1 _ True fits] show ?thesis
        using zb pk True by (auto simp: ReadExponentialGolomb_def Let_def)
    next
      case False
      from ReadBits_fail [OF ok1 _ True False] show ?thesis
        using zb pk True seek by (auto simp: ReadExponentialGolomb_def Let_def)
    qed
  next
    case False
    then show ?thesis using zb pk seek by (auto simp: ReadExponentialGolomb_def Let_def)
  qed
qed

text \<open>Signed codes: the values 0, 1, -1, 2, -2, \<dots> are numbered 0, 1, 2, 3, 4, \<dots>.\<close>

definition signed_index :: "32 word \<Rightarrow> u32" where
  "signed_index val = (if val = 0 then 0 else if 0 <s val then val * 2 - 1 else (- val) * 2)"

lemma WriteSigned_index:
  "sint val \<noteq> - (2 ^ 31) \<Longrightarrow> WriteSignedExponentialGolomb val b = WriteExponentialGolomb (signed_index val) b"
  by (simp add: WriteSignedExponentialGolomb_def signed_index_def)

lemma and_1_odd: "(u :: u32) AND 1 = 0 \<longleftrightarrow> even (unat u)"
  using bit_iff_unat [of u 0] by (simp add: and_one_eq bit_0 flip: even_iff_mod_2_eq_zero)

lemma signed_index_inverse:
  assumes "sint (val :: 32 word) \<noteq> - (2 ^ 31)"
  defines "u \<equiv> signed_index val"
  shows "u \<noteq> 0xFFFFFFFF" "(if u AND 1 = 0 then - (u div 2) else (u + 1) div 2) = val"
proof -
  have rng: "- (2 ^ 31) < sint val" "sint val < 2 ^ 31"
    using sint_ge [of val] sint_lt [of val] assms(1) by simp_all
  have "u \<noteq> 0xFFFFFFFF \<and> (if u AND 1 = 0 then - (u div 2) else (u + 1) div 2) = val"
  proof (cases "0 <s val")
    case True
    then have n: "0 < sint val" by (simp add: word_sless_alt)
    define k where "k = nat (sint val)"
    have k: "0 < k" "k < 2 ^ 31" "val = of_nat k" using n rng by (auto simp: k_def)
    then have "val \<noteq> 0" using n by auto
    have "u = of_nat (2 * k - 1)"
      using True \<open>val \<noteq> 0\<close> k by (simp add: u_def signed_index_def of_nat_diff)
    then have uu: "unat u = 2 * k - 1" using k(2) by (simp only: unat_of_nat) (simp add: take_bit_nat_eq_self)
    have "unat ((u + 1) div 2) = k"
      using uu k by (simp add: unat_div_distrib unat_word_ariths)
    then have "(u + 1) div 2 = val" using k by (simp add: word_unat_eq_iff unat_of_nat take_bit_nat_eq_self)
    moreover have "odd (unat u)" using uu k(1) by simp
    moreover have "u \<noteq> 0xFFFFFFFF" using uu k(2) by (auto simp: word_unat_eq_iff)
    ultimately show ?thesis by (simp add: and_1_odd)
  next
    case False
    then have n: "sint val \<le> 0" by (simp add: word_sless_alt)
    define k where "k = nat (- sint val)"
    have k: "k < 2 ^ 31" "val = - of_nat k" using n rng by (auto simp: k_def)
    have "u = of_nat (2 * k)"
      using False k(2) by (auto simp: u_def signed_index_def)
    then have uu: "unat u = 2 * k" using k(1) by (simp only: unat_of_nat) (simp add: take_bit_nat_eq_self)
    have "unat (u div 2) = k" using uu by (simp add: unat_div_distrib)
    then have "u div 2 = of_nat k" using k(1) by (simp add: word_unat_eq_iff unat_of_nat take_bit_nat_eq_self)
    moreover have "even (unat u)" using uu by simp
    moreover have "2 * k \<noteq> 4294967295" by presburger
    then have "u \<noteq> 0xFFFFFFFF" using uu by (auto simp: word_unat_eq_iff)
    ultimately show ?thesis using k(2) by (simp add: and_1_odd)
  qed
  then show "u \<noteq> 0xFFFFFFFF" "(if u AND 1 = 0 then - (u div 2) else (u + 1) div 2) = val" by simp_all
qed

interpretation signed_golomb: bit_codec WriteSignedExponentialGolomb "ReadSignedExponentialGolomb debug"
  "\<lambda>v. golomb_code (signed_index v)" "\<lambda>v. sint v \<noteq> - (2 ^ 31)" for debug
proof unfold_locales
  fix b and v :: "32 word" and debug
  assume b: "bits_ok b" "sint v \<noteq> - (2 ^ 31)"
  note i = signed_index_inverse [OF b(2)]
  show "\<exists>b'. WriteSignedExponentialGolomb v b = Some (True, b') \<and> bits_ok b' \<and>
      bit_pos b' = bit_pos b + length (golomb_code (signed_index v)) \<and>
      same_outside (bb_bytes b) (bb_bytes b') (bit_pos b) (bit_pos b') \<and>
      has_code (bb_bytes b') (bit_pos b) (golomb_code (signed_index v))"
    if "length (golomb_code (signed_index v)) \<le> RemainingBitCount b"
    using golomb.wr_code [OF b(1) i(1) that] by (simp add: WriteSigned_index [OF b(2)])
  show "\<exists>b'. ReadSignedExponentialGolomb debug b = Some (Some v, b') \<and> bits_ok b' \<and> bb_bytes b' = bb_bytes b \<and>
      bit_pos b' = bit_pos b + length (golomb_code (signed_index v))"
    if "has_code (bb_bytes b) (bit_pos b) (golomb_code (signed_index v))"
    using golomb.rd_code [OF b(1) i(1) that, of debug] i(2) by (auto simp: ReadSignedExponentialGolomb_def)
qed

subsection \<open>Non-symmetric values\<close>

definition nonsym_code :: "u32 \<Rightarrow> u32 \<Rightarrow> bool list" where
  "nonsym_code num val =
     (let n = CountBits (ucast num); k = push_bit n 1 - num
      in if val < k then code_of (n - 1) (ucast val) else code_of n (ucast (val + k)))"

lemma nonsym_numbers:
  fixes num :: u32
  assumes "1 < unat num" "unat num < 2 ^ 31"
  defines "n \<equiv> CountBits (ucast num)"
  defines "k \<equiv> push_bit n 1 - num"
  shows "2 \<le> n" "n \<le> 31" "unat k = 2 ^ n - unat num" "2 ^ (n - 1) \<le> unat num" "unat num < 2 ^ n"
proof -
  have u: "unat (ucast num :: u64) = unat num"
    using assms(2) by (simp add: unsigned_ucast_eq take_bit_nat_eq_self)
  then have nz: "(ucast num :: u64) \<noteq> 0" using assms(1) by (metis not_less_zero unsigned_0)
  show b: "2 ^ (n - 1) \<le> unat num" "unat num < 2 ^ n"
    using CountBits_bounds [OF nz] by (simp_all add: u n_def)
  show n31: "n \<le> 31" using CountBits_le [of "ucast num" 31] u assms(2) by (simp add: n_def)
  show "2 \<le> n"
  proof (rule ccontr)
    assume "\<not> 2 \<le> n"
    then have "n = 0 \<or> n = 1" by auto
    then show False using b(2) assms(1) by auto
  qed
  have "(2 :: nat) ^ n < 2 ^ 32" using n31 by (intro power_strict_increasing) simp_all
  moreover have "(push_bit n 1 :: u32) = of_nat (2 ^ n)" by (simp add: push_bit_of_1)
  then have "k = of_nat (2 ^ n - unat num)" using b(2) by (simp add: k_def of_nat_diff)
  ultimately show "unat k = 2 ^ n - unat num"
    by (simp only: unat_of_nat) (simp add: take_bit_nat_eq_self)
qed

lemma nonsym_large_sum:
  fixes num :: u32
  assumes "1 < unat num" "unat num < 2 ^ 31" "val < num"
  defines "n \<equiv> CountBits (ucast num)"
  defines "k \<equiv> push_bit n 1 - num"
  shows "unat (val + k) = unat val + unat k" "unat val + unat k < 2 ^ n"
proof -
  note nn = nonsym_numbers [OF assms(1,2), folded n_def, folded k_def]
  have "unat val < unat num" using assms(3) by (simp add: word_less_nat_alt)
  then show s: "unat val + unat k < 2 ^ n" using nn by linarith
  have "(2 :: nat) ^ n \<le> 2 ^ 32" using nn(2) by (intro power_increasing) simp_all
  with s have "unat val + unat k < 2 ^ 32" by linarith
  then show "unat (val + k) = unat val + unat k" by (simp add: unat_word_ariths)
qed

lemma code_of_last: "0 < n \<Longrightarrow> code_of n v = code_of (n - 1) (drop_bit 1 v) @ code_of 1 v"
proof (rule nth_equalityI)
  fix i
  assume n: "0 < n" "i < length (code_of n v)"
  then have "i = n - 1 \<or> Suc (n - 1 - 1 - i) = n - 1 - i" by auto
  then show "code_of n v ! i = (code_of (n - 1) (drop_bit 1 v) @ code_of 1 v) ! i"
    using n by (auto simp: code_of_def nth_append bit_drop_bit_eq)
qed simp

lemma word_of_halves: "push_bit 1 (of_nat (m div 2) :: u32) + of_nat (m mod 2) = of_nat m"
proof -
  have "push_bit 1 (of_nat (m div 2) :: u32) = of_nat (2 * (m div 2))" by (simp add: push_bit_eq_mult)
  then show ?thesis by (metis mult_div_mod_eq of_nat_add)
qed

lemma WriteNonSymmetric_code:
  assumes "bits_ok b" "1 < unat num" "unat num < 2 ^ 31" "val < num" "length (nonsym_code num val) \<le> RemainingBitCount b"
  shows "\<exists>b'. WriteNonSymmetric val num b = Some (True, b') \<and> bits_ok b' \<and>
    bit_pos b' = bit_pos b + length (nonsym_code num val) \<and> has_code (bb_bytes b') (bit_pos b) (nonsym_code num val)"
proof -
  define n where "n = CountBits (ucast num)"
  note nn = nonsym_numbers [OF assms(2,3), folded n_def]
  have "num \<noteq> 1" "num \<le> push_bit 31 1" using assms(2,3) by (auto simp: word_le_nat_alt)
  moreover have "0 < n - 1" "n - 1 \<le> 64" "0 < n" "n \<le> 64" using nn(1,2) by linarith+
  ultimately show ?thesis
    using assms nn(1,2) WriteBits_code [OF assms(1), of "n - 1" "ucast val"]
      WriteBits_code [OF assms(1), of n "ucast (val + (push_bit n 1 - num))"]
    by (auto simp: WriteNonSymmetric_def nonsym_code_def n_def [symmetric] Let_def)
qed

lemma ReadNonSymmetric_code:
  assumes "bits_ok b" "1 < unat num" "unat num < 2 ^ 31" "val < num" "has_code (bb_bytes b) (bit_pos b) (nonsym_code num val)"
  shows "\<exists>b'. ReadNonSymmetric num b = Some (Some val, b') \<and> bits_ok b' \<and> bb_bytes b' = bb_bytes b \<and>
    bit_pos b' = bit_pos b + length (nonsym_code num val)"
proof -
  define n where "n = CountBits (ucast num)"
  define k where "k = push_bit n 1 - num"
  note nn = nonsym_numbers [OF assms(2,3), folded n_def, folded k_def]
  have g: "0 < num" "num \<le> push_bit 31 1" "num \<noteq> 1" "\<not> n \<ge> 32" using assms(2,3) nn(2)
    by (auto simp: word_le_nat_alt word_less_nat_alt)
  have pow: "(2 :: nat) ^ n = 2 * 2 ^ (n - 1)" using nn(1) by (cases n) simp_all
  have n: "0 < n - 1" "n - 1 \<le> 32" using nn(1,2) by simp_all
  show ?thesis
  proof (cases "val < k")
    case True
    then have "unat val < 2 ^ (n - 1)" using nn(3,4) pow unfolding word_less_nat_alt by linarith
    then have "(ucast (take_bit (n - 1) (ucast val :: u64)) :: u32) = val"
      using nn(2) by (simp add: word_unat_eq_iff unsigned_ucast_eq unsigned_take_bit_eq take_bit_nat_eq_self)
    moreover have "nonsym_code num val = code_of (n - 1) (ucast val)"
      unfolding nonsym_code_def n_def [symmetric] Let_def k_def [symmetric] using True by simp
    ultimately show ?thesis
      unfolding ReadNonSymmetric_def n_def [symmetric] Let_def k_def [symmetric]
      using ReadBits_code [OF assms(1) n, of "ucast val"] assms(5) g True by auto
  next
    case False
    define w where "w = (ucast (val + k) :: u64)"
    define s where "s = unat val + unat k"
    have s: "unat (val + k) = s" "s < 2 ^ n" using nonsym_large_sum [OF assms(2-4)] by (simp_all add: s_def n_def k_def)
    have uw: "unat w = s" using s(1) unsigned_less [of "val + k", where 'a = nat]
      by (simp add: w_def unsigned_ucast_eq take_bit_nat_eq_self)
    have "s div 2 < 2 ^ (n - 1)" using s(2) pow by simp
    moreover have "s div 2 < 2 ^ 32" using s(1) unsigned_less [of "val + k", where 'a = nat] by simp
    moreover define w2 where "w2 = drop_bit 1 w"
    moreover have w2: "unat w2 = s div 2" unfolding w2_def unat_drop_bit_eq uw by (simp add: drop_bit_eq_div)
    ultimately have hi: "(ucast (take_bit (n - 1) (drop_bit 1 w)) :: u32) = of_nat (s div 2)"
      unfolding w2_def [symmetric]
      using n(2) by (simp add: word_unat_eq_iff unsigned_ucast_eq unsigned_take_bit_eq take_bit_nat_eq_self unat_of_nat min_def)
    define w1 where "w1 = take_bit 1 w"
    have "unat w1 = s mod 2" unfolding w1_def unsigned_take_bit_eq uw by (simp add: take_bit_eq_mod)
    then have lo: "(ucast (take_bit 1 w) :: u32) = of_nat (s mod 2)"
      unfolding w1_def [symmetric] by (simp add: word_unat_eq_iff unsigned_ucast_eq take_bit_nat_eq_self unat_of_nat)
    have code: "nonsym_code num val = code_of (n - 1) (drop_bit 1 w) @ code_of 1 w"
      unfolding nonsym_code_def n_def [symmetric] Let_def k_def [symmetric] w_def [symmetric]
      using False nn(1) code_of_last [of n w] by simp
    have h1: "has_code (bb_bytes b) (bit_pos b) (code_of (n - 1) (drop_bit 1 w))"
      using assms(5) by (simp add: code has_code_append)
    from ReadBits_code [OF assms(1) n h1] obtain c where
      c: "ReadBits (n - 1) b = Some (Some (of_nat (s div 2)), c)" "bits_ok c" "bb_bytes c = bb_bytes b"
        "bit_pos c = bit_pos b + (n - 1)" unfolding hi by blast
    have h2: "has_code (bb_bytes c) (bit_pos c) (code_of 1 w)"
      using assms(5) c(3,4) by (simp add: code has_code_append)
    from ReadBits_code [OF c(2) _ _ h2] obtain d where
      d: "ReadBits 1 c = Some (Some (of_nat (s mod 2)), d)" "bits_ok d" "bb_bytes d = bb_bytes c" "bit_pos d = bit_pos c + 1"
      unfolding lo by auto
    have "unat (of_nat (s div 2) :: u32) = s div 2"
      using s(1) unsigned_less [of "val + k", where 'a = nat] by (simp add: unat_of_nat take_bit_nat_eq_self)
    moreover have "unat k \<le> s div 2" using False by (simp add: s_def word_less_nat_alt)
    ultimately have ge: "\<not> of_nat (s div 2) < k" by (simp add: word_less_nat_alt)
    have "of_nat s = val + k" unfolding s(1) [symmetric] by simp
    then have "push_bit 1 (of_nat (s div 2)) + of_nat (s mod 2) - k = val"
      by (simp only: word_of_halves) simp
    with c d ge g n show ?thesis
      unfolding ReadNonSymmetric_def n_def [symmetric] Let_def k_def [symmetric] code by simp
  qed
qed

section \<open>Properties\<close>

text \<open>C6. \<open>WriteBits\<close> succeeds whenever the bits fit, advances by their number, sets exactly these
  bits of the stream to the low bits of the value and leaves every other bit of the array, before
  and behind them, as it was, for every alignment and every count from 1 to 64.\<close>

theorem write_bits_exact:
  assumes "bits_ok b" "0 < n" "n \<le> 64" "n \<le> RemainingBitCount b"
  shows "\<exists>b'. WriteBits val n b = Some (True, b') \<and> bits_ok b' \<and> bit_pos b' = bit_pos b + n \<and>
    length (bb_bytes b') = length (bb_bytes b) \<and>
    (\<forall>k < 8 * length (bb_bytes b). stream_bit (bb_bytes b') k =
       (if bit_pos b \<le> k \<and> k < bit_pos b + n then bit val (bit_pos b + n - 1 - k) else stream_bit (bb_bytes b) k))"
  using WriteBits_spec [OF assms, of val] by (auto simp: wrote_bits_def)

theorem write_bits_exact_witness:
  "\<exists>b'. WriteBits 5 3 (new_BitBuffer [0, 0xFF]) = Some (True, b') \<and> bit_pos b' = 3 \<and> stream_bit (bb_bytes b') 9"
proof -
  have "bits_ok (new_BitBuffer [0, 0xFF]) \<and> (3 :: nat) \<le> RemainingBitCount (new_BitBuffer [0, 0xFF])"
    by (simp add: RemainingBitCount_def) (simp add: new_BitBuffer_def)
  moreover have "stream_bit (bb_bytes (new_BitBuffer [0, 0xFF])) 9" "bit_pos (new_BitBuffer [0, 0xFF]) = 0"
    "length (bb_bytes (new_BitBuffer [0, 0xFF])) = 2" by code_simp+
  ultimately show ?thesis using write_bits_exact [of "new_BitBuffer [0, 0xFF]" 3 5] by fastforce
qed

text \<open>C20. Any list of 32-bit values other than \<open>0xFFFFFFFF\<close> written as exponential Golomb codes is read
  back in order after seeking to where the writing began, at any bit alignment, and the reader ends
  where the writer ended.\<close>

theorem golomb_round_trip:
  assumes "bits_ok b" "\<forall>v \<in> set vs. v \<noteq> 0xFFFFFFFF" "length (concat (map golomb_code vs)) \<le> RemainingBitCount b" "vs \<noteq> []"
  shows "\<exists>b' c. write_all WriteExponentialGolomb vs b = Some (True, b') \<and>
    Seek (byte_offset b) (bit_offset b) b' = (True, c) \<and>
    (\<exists>c'. read_all (ReadExponentialGolomb debug) (length vs) c = Some (Some vs, c') \<and> bit_pos c' = bit_pos b')"
proof (rule golomb.write_seek_read [OF assms])
  obtain v ws where "vs = v # ws" "v \<noteq> 0xFFFFFFFF" using assms(2,4) by (cases vs) auto
  then show "concat (map golomb_code vs) \<noteq> []" using golomb_code_split(2) [of v] by auto
qed

theorem golomb_round_trip_witness:
  "\<exists>b' c. write_all WriteExponentialGolomb [4, 0] (new_BitBuffer [0]) = Some (True, b') \<and>
    Seek 0 0 b' = (True, c) \<and>
    (\<exists>c'. read_all (ReadExponentialGolomb True) (length [4, 0 :: u32]) c = Some (Some [4, 0], c') \<and> bit_pos c' = bit_pos b')"
proof -
  have "length (concat (map golomb_code [4, 0])) \<le> RemainingBitCount (new_BitBuffer [0])"
    "byte_offset (new_BitBuffer [0]) = 0" "bit_offset (new_BitBuffer [0]) = 0" by code_simp+
  moreover have "\<forall>v \<in> set [4, 0]. v \<noteq> (0xFFFFFFFF :: u32)" by simp
  ultimately show ?thesis
    using golomb_round_trip [of "new_BitBuffer [0]" "[4, 0]" True] by (metis bits_ok_new(1) list.distinct(1))
qed

text \<open>C36. Signed exponential Golomb codes round trip for every 32-bit integer but the smallest.\<close>

theorem signed_golomb_round_trip:
  assumes "bits_ok b" "\<forall>v \<in> set vs. sint v \<noteq> - (2 ^ 31)"
    "length (concat (map (\<lambda>v. golomb_code (signed_index v)) vs)) \<le> RemainingBitCount b" "vs \<noteq> []"
  shows "\<exists>b' c. write_all WriteSignedExponentialGolomb vs b = Some (True, b') \<and>
    Seek (byte_offset b) (bit_offset b) b' = (True, c) \<and>
    (\<exists>c'. read_all (ReadSignedExponentialGolomb debug) (length vs) c = Some (Some vs, c') \<and> bit_pos c' = bit_pos b')"
proof (rule signed_golomb.write_seek_read [OF assms])
  obtain v ws where v: "vs = v # ws" "sint v \<noteq> - (2 ^ 31)" using assms(2,4) by (cases vs) auto
  have "signed_index v \<noteq> 0xFFFFFFFF" using signed_index_inverse(1) [OF v(2)] .
  then show "concat (map (\<lambda>v. golomb_code (signed_index v)) vs) \<noteq> []"
    using golomb_code_split(2) [of "signed_index v"] v(1) by auto
qed

theorem signed_golomb_round_trip_witness:
  "\<exists>b' c. write_all WriteSignedExponentialGolomb [-1] (new_BitBuffer [0]) = Some (True, b') \<and>
    Seek 0 0 b' = (True, c) \<and>
    (\<exists>c'. read_all (ReadSignedExponentialGolomb True) 1 c = Some (Some [-1], c') \<and> bit_pos c' = bit_pos b')"
proof -
  have "length (concat (map (\<lambda>v. golomb_code (signed_index v)) [-1])) \<le> RemainingBitCount (new_BitBuffer [0])"
    "byte_offset (new_BitBuffer [0]) = 0" "bit_offset (new_BitBuffer [0]) = 0" by code_simp+
  then show ?thesis
    using signed_golomb_round_trip [of "new_BitBuffer [0]" "[-1]" True] by simp
qed

text \<open>C37. In a build with assertions, reading an exponential Golomb code never fails an assertion, and
  a read that returns false leaves the buffer, position included, as it was.\<close>

theorem golomb_failed_read_restores:
  assumes "bits_ok b"
  shows "\<exists>r b'. ReadExponentialGolomb True b = Some (r, b') \<and> (r = None \<longrightarrow> b' = b)"
  by (rule ReadExponentialGolomb_total [OF assms])

theorem golomb_failed_read_restores_witness:
  "\<exists>r b'. ReadExponentialGolomb True (new_BitBuffer [0]) = Some (r, b') \<and> (r = None \<longrightarrow> b' = new_BitBuffer [0])"
  by (rule golomb_failed_read_restores) simp

text \<open>In a build with \<open>NDEBUG\<close> the seek-back is compiled out with its assertion: on a zero byte the
  read returns false and the position stays behind the skipped zeros.\<close>

theorem golomb_failed_read_release:
  "\<exists>b'. ReadExponentialGolomb False (new_BitBuffer [0]) = Some (None, b') \<and> bit_pos b' = 8"
proof -
  have "ReadExponentialGolomb False (new_BitBuffer [0]) =
      Some (None, \<lparr>bb_bytes = [0], byte_count = 1, byte_offset = 1, bit_offset = 0\<rparr>)"
    by code_simp
  then show ?thesis by (simp add: bit_pos_def)
qed

text \<open>C38. A value below \<open>num_values\<close>, for two to \<open>2^31 - 1\<close> values, written with \<open>WriteNonSymmetric\<close> takes as
  many bits as \<open>SizeNonSymmetricBits\<close> says and is read back by \<open>ReadNonSymmetric\<close> from the same position.\<close>

theorem nonsymmetric_round_trip:
  assumes "bits_ok b" "1 < unat num" "unat num < 2 ^ 31" "val < num"
    "SizeNonSymmetricBits val num = Some n" "n \<le> RemainingBitCount b"
  shows "\<exists>b'. WriteNonSymmetric val num b = Some (True, b') \<and> bit_pos b' = bit_pos b + n \<and>
    (\<forall>c. bits_ok c \<and> bb_bytes c = bb_bytes b' \<and> bit_pos c = bit_pos b \<longrightarrow>
       (\<exists>c'. ReadNonSymmetric num c = Some (Some val, c') \<and> bit_pos c' = bit_pos b'))"
proof -
  have "\<not> CountBits (ucast num) \<ge> 32" using nonsym_numbers(2) [OF assms(2,3)] by simp
  then have n: "n = length (nonsym_code num val)"
    using assms(5) by (auto simp: SizeNonSymmetricBits_def nonsym_code_def Let_def split: if_splits)
  from WriteNonSymmetric_code [OF assms(1-4)] assms(6) n obtain b' where
    b': "WriteNonSymmetric val num b = Some (True, b')" "bit_pos b' = bit_pos b + n"
      "has_code (bb_bytes b') (bit_pos b) (nonsym_code num val)" by auto
  have "\<exists>c'. ReadNonSymmetric num c = Some (Some val, c') \<and> bit_pos c' = bit_pos b'"
    if "bits_ok c" "bb_bytes c = bb_bytes b'" "bit_pos c = bit_pos b" for c
    using ReadNonSymmetric_code [OF that(1) assms(2-4)] that b' n by auto
  with b' show ?thesis by blast
qed

theorem nonsymmetric_round_trip_witness:
  "\<exists>b'. WriteNonSymmetric 4 5 (new_BitBuffer [0]) = Some (True, b') \<and> bit_pos b' = 3"
proof -
  have "SizeNonSymmetricBits 4 5 = Some 3" "3 \<le> RemainingBitCount (new_BitBuffer [0])" "bit_pos (new_BitBuffer [0]) = 0"
    by code_simp+
  then show ?thesis using nonsymmetric_round_trip [of "new_BitBuffer [0]" 5 4 3] by auto
qed

end
