(* ===== verification/Ip_Address.thy ===== *)
theory Ip_Address
  imports Byte_Order
begin

text \<open>
  \<open>IPAddress\<close> and \<open>InterfaceAddress\<close> (\<open>ip_address.h\<close>, \<open>ip_address.cc\<close>).

  The union of \<open>in_addr\<close> and \<open>in6_addr\<close> is its sixteen bytes, in memory order; the IPv4 view is the
  first four of them. The family is one of the three values the constructors set. The functions
  \<open>inet_pton\<close> and \<open>inet_ntop\<close> of the system library are parameters.
\<close>

section \<open>Addresses\<close>

datatype family = AF_UNSPEC | AF_INET | AF_INET6

record IPAddress =
  ip_family :: family
  ip_u :: bytes

definition IPAddress_nil :: IPAddress where
  "IPAddress_nil = \<lparr>ip_family = AF_UNSPEC, ip_u = replicate 16 0\<rparr>"

definition IPAddress_v4 :: "bytes \<Rightarrow> IPAddress" where
  "IPAddress_v4 ip4 = \<lparr>ip_family = AF_INET, ip_u = ip4 @ replicate 12 0\<rparr>"

definition IPAddress_v6 :: "bytes \<Rightarrow> IPAddress" where
  "IPAddress_v6 ip6 = \<lparr>ip_family = AF_INET6, ip_u = ip6\<rparr>"

definition IPAddress_host :: "u32 \<Rightarrow> IPAddress" where
  "IPAddress_host ip_in_host_byte_order = IPAddress_v4 (obj_bytes 4 (HostToNetwork32 ip_in_host_byte_order))"

definition ipv4_address :: "IPAddress \<Rightarrow> bytes" where
  "ipv4_address ip = take 4 (ip_u ip)"

definition ipv6_address :: "IPAddress \<Rightarrow> bytes" where
  "ipv6_address ip = ip_u ip"

definition kV4MappedPrefix :: bytes where
  "kV4MappedPrefix = replicate 10 0 @ [0xFF, 0xFF] @ replicate 4 0"

definition k6To4Prefix :: bytes where
  "k6To4Prefix = [0x20, 0x02] @ replicate 14 0"

definition kTeredoPrefix :: bytes where
  "kTeredoPrefix = [0x20, 0x01] @ replicate 14 0"

definition kV4CompatibilityPrefix :: bytes where
  "kV4CompatibilityPrefix = replicate 16 0"

definition k6BonePrefix :: bytes where
  "k6BonePrefix = [0x3f, 0xfe] @ replicate 14 0"

definition kPrivateNetworkPrefix :: bytes where
  "kPrivateNetworkPrefix = [0xFD] @ replicate 15 0"

definition in6addr_any :: bytes where
  "in6addr_any = replicate 16 0"

definition in6addr_loopback :: bytes where
  "in6addr_loopback = replicate 15 0 @ [1]"

definition v4AddressAsHostOrderInteger :: "IPAddress \<Rightarrow> u32" where
  "v4AddressAsHostOrderInteger ip =
     (if ip_family ip = AF_INET then NetworkToHost32 (obj_load (ipv4_address ip)) else 0)"

definition overhead :: "IPAddress \<Rightarrow> int" where
  "overhead ip = (case ip_family ip of AF_INET \<Rightarrow> 20 | AF_INET6 \<Rightarrow> 40 | AF_UNSPEC \<Rightarrow> 0)"

definition IPIsUnspec :: "IPAddress \<Rightarrow> bool" where
  "IPIsUnspec ip \<longleftrightarrow> ip_family ip = AF_UNSPEC"

definition IPAddress_IsNil :: "IPAddress \<Rightarrow> bool" where
  "IPAddress_IsNil ip = IPIsUnspec ip"

definition IPAddress_Size :: "IPAddress \<Rightarrow> nat" where
  "IPAddress_Size ip = (case ip_family ip of AF_INET \<Rightarrow> 4 | AF_INET6 \<Rightarrow> 16 | AF_UNSPEC \<Rightarrow> 0)"

section \<open>Comparison\<close>

definition ip_eq :: "IPAddress \<Rightarrow> IPAddress \<Rightarrow> bool" where
  "ip_eq a b =
     (if ip_family a \<noteq> ip_family b then False
      else if ip_family a = AF_INET then ipv4_address a = ipv4_address b
      else if ip_family a = AF_INET6 then ipv6_address a = ipv6_address b
      else ip_family a = AF_UNSPEC)"

text \<open>\<open>memcmp\<close> on equally long blocks: negative when the first differing byte is smaller.\<close>

fun memcmp_less :: "bytes \<Rightarrow> bytes \<Rightarrow> bool" where
  "memcmp_less (x # xs) (y # ys) = (if x = y then memcmp_less xs ys else x < y)"
| "memcmp_less _ _ = False"

definition ip_less :: "IPAddress \<Rightarrow> IPAddress \<Rightarrow> bool" where
  "ip_less a b =
     (if ip_family a \<noteq> ip_family b then
        (if ip_family a = AF_UNSPEC then True
         else if ip_family a = AF_INET \<and> ip_family b = AF_INET6 then True
         else False)
      else
        (case ip_family a of
           AF_INET \<Rightarrow> NetworkToHost32 (obj_load (ipv4_address a)) < NetworkToHost32 (obj_load (ipv4_address b))
         | AF_INET6 \<Rightarrow> memcmp_less (ipv6_address a) (ipv6_address b)
         | AF_UNSPEC \<Rightarrow> False))"

definition ip_greater :: "IPAddress \<Rightarrow> IPAddress \<Rightarrow> bool" where
  "ip_greater a b = (\<not> ip_eq a b \<and> \<not> ip_less a b)"

section \<open>Classification\<close>

definition IPIsHelper :: "IPAddress \<Rightarrow> bytes \<Rightarrow> nat \<Rightarrow> bool" where
  "IPIsHelper ip tomatch len = (take (len div 8) (ipv6_address ip) = take (len div 8) tomatch)"

definition IPIs6Bone :: "IPAddress \<Rightarrow> bool" where
  "IPIs6Bone ip = IPIsHelper ip k6BonePrefix 16"

definition IPIs6To4 :: "IPAddress \<Rightarrow> bool" where
  "IPIs6To4 ip = IPIsHelper ip k6To4Prefix 16"

definition IPIsTeredo :: "IPAddress \<Rightarrow> bool" where
  "IPIsTeredo ip = IPIsHelper ip kTeredoPrefix 32"

definition IPIsV4Compatibility :: "IPAddress \<Rightarrow> bool" where
  "IPIsV4Compatibility ip = IPIsHelper ip kV4CompatibilityPrefix 96"

definition IPIsV4Mapped :: "IPAddress \<Rightarrow> bool" where
  "IPIsV4Mapped ip = IPIsHelper ip kV4MappedPrefix 96"

definition IPIsPrivateNetworkV4 :: "IPAddress \<Rightarrow> bool" where
  "IPIsPrivateNetworkV4 ip =
     (let h = v4AddressAsHostOrderInteger ip
      in drop_bit 24 h = 10 \<or> drop_bit 20 h = (push_bit 4 172 OR 1) \<or> drop_bit 16 h = (push_bit 8 192 OR 168))"

definition IPIsPrivateNetworkV6 :: "IPAddress \<Rightarrow> bool" where
  "IPIsPrivateNetworkV6 ip = IPIsHelper ip kPrivateNetworkPrefix 8"

definition IPIsPrivateNetwork :: "IPAddress \<Rightarrow> bool" where
  "IPIsPrivateNetwork ip =
     (case ip_family ip of AF_INET \<Rightarrow> IPIsPrivateNetworkV4 ip | AF_INET6 \<Rightarrow> IPIsPrivateNetworkV6 ip | AF_UNSPEC \<Rightarrow> False)"

definition IPIsSharedNetworkV4 :: "IPAddress \<Rightarrow> bool" where
  "IPIsSharedNetworkV4 ip \<longleftrightarrow> drop_bit 22 (v4AddressAsHostOrderInteger ip) = (push_bit 2 100 OR 1)"

definition IPIsSharedNetwork :: "IPAddress \<Rightarrow> bool" where
  "IPIsSharedNetwork ip = (if ip_family ip = AF_INET then IPIsSharedNetworkV4 ip else False)"

definition IPIsAny :: "IPAddress \<Rightarrow> bool" where
  "IPIsAny ip =
     (case ip_family ip of
        AF_INET \<Rightarrow> ip_eq ip (IPAddress_host 0)
      | AF_INET6 \<Rightarrow> ip_eq ip (IPAddress_v6 in6addr_any) \<or> ip_eq ip (IPAddress_v6 kV4MappedPrefix)
      | AF_UNSPEC \<Rightarrow> False)"

definition IPIsLoopbackV4 :: "IPAddress \<Rightarrow> bool" where
  "IPIsLoopbackV4 ip \<longleftrightarrow> drop_bit 24 (v4AddressAsHostOrderInteger ip) = 127"

definition IPIsLoopbackV6 :: "IPAddress \<Rightarrow> bool" where
  "IPIsLoopbackV6 ip = ip_eq ip (IPAddress_v6 in6addr_loopback)"

definition IPIsLoopback :: "IPAddress \<Rightarrow> bool" where
  "IPIsLoopback ip =
     (case ip_family ip of AF_INET \<Rightarrow> IPIsLoopbackV4 ip | AF_INET6 \<Rightarrow> IPIsLoopbackV6 ip | AF_UNSPEC \<Rightarrow> False)"

definition IPIsLinkLocalV4 :: "IPAddress \<Rightarrow> bool" where
  "IPIsLinkLocalV4 ip \<longleftrightarrow> drop_bit 16 (v4AddressAsHostOrderInteger ip) = (push_bit 8 169 OR 254)"

definition IPIsLinkLocalV6 :: "IPAddress \<Rightarrow> bool" where
  "IPIsLinkLocalV6 ip \<longleftrightarrow> ipv6_address ip ! 0 = 0xFE \<and> (ipv6_address ip ! 1 AND 0xC0) = 0x80"

definition IPIsLinkLocal :: "IPAddress \<Rightarrow> bool" where
  "IPIsLinkLocal ip =
     (case ip_family ip of AF_INET \<Rightarrow> IPIsLinkLocalV4 ip | AF_INET6 \<Rightarrow> IPIsLinkLocalV6 ip | AF_UNSPEC \<Rightarrow> False)"

definition IPIsPrivate :: "IPAddress \<Rightarrow> bool" where
  "IPIsPrivate ip \<longleftrightarrow> IPIsLinkLocal ip \<or> IPIsLoopback ip \<or> IPIsPrivateNetwork ip \<or> IPIsSharedNetwork ip"

definition IPIsMacBased :: "IPAddress \<Rightarrow> bool" where
  "IPIsMacBased ip \<longleftrightarrow> (ipv6_address ip ! 8 AND 0x02) \<noteq> 0 \<and> ipv6_address ip ! 11 = 0xFF \<and> ipv6_address ip ! 12 = 0xFE"

definition IPIsSiteLocal :: "IPAddress \<Rightarrow> bool" where
  "IPIsSiteLocal ip \<longleftrightarrow> ipv6_address ip ! 0 = 0xFE \<and> (ipv6_address ip ! 1 AND 0xC0) = 0xC0"

definition IPIsULA :: "IPAddress \<Rightarrow> bool" where
  "IPIsULA ip \<longleftrightarrow> (ipv6_address ip ! 0 AND 0xFE) = 0xFC"

definition IPAddressPrecedence :: "IPAddress \<Rightarrow> int" where
  "IPAddressPrecedence ip =
     (if ip_family ip = AF_INET then 30
      else if ip_family ip = AF_INET6 then
        (if IPIsLoopback ip then 60
         else if IPIsULA ip then 50
         else if IPIsV4Mapped ip then 30
         else if IPIs6To4 ip then 20
         else if IPIsTeredo ip then 10
         else if IPIsV4Compatibility ip \<or> IPIsSiteLocal ip \<or> IPIs6Bone ip then 1
         else 40)
      else 0)"

section \<open>Conversions\<close>

definition ExtractMappedAddress :: "bytes \<Rightarrow> bytes" where
  "ExtractMappedAddress in6 = take 4 (drop 12 in6)"

definition Normalized :: "IPAddress \<Rightarrow> IPAddress" where
  "Normalized ip =
     (if ip_family ip \<noteq> AF_INET6 then ip
      else if \<not> IPIsV4Mapped ip then ip
      else IPAddress_v4 (ExtractMappedAddress (ip_u ip)))"

definition AsIPv6Address :: "IPAddress \<Rightarrow> IPAddress" where
  "AsIPv6Address ip =
     (if ip_family ip \<noteq> AF_INET then ip
      else IPAddress_v6 (take 12 kV4MappedPrefix @ ipv4_address ip))"

definition HashIP :: "IPAddress \<Rightarrow> u64" where
  "HashIP ip =
     (case ip_family ip of
        AF_INET \<Rightarrow> ucast (obj_load (ipv4_address ip) :: u32)
      | AF_INET6 \<Rightarrow>
          (let v = (\<lambda>i. obj_load (take 4 (drop (4 * i) (ipv6_address ip))) :: u32)
           in ucast (v 0 XOR v 1 XOR v 2 XOR v 3))
      | AF_UNSPEC \<Rightarrow> 0)"

definition GetLoopbackIP :: "family \<Rightarrow> IPAddress" where
  "GetLoopbackIP fam =
     (if fam = AF_INET then IPAddress_host 0x7F000001
      else if fam = AF_INET6 then IPAddress_v6 in6addr_loopback
      else IPAddress_nil)"

definition GetAnyIP :: "family \<Rightarrow> IPAddress" where
  "GetAnyIP fam =
     (if fam = AF_INET then IPAddress_host 0
      else if fam = AF_INET6 then IPAddress_v6 in6addr_any
      else IPAddress_nil)"

text \<open>The address of a \<open>sockaddr\<close> of the given family, or no address at all.\<close>

definition IPFromAddrInfo :: "(family \<times> bytes) option \<Rightarrow> IPAddress option" where
  "IPFromAddrInfo info =
     (case info of
        Some (AF_INET, a) \<Rightarrow> Some (IPAddress_v4 a)
      | Some (AF_INET6, a) \<Rightarrow> Some (IPAddress_v6 a)
      | _ \<Rightarrow> None)"

definition IPFromString :: "(string \<Rightarrow> bytes option) \<Rightarrow> (string \<Rightarrow> bytes option) \<Rightarrow> string \<Rightarrow> bool \<times> IPAddress" where
  "IPFromString pton4 pton6 str =
     (case pton4 str of
        None \<Rightarrow> (case pton6 str of None \<Rightarrow> (False, IPAddress_nil) | Some addr6 \<Rightarrow> (True, IPAddress_v6 addr6))
      | Some addr \<Rightarrow> (True, IPAddress_v4 addr))"

definition IPAddress_ToString :: "(bytes \<Rightarrow> string option) \<Rightarrow> (bytes \<Rightarrow> string option) \<Rightarrow> IPAddress \<Rightarrow> string" where
  "IPAddress_ToString ntop4 ntop6 ip =
     (if ip_family ip \<noteq> AF_INET \<and> ip_family ip \<noteq> AF_INET6 then []
      else (case (if ip_family ip = AF_INET6 then ntop6 (ipv6_address ip) else ntop4 (ipv4_address ip)) of
              None \<Rightarrow> [] | Some buf \<Rightarrow> buf))"

section \<open>Masks\<close>

fun truncate_words :: "nat \<Rightarrow> nat \<Rightarrow> u32 \<Rightarrow> nat \<Rightarrow> bytes \<Rightarrow> bytes" where
  "truncate_words position i inner_mask 0 v6 = v6"
| "truncate_words position i inner_mask (Suc n) v6 =
     truncate_words position (i + 1) inner_mask n
       (if i = position then
          take (4 * i) v6 @
          obj_bytes 4 (HostToNetwork32 (NetworkToHost32 (obj_load (take 4 (drop (4 * i) v6))) AND inner_mask)) @
          drop (4 * i + 4) v6
        else if i > position then take (4 * i) v6 @ obj_bytes 4 (0 :: u32) @ drop (4 * i + 4) v6
        else v6)"

definition TruncateIP :: "IPAddress \<Rightarrow> int \<Rightarrow> IPAddress" where
  "TruncateIP ip len =
     (if len < 0 then IPAddress_nil
      else if ip_family ip = AF_INET then
        (if len > 31 then ip
         else if len = 0 then IPAddress_host 0
         else
           (let m = push_bit (nat (32 - len)) (0xFFFFFFFF :: u32);
                host_order_ip = NetworkToHost32 (obj_load (ipv4_address ip))
            in IPAddress_v4 (obj_bytes 4 (HostToNetwork32 (host_order_ip AND m)))))
      else if ip_family ip = AF_INET6 then
        (if len > 127 then ip
         else if len = 0 then IPAddress_v6 in6addr_any
         else
           (let position = nat len div 32;
                inner_length = 32 - (nat len - position * 32);
                inner_mask = ucast (push_bit inner_length (0xFFFFFFFF :: u64)) :: u32
            in IPAddress_v6 (truncate_words position 0 inner_mask 4 (ipv6_address ip))))
      else IPAddress_nil)"

fun full_words :: "bytes \<Rightarrow> nat \<Rightarrow> nat \<Rightarrow> nat" where
  "full_words v6 i 0 = i"
| "full_words v6 i (Suc n) =
     (if (obj_load (take 4 (drop (4 * i) v6)) :: u32) \<noteq> 0xFFFFFFFF then i else full_words v6 (i + 1) n)"

text \<open>The tail of \<open>CountIPMaskBits\<close>: 32 minus the number of trailing zeros of a non-zero word.\<close>

definition zeroes_below :: "u32 \<Rightarrow> nat" where
  "zeroes_below w =
     (let z0 = 32;
          z1 = (if w \<noteq> 0 then z0 - 1 else z0);
          z2 = (if w AND 0x0000FFFF \<noteq> 0 then z1 - 16 else z1);
          z3 = (if w AND 0x00FF00FF \<noteq> 0 then z2 - 8 else z2);
          z4 = (if w AND 0x0F0F0F0F \<noteq> 0 then z3 - 4 else z3);
          z5 = (if w AND 0x33333333 \<noteq> 0 then z4 - 2 else z4);
          z6 = (if w AND 0x55555555 \<noteq> 0 then z5 - 1 else z5)
      in z6)"

definition mask_word_bits :: "u32 \<Rightarrow> nat" where
  "mask_word_bits word = 32 - zeroes_below (word AND (NOT word + 1))"

definition CountIPMaskBits :: "IPAddress \<Rightarrow> nat" where
  "CountIPMaskBits m =
     (case ip_family m of
        AF_INET \<Rightarrow>
          (let w = NetworkToHost32 (obj_load (ipv4_address m))
           in if w = 0 then 0 else mask_word_bits w)
      | AF_INET6 \<Rightarrow>
          (let i = full_words (ipv6_address m) 0 4;
               w = (if i < 4 then NetworkToHost32 (obj_load (take 4 (drop (4 * i) (ipv6_address m)))) else 0);
               bits = i * 32
           in if w = 0 then bits else bits + mask_word_bits w)
      | AF_UNSPEC \<Rightarrow> 0)"

section \<open>Interface addresses\<close>

record InterfaceAddress =
  if_ip :: IPAddress
  ipv6_flags :: int

definition interface_eq :: "InterfaceAddress \<Rightarrow> InterfaceAddress \<Rightarrow> bool" where
  "interface_eq a b \<longleftrightarrow> ipv6_flags a = ipv6_flags b \<and> ip_eq (if_ip a) (if_ip b)"

definition InterfaceFromString ::
  "(string \<Rightarrow> bytes option) \<Rightarrow> (string \<Rightarrow> bytes option) \<Rightarrow> string \<Rightarrow> int \<Rightarrow> InterfaceAddress option" where
  "InterfaceFromString pton4 pton6 str flags =
     (case IPFromString pton4 pton6 str of
        (ok, ip) \<Rightarrow> if ok then Some \<lparr>if_ip = ip, ipv6_flags = flags\<rparr> else None)"

section \<open>Well-formed addresses\<close>

definition ip_ok :: "IPAddress \<Rightarrow> bool" where
  "ip_ok ip \<longleftrightarrow> length (ip_u ip) = 16 \<and>
     (case ip_family ip of AF_UNSPEC \<Rightarrow> ip_u ip = replicate 16 0 | AF_INET \<Rightarrow> drop 4 (ip_u ip) = replicate 12 0 | AF_INET6 \<Rightarrow> True)"

lemma ip_ok_constructors [simp]:
  "ip_ok IPAddress_nil" "length a = 4 \<Longrightarrow> ip_ok (IPAddress_v4 a)" "length b = 16 \<Longrightarrow> ip_ok (IPAddress_v6 b)"
  "ip_ok (IPAddress_host h)"
  by (simp_all add: ip_ok_def IPAddress_nil_def IPAddress_v4_def IPAddress_v6_def IPAddress_host_def)

lemma ip_family_constructors [simp]:
  "ip_family IPAddress_nil = AF_UNSPEC" "ip_family (IPAddress_v4 a) = AF_INET" "ip_family (IPAddress_v6 b) = AF_INET6"
  "ip_family (IPAddress_host h) = AF_INET"
  by (simp_all add: IPAddress_nil_def IPAddress_v4_def IPAddress_v6_def IPAddress_host_def)

lemma ip_eq_iff: "ip_ok a \<Longrightarrow> ip_ok b \<Longrightarrow> ip_eq a b \<longleftrightarrow> a = b"
proof -
  assume ok: "ip_ok a" "ip_ok b"
  have "a = b" if "ip_family a = AF_INET" "ip_family b = AF_INET" "take 4 (ip_u a) = take 4 (ip_u b)"
  proof -
    have "drop 4 (ip_u a) = drop 4 (ip_u b)" using that ok by (simp add: ip_ok_def)
    then have "ip_u a = ip_u b" using that(3) by (metis append_take_drop_id)
    with that show ?thesis by (cases a; cases b) simp
  qed
  moreover have "a = b" if "ip_family a = ip_family b" "ip_u a = ip_u b"
    using that by (cases a; cases b) simp
  moreover have "ip_u a = ip_u b" if "ip_family a = AF_UNSPEC" "ip_family b = AF_UNSPEC"
    using that ok by (simp add: ip_ok_def)
  ultimately show "ip_eq a b \<longleftrightarrow> a = b"
    by (cases "ip_family a"; cases "ip_family b") (auto simp: ip_eq_def ipv4_address_def ipv6_address_def)
qed

subsection \<open>Order\<close>

lemma memcmp_less_irrefl: "\<not> memcmp_less xs xs"
  by (induction xs) auto

lemma memcmp_less_trans: "memcmp_less xs ys \<Longrightarrow> memcmp_less ys zs \<Longrightarrow> memcmp_less xs zs"
proof (induction xs ys arbitrary: zs rule: memcmp_less.induct)
  case (1 x xs y ys)
  then show ?case by (cases zs) (auto split: if_splits)
qed auto

lemma memcmp_less_total: "length xs = length ys \<Longrightarrow> xs = ys \<or> memcmp_less xs ys \<or> memcmp_less ys xs"
  by (induction xs ys rule: list_induct2) auto

lemma length_ipv4_address: "ip_ok a \<Longrightarrow> length (ipv4_address a) = 4"
  by (simp add: ip_ok_def ipv4_address_def)

lemma be_load_4_inj: "length xs = 4 \<Longrightarrow> length ys = 4 \<Longrightarrow> (be_load xs :: u32) = be_load ys \<Longrightarrow> xs = ys"
  using be_bytes_be_load [of xs, where 'a = 32] be_bytes_be_load [of ys, where 'a = 32] by simp

lemma ip_less_order:
  assumes "ip_ok a" "ip_ok b" "ip_ok c"
  shows "\<not> ip_less a a" "ip_less a b \<Longrightarrow> ip_less b c \<Longrightarrow> ip_less a c"
    "ip_eq a b \<or> ip_less a b \<or> ip_less b a" "ip_less a b \<Longrightarrow> \<not> ip_eq a b"
proof -
  note len = length_ipv4_address [OF assms(1)] length_ipv4_address [OF assms(2)] length_ipv4_address [OF assms(3)]
  note simps = ip_less_def NetworkToHost_wire len
  show irr: "\<not> ip_less a a"
    by (auto simp: ip_less_def memcmp_less_irrefl split: family.split)
  show "ip_less a b \<Longrightarrow> ip_less b c \<Longrightarrow> ip_less a c"
    by (cases "ip_family a"; cases "ip_family b"; cases "ip_family c")
      (auto simp: ip_less_def dest: less_trans memcmp_less_trans)
  have l16: "length (ip_u a) = length (ip_u b)" using assms by (simp add: ip_ok_def)
  show "ip_eq a b \<or> ip_less a b \<or> ip_less b a"
    using memcmp_less_total [OF l16] be_load_4_inj [OF len(1,2)]
      less_linear [of "be_load (ipv4_address a) :: u32" "be_load (ipv4_address b)"]
    by (cases "ip_family a"; cases "ip_family b") (auto simp: ip_eq_def simps ipv6_address_def)
  show "ip_less a b \<Longrightarrow> \<not> ip_eq a b"
    using irr by (auto simp: ip_eq_iff [OF assms(1,2)])
qed

subsection \<open>Bits of addresses\<close>

lemma word_of_update:
  assumes "length v = 16" "length x = 4" "i < 4" "w < 4"
  shows "take 4 (drop (4 * w) (take (4 * i) v @ x @ drop (4 * i + 4) v)) = (if w = i then x else take 4 (drop (4 * w) v))"
proof -
  consider "w < i" | "w = i" | "i < w" by linarith
  then show ?thesis
  proof cases
    case 1
    then have "4 \<le> 4 * i - 4 * w" by simp
    then show ?thesis using assms 1 by (simp add: drop_take min_def)
  next
    case 3
    then have "4 * w = 4 * i + 4 + (4 * w - (4 * i + 4))" by simp
    then show ?thesis using assms 3 by (simp add: min_def)
  qed (use assms in \<open>simp add: min_def\<close>)
qed

lemma stream_bit_sub:
  assumes "length v = 16" "q < 4" "j < 32"
  shows "stream_bit (take 4 (drop (4 * q) v)) j = stream_bit v (32 * q + j)"
proof -
  have k8: "32 * q + j = j + 8 * (4 * q)" by simp
  have "(32 * q + j) mod 8 = j mod 8" unfolding k8 by (rule mod_mult_self2)
  moreover have "(32 * q + j) div 8 = 4 * q + j div 8" unfolding k8 by (rule div_mult_self2) simp
  moreover have "j div 8 < 4" using assms(3) by simp
  ultimately show ?thesis using assms by (simp add: stream_bit_def)
qed

lemma stream_bit_word:
  assumes "length v = 16" "k < 128"
  shows "stream_bit v k = bit (be_load (take 4 (drop (4 * (k div 32)) v)) :: u32) (31 - k mod 32)"
proof -
  define i where "i = k div 32"
  define j where "j = k mod 32"
  have k: "k = 32 * i + j" "j < 32" "i < 4" using assms(2) by (auto simp: i_def j_def)
  let ?w = "take 4 (drop (4 * i) v)"
  have "stream_bit v k = stream_bit ?w j" using stream_bit_sub [OF assms(1) k(3,2)] k(1) by simp
  also have "\<dots> = bit (be_load ?w :: u32) (31 - j)"
    using stream_bit_be_load [of ?w 4 j, where 'a = 32] k assms(1) by simp
  finally show ?thesis by (simp add: i_def j_def)
qed

lemma truncate_words_word:
  assumes "length v = 16" "i + n = 4"
  shows "length (truncate_words position i m n v) = 16 \<and>
    (\<forall>w < 4. take 4 (drop (4 * w) (truncate_words position i m n v)) =
       (if i \<le> w \<and> w = position then be_bytes 4 (be_load (take 4 (drop (4 * w) v)) AND m)
        else if i \<le> w \<and> w > position then be_bytes 4 (0 :: u32)
        else take 4 (drop (4 * w) v)))"
  using assms
proof (induction n arbitrary: i v)
  case (Suc n)
  let ?x = "if i = position then be_bytes 4 (be_load (take 4 (drop (4 * i) v)) AND m) else be_bytes 4 (0 :: u32)"
  let ?v = "if i < position then v else take (4 * i) v @ ?x @ drop (4 * i + 4) v"
  have i: "i < 4" using Suc.prems by simp
  have z: "obj_bytes 4 (0 :: u32) = be_bytes 4 (0 :: u32)" by code_simp
  have "length (take 4 (drop (4 * i) v)) = 4" using Suc.prems(1) i by simp
  then have step: "truncate_words position i m (Suc n) v = truncate_words position (i + 1) m n ?v"
    unfolding truncate_words.simps z HostToNetwork_wire by (simp add: NetworkToHost_wire)
  have len: "length ?v = 16" using Suc.prems(1) i by auto
  have word: "take 4 (drop (4 * w) ?v) = (if w = i \<and> position \<le> i then ?x else take 4 (drop (4 * w) v))" if "w < 4" for w
  proof (cases "i < position")
    case False
    have v: "?v = take (4 * i) v @ ?x @ drop (4 * i + 4) v" using False by (rule if_not_P)
    have "length ?x = 4" "position \<le> i" using False by simp_all
    then show ?thesis unfolding v using word_of_update [OF Suc.prems(1) _ i that, of ?x] by (simp only: simp_thms)
  qed simp
  have ih: "length (truncate_words position (i + 1) m n ?v) = 16"
    "w < 4 \<Longrightarrow> take 4 (drop (4 * w) (truncate_words position (i + 1) m n ?v)) =
       (if i + 1 \<le> w \<and> w = position then be_bytes 4 (be_load (take 4 (drop (4 * w) ?v)) AND m)
        else if i + 1 \<le> w \<and> w > position then be_bytes 4 (0 :: u32) else take 4 (drop (4 * w) ?v))" for w
    using Suc.IH [OF len, of "i + 1"] Suc.prems(2) by simp_all
  show ?case
  proof (intro conjI allI impI)
    show "length (truncate_words position i m (Suc n) v) = 16" unfolding step by (rule ih)
    fix w :: nat
    assume w: "w < 4"
    consider "w < i" | "w = i" | "i < w" by linarith
    then show "take 4 (drop (4 * w) (truncate_words position i m (Suc n) v)) =
       (if i \<le> w \<and> w = position then be_bytes 4 (be_load (take 4 (drop (4 * w) v)) AND m)
        else if i \<le> w \<and> w > position then be_bytes 4 (0 :: u32) else take 4 (drop (4 * w) v))"
      unfolding step ih(2) [OF w] word [OF w] by cases simp_all
  qed
qed simp

lemma bit_high_ones:
  "bit (push_bit s (0xFFFFFFFF :: u32)) n \<longleftrightarrow> s \<le> n \<and> n < 32"
  "bit (ucast (push_bit s (0xFFFFFFFF :: u64)) :: u32) n \<longleftrightarrow> s \<le> n \<and> n < 32"
proof -
  have "(0xFFFFFFFF :: u32) = mask 32" "(0xFFFFFFFF :: u64) = mask 32" by (simp_all add: mask_eq_exp_minus_1)
  then show "bit (push_bit s (0xFFFFFFFF :: u32)) n \<longleftrightarrow> s \<le> n \<and> n < 32"
    "bit (ucast (push_bit s (0xFFFFFFFF :: u64)) :: u32) n \<longleftrightarrow> s \<le> n \<and> n < 32"
    by (auto simp only: bit_push_bit_iff bit_mask_iff bit_unsigned_iff possible_bit_word) simp_all
qed

definition address_bits :: "IPAddress \<Rightarrow> nat" where
  "address_bits ip = 8 * IPAddress_Size ip"

lemma TruncateIP_v4:
  assumes "ip_ok ip" "ip_family ip = AF_INET" "0 < len" "len < 32"
  shows "TruncateIP ip len =
    IPAddress_v4 (be_bytes 4 (be_load (ipv4_address ip) AND push_bit (nat (32 - len)) (0xFFFFFFFF :: u32)))"
  using assms length_ipv4_address [OF assms(1)] by (simp add: TruncateIP_def Let_def wire_simps)

lemma TruncateIP_bits_v4:
  assumes "ip_ok ip" "ip_family ip = AF_INET" "0 \<le> len" "len \<le> 32" "k < 32"
  shows "stream_bit (ip_u (TruncateIP ip len)) k \<longleftrightarrow> k < nat len \<and> stream_bit (ip_u ip) k"
proof -
  have load: "stream_bit (ip_u a) k = bit (be_load (ipv4_address a) :: u32) (31 - k)" if "ip_ok a" for a
  proof -
    have "stream_bit (ip_u a) k = stream_bit (ipv4_address a) k"
      using assms(5) by (simp add: stream_bit_def ipv4_address_def less_mult_imp_div_less)
    then show ?thesis
      using stream_bit_be_load [OF length_ipv4_address [OF that], of k, where 'a = 32] assms(5) by simp
  qed
  consider "len = 0" | "len = 32" | "0 < len" "len < 32" using assms(3,4) by linarith
  then show ?thesis
  proof cases
    case 1
    have "be_load (ipv4_address (IPAddress_host 0)) = (0 :: u32)" by code_simp
    with 1 assms(2) load [of "IPAddress_host 0"] show ?thesis by (simp add: TruncateIP_def)
  next
    case 2
    with assms show ?thesis by (simp add: TruncateIP_def)
  next
    case 3
    let ?w = "be_load (ipv4_address ip) AND push_bit (nat (32 - len)) (0xFFFFFFFF :: u32)"
    have t: "TruncateIP ip len = IPAddress_v4 (be_bytes 4 ?w)" using TruncateIP_v4 [OF assms(1,2)] 3 by simp
    have "ipv4_address (IPAddress_v4 (be_bytes 4 ?w)) = be_bytes 4 ?w"
      by (simp add: ipv4_address_def IPAddress_v4_def)
    then have "be_load (ipv4_address (TruncateIP ip len)) = ?w" by (simp add: t wire_simps)
    moreover have "nat (32 - len) \<le> 31 - k \<longleftrightarrow> k < nat len" using 3 assms(5) by linarith
    moreover have "ip_ok (TruncateIP ip len)" by (simp add: t)
    ultimately show ?thesis using load [OF assms(1)] load [of "TruncateIP ip len"] assms(5)
      by (auto simp: bit_and_iff bit_high_ones)
  qed
qed

lemma TruncateIP_bits_v6:
  assumes "ip_ok ip" "ip_family ip = AF_INET6" "0 \<le> len" "len \<le> 128" "k < 128"
  shows "stream_bit (ip_u (TruncateIP ip len)) k \<longleftrightarrow> k < nat len \<and> stream_bit (ip_u ip) k"
proof -
  have l16: "length (ip_u ip) = 16" using assms(1) by (simp add: ip_ok_def)
  consider "len = 0" | "len = 128" | "0 < len" "len < 128" using assms(3,4) by linarith
  then show ?thesis
  proof cases
    case 1
    have "stream_bit in6addr_any k = False"
      using assms(5) by (simp add: stream_bit_def in6addr_any_def less_mult_imp_div_less)
    with 1 assms(2) show ?thesis by (simp add: TruncateIP_def IPAddress_v6_def)
  next
    case 2
    with assms show ?thesis by (simp add: TruncateIP_def)
  next
    case 3
    define p where "p = nat len div 32"
    define r where "r = nat len - p * 32"
    define m where "m = (ucast (push_bit (32 - r) (0xFFFFFFFF :: u64)) :: u32)"
    have r: "nat len = 32 * p + r" "r < 32" "p < 4" using 3 by (auto simp: p_def r_def)
    define q where "q = k div 32"
    define j where "j = k mod 32"
    have k: "k = 32 * q + j" "j < 32" "q < 4" using assms(5) by (auto simp: q_def j_def)
    let ?v = "truncate_words p 0 m 4 (ip_u ip)"
    have t: "ip_u (TruncateIP ip len) = ?v"
      using 3 assms(2) by (simp add: TruncateIP_def Let_def p_def r_def m_def IPAddress_v6_def ipv6_address_def)
    note tw = truncate_words_word [OF l16, of 0 4 p m, simplified]
    have w: "take 4 (drop (4 * q) ?v) =
        (if q = p then be_bytes 4 (be_load (take 4 (drop (4 * q) (ip_u ip))) AND m)
         else if q > p then be_bytes 4 (0 :: u32) else take 4 (drop (4 * q) (ip_u ip)))"
      using tw k(3) by simp
    have "bit m (31 - j) \<longleftrightarrow> j < r" using k(2) r(2) unfolding m_def bit_high_ones by auto
    moreover have "k < nat len \<longleftrightarrow> q < p \<or> (q = p \<and> j < r)" using k r by auto
    ultimately show ?thesis
      using stream_bit_word [of ?v k] stream_bit_word [OF l16 assms(5)] tw assms(5) w
      unfolding t q_def [symmetric] j_def [symmetric]
      by (auto simp: wire_simps bit_and_iff)
  qed
qed

subsection \<open>Counting mask bits\<close>

lemma odd_and_minus: "odd w \<Longrightarrow> w AND - w = (1 :: u32)"
proof -
  assume "odd w"
  then have "w - 1 = unset_bit 0 w"
    using mult_div_mod_eq [of 2 w] by (simp add: unset_bit_0 odd_iff_mod_2_eq_one algebra_simps)
  then have "- w = NOT (unset_bit 0 w)" by (simp add: minus_eq_not_minus_1)
  with \<open>odd w\<close> show ?thesis
    by (intro bit_eqI) (auto simp: bit_and_iff bit_not_iff bit_unset_bit_iff bit_1_iff bit_0)
qed

lemma lowest_bit:
  assumes "w \<noteq> (0 :: u32)"
  obtains t where "t < 32" "w AND (NOT w + 1) = push_bit t 1" "bit w t" "\<forall>i < t. \<not> bit w i"
proof -
  from assms obtain n where n: "bit w n" by (metis bit_0_eq bit_eqI bot_apply bot_bool_def)
  define t where "t = (LEAST i. bit w i)"
  have t: "bit w t" "\<forall>i < t. \<not> bit w i" unfolding t_def using n by (auto intro: LeastI dest: not_less_Least)
  have t32: "t < 32" using bit_imp_le_length [OF t(1)] by simp
  define v where "v = drop_bit t w"
  have w: "w = push_bit t v"
  proof (rule bit_word_eqI)
    fix n
    assume "n < LENGTH(32)"
    then show "bit w n = bit (push_bit t v) n"
      using t(2) by (cases "t \<le> n") (auto simp: v_def bit_simps)
  qed
  have o: "odd v" using t(1) by (simp add: v_def bit_iff_odd_drop_bit)
  have "NOT w + 1 = push_bit t (- v)" by (simp add: w minus_eq_not_plus_1 [symmetric] push_bit_minus)
  moreover have "w AND push_bit t (- v) = push_bit t (v AND - v)" by (simp add: w)
  ultimately have "w AND (NOT w + 1) = push_bit t 1" by (simp only: odd_and_minus [OF o])
  with that t t32 show thesis by blast
qed

lemma mask_word_bits_lowest:
  assumes "w AND (NOT w + 1) = push_bit t 1" "t < 32"
  shows "mask_word_bits w = 32 - t"
proof -
  have "\<forall>t \<in> {0, 1, 2, 3, 4, 5, 6, 7, 8, 9, 10, 11, 12, 13, 14, 15, 16, 17, 18, 19, 20, 21, 22, 23, 24, 25,
      26, 27, 28, 29, 30, 31}. zeroes_below (push_bit t 1) = t"
    by (simp add: zeroes_below_def)
  moreover have "t \<in> {0, 1, 2, 3, 4, 5, 6, 7, 8, 9, 10, 11, 12, 13, 14, 15, 16, 17, 18, 19, 20, 21, 22, 23, 24, 25,
      26, 27, 28, 29, 30, 31}"
    using assms(2) by (simp only: insert_iff empty_iff) presburger
  ultimately have "zeroes_below (push_bit t 1) = t" by (rule bspec)
  then show ?thesis unfolding mask_word_bits_def assms(1) by simp
qed

text \<open>A word whose highest \<open>n\<close> bits are set and whose other bits are clear.\<close>

lemma mask_word_bits_prefix:
  assumes "0 < n" "n \<le> 32" "\<And>i. bit w i \<longleftrightarrow> 32 - n \<le> i \<and> i < 32"
  shows "mask_word_bits w = n" "w \<noteq> 0"
proof -
  have b: "bit w (32 - n)" using assms by simp
  then show nz: "w \<noteq> 0" by auto
  from lowest_bit [OF nz] obtain t where t: "t < 32" "w AND (NOT w + 1) = push_bit t 1" "bit w t" "\<forall>i < t. \<not> bit w i" .
  have "t = 32 - n" using t(3,4) assms(3) b by (metis antisym_conv2 linorder_not_less)
  with mask_word_bits_lowest [OF t(2,1)] assms(2) show "mask_word_bits w = n" by simp
qed

lemma full_words_spec:
  assumes "\<And>j. i \<le> j \<Longrightarrow> j < i + f \<Longrightarrow> (obj_load (take 4 (drop (4 * j) v)) :: u32) = 0xFFFFFFFF"
    "f \<le> n" "f < n \<Longrightarrow> (obj_load (take 4 (drop (4 * (i + f)) v)) :: u32) \<noteq> 0xFFFFFFFF"
  shows "full_words v i n = i + f"
  using assms
proof (induction n arbitrary: i f)
  case (Suc n)
  show ?case
  proof (cases f)
    case 0
    with Suc.prems show ?thesis by simp
  next
    case (Suc g)
    have "full_words v (i + 1) n = i + 1 + g"
    proof (rule Suc.IH)
      show "(obj_load (take 4 (drop (4 * j) v)) :: u32) = 0xFFFFFFFF" if "i + 1 \<le> j" "j < i + 1 + g" for j
        using Suc.prems(1) [of j] that Suc by simp
      show "g \<le> n" using Suc.prems(2) Suc by simp
      show "(obj_load (take 4 (drop (4 * (i + 1 + g)) v)) :: u32) \<noteq> 0xFFFFFFFF" if "g < n"
        using Suc.prems(3) that Suc by simp
    qed
    with Suc.prems(1) [of i] Suc show ?thesis by simp
  qed
qed simp

lemma be_load_ones:
  assumes "length bs = 4" "n \<le> 32" "\<And>k. k < 32 \<Longrightarrow> stream_bit bs k \<longleftrightarrow> k < n"
  shows "bit (be_load bs :: u32) i \<longleftrightarrow> 32 - n \<le> i \<and> i < 32"
proof (cases "i < 32")
  case True
  have "bit (be_load bs :: u32) i = stream_bit bs (31 - i)"
    using stream_bit_be_load [OF assms(1), of "31 - i", where 'a = 32] True by simp
  then show ?thesis using assms(2,3) True by auto
next
  case False
  then show ?thesis using bit_imp_le_length [of "be_load bs :: u32" i] by auto
qed

lemma CountIPMaskBits_word:
  assumes "length bs = 4" "n \<le> 32" "\<And>k. k < 32 \<Longrightarrow> stream_bit bs k \<longleftrightarrow> k < n"
  shows "(if be_load bs = (0 :: u32) then 0 else mask_word_bits (be_load bs)) = n"
proof (cases "n = 0")
  case True
  then have "be_load bs = (0 :: u32)" using be_load_ones [OF assms] by (intro bit_word_eqI) auto
  with True show ?thesis by simp
next
  case False
  then show ?thesis
    using mask_word_bits_prefix [of n "be_load bs"] be_load_ones [OF assms] assms(2) by simp
qed

lemma full_word_iff:
  assumes "length bs = 4"
  shows "(obj_load bs :: u32) = 0xFFFFFFFF \<longleftrightarrow> (\<forall>k < 32. stream_bit bs k)"
proof -
  have ff: "(obj_load (replicate 4 0xFF) :: u32) = 0xFFFFFFFF" by code_simp
  have b: "stream_bit (replicate 4 0xFF) k" if "k < 32" for k
  proof -
    have "k div 8 < 4" using that by simp
    moreover have "bit (0xFF :: u8) (7 - k mod 8)"
      using bit_mask_iff [of 8 "7 - k mod 8", where 'a = u8] by (simp add: mask_eq_exp_minus_1)
    ultimately show ?thesis by (simp add: stream_bit_def)
  qed
  have "bs = replicate 4 0xFF \<longleftrightarrow> (\<forall>k < 32. stream_bit bs k)"
    using b assms stream_bit_eqI [of bs "replicate 4 0xFF"] by auto
  moreover have "(obj_load bs :: u32) = 0xFFFFFFFF \<longleftrightarrow> bs = replicate 4 0xFF"
    using ff assms le_bytes_le_load [of bs, where 'a = 32] le_bytes_le_load [of "replicate 4 0xFF", where 'a = 32]
    by (auto simp: obj_load_def host_big_endian_def)
  ultimately show ?thesis by simp
qed

text \<open>A net mask of \<open>n\<close> bits: the first \<open>n\<close> bits of the address are set and no other.\<close>

definition netmask :: "IPAddress \<Rightarrow> nat \<Rightarrow> bool" where
  "netmask m n \<longleftrightarrow> ip_ok m \<and> n \<le> address_bits m \<and> (\<forall>k < address_bits m. stream_bit (ip_u m) k \<longleftrightarrow> k < n)"

lemma CountIPMaskBits_v4:
  assumes "netmask m n" "ip_family m = AF_INET"
  shows "CountIPMaskBits m = n"
proof -
  have ok: "ip_ok m" "n \<le> 32" "\<forall>k < 32. stream_bit (ip_u m) k \<longleftrightarrow> k < n"
    using assms by (simp_all add: netmask_def address_bits_def IPAddress_Size_def)
  have l: "length (ipv4_address m) = 4" using ok(1) by (rule length_ipv4_address)
  have "stream_bit (ipv4_address m) k \<longleftrightarrow> k < n" if "k < 32" for k
    using that ok(3) by (simp add: stream_bit_def ipv4_address_def less_mult_imp_div_less)
  from CountIPMaskBits_word [OF l ok(2) this] assms(2) l show ?thesis
    by (simp add: CountIPMaskBits_def Let_def NetworkToHost_wire)
qed

lemma CountIPMaskBits_v6:
  assumes "netmask m n" "ip_family m = AF_INET6"
  shows "CountIPMaskBits m = n"
proof -
  let ?v = "ip_u m"
  have ok: "length ?v = 16" "n \<le> 128" "\<And>k. k < 128 \<Longrightarrow> stream_bit ?v k \<longleftrightarrow> k < n"
    using assms by (auto simp: netmask_def address_bits_def IPAddress_Size_def ip_ok_def)
  define p where "p = n div 32"
  define r where "r = n mod 32"
  have n: "n = 32 * p + r" "r < 32" "p \<le> 4" using ok(2) by (auto simp: p_def r_def)
  let ?w = "\<lambda>q. take 4 (drop (4 * q) ?v)"
  have len: "length (?w q) = 4" if "q < 4" for q using that ok(1) by simp
  have bits: "stream_bit (?w q) j \<longleftrightarrow> 32 * q + j < n" if "q < 4" "j < 32" for q j
    using stream_bit_sub [OF ok(1) that] ok(3) [of "32 * q + j"] that by simp
  have full: "(obj_load (?w q) :: u32) = 0xFFFFFFFF \<longleftrightarrow> q < p" if "q < 4" for q
  proof -
    have "(\<forall>j < 32. 32 * q + j < n) \<longleftrightarrow> q < p"
    proof
      assume "\<forall>j < 32. 32 * q + j < n"
      then have "32 * q + 31 < n" by simp
      then show "q < p" using n by simp
    qed (use n in auto)
    then show ?thesis using full_word_iff [OF len [OF that]] bits [OF that] by simp
  qed
  have fw: "full_words ?v 0 4 = p"
    using full_words_spec [of 0 p ?v 4] full n(3) by (simp add: le_neq_trans)
  show ?thesis
  proof (cases "p = 4")
    case True
    then have "n = 128" using n ok(2) by simp
    with True fw assms(2) show ?thesis by (simp add: CountIPMaskBits_def Let_def ipv6_address_def)
  next
    case False
    then have p: "p < 4" using n(3) by simp
    have "(if be_load (?w p) = (0 :: u32) then 0 else mask_word_bits (be_load (?w p))) = r"
      using CountIPMaskBits_word [OF len [OF p], of r] bits [OF p] n by simp
    then show ?thesis
      using fw p assms(2) n(1) len [OF p]
      by (auto simp: CountIPMaskBits_def Let_def ipv6_address_def NetworkToHost_wire split: if_splits)
  qed
qed

lemma Normalized_AsIPv6:
  assumes "ip_ok ip" "ip_family ip = AF_INET"
  shows "Normalized (AsIPv6Address ip) = ip"
proof -
  have l: "length (ipv4_address ip) = 4" using assms(1) by (rule length_ipv4_address)
  have "drop 4 (ip_u ip) = replicate 12 0" using assms by (simp add: ip_ok_def)
  then have "take 4 (ip_u ip) @ replicate 12 0 = ip_u ip" by (metis append_take_drop_id)
  then have "IPAddress_v4 (ipv4_address ip) = ip"
    using assms(2) by (cases ip) (simp add: IPAddress_v4_def ipv4_address_def)
  moreover have "take 12 kV4MappedPrefix = replicate 10 0 @ [0xFF, 0xFF]" "length (take 12 kV4MappedPrefix) = 12" by code_simp+
  ultimately show ?thesis
    using assms(2) l by (simp add: Normalized_def AsIPv6Address_def IPAddress_v6_def IPIsV4Mapped_def IPIsHelper_def
        ipv6_address_def ExtractMappedAddress_def)
qed

section \<open>Properties\<close>

text \<open>C21. \<open>TruncateIP\<close> keeps the family, keeps the first \<open>len\<close> bits of the address and clears all others, for IPv4
  and IPv6 and every length up to the width of the address.\<close>

theorem truncate_ip_bits:
  assumes "ip_ok ip" "0 \<le> len" "nat len \<le> address_bits ip" "k < address_bits ip"
  shows "ip_family (TruncateIP ip len) = ip_family ip \<and>
    (stream_bit (ip_u (TruncateIP ip len)) k \<longleftrightarrow> k < nat len \<and> stream_bit (ip_u ip) k)"
  using assms TruncateIP_bits_v4 [OF assms(1), of len k] TruncateIP_bits_v6 [OF assms(1), of len k]
  by (cases "ip_family ip") (auto simp: address_bits_def IPAddress_Size_def TruncateIP_def Let_def)

theorem truncate_ip_bits_witness:
  "ip_family (TruncateIP (IPAddress_host 0xC0A80AFF) 20) = AF_INET \<and>
   \<not> stream_bit (ip_u (TruncateIP (IPAddress_host 0xC0A80AFF) 20)) 20 \<and>
   stream_bit (ip_u (TruncateIP (IPAddress_host 0xC0A80AFF) 20)) 0"
proof -
  have "address_bits (IPAddress_host 0xC0A80AFF) = 32" "stream_bit (ip_u (IPAddress_host 0xC0A80AFF)) 0" by code_simp+
  then show ?thesis
    using truncate_ip_bits [of "IPAddress_host 0xC0A80AFF" 20 20] truncate_ip_bits [of "IPAddress_host 0xC0A80AFF" 20 0] by simp
qed

text \<open>C30. \<open>CountIPMaskBits\<close> of a net mask with exactly its first \<open>n\<close> bits set is \<open>n\<close>, for every \<open>n\<close> up to 32 for
  IPv4 and up to 128 for IPv6: the trailing-zero bit trick agrees with counting the leading ones.\<close>

theorem count_mask_bits:
  assumes "netmask m n"
  shows "CountIPMaskBits m = n"
proof (cases "ip_family m")
  case AF_UNSPEC
  with assms show ?thesis by (simp add: netmask_def address_bits_def IPAddress_Size_def CountIPMaskBits_def)
qed (use CountIPMaskBits_v4 CountIPMaskBits_v6 assms in auto)

theorem count_mask_bits_witness: "CountIPMaskBits (TruncateIP (IPAddress_host 0xFFFFFFFF) 31) = 31"
proof (rule count_mask_bits)
  have "ip_ok (TruncateIP (IPAddress_host 0xFFFFFFFF) 31) \<and> address_bits (TruncateIP (IPAddress_host 0xFFFFFFFF) 31) = 32 \<and>
      list_all (\<lambda>k. stream_bit (ip_u (TruncateIP (IPAddress_host 0xFFFFFFFF) 31)) k = (k < 31)) [0..<32]"
    by code_simp
  then show "netmask (TruncateIP (IPAddress_host 0xFFFFFFFF) 31) 31"
    by (simp add: netmask_def list_all_iff)
qed

text \<open>For a mask whose set bits are not contiguous \<open>CountIPMaskBits\<close> counts up to the last set bit: the
  mask 255.0.255.0 has eight leading ones and the result is 24.\<close>

theorem count_mask_bits_holes: "CountIPMaskBits (IPAddress_host 0xFF00FF00) = 24"
  by code_simp

text \<open>C31. On addresses built by the constructors, \<open>operator<\<close> is a strict total order whose equivalence is
  \<open>operator==\<close>, as ordered containers keyed by addresses require.\<close>

theorem ip_order:
  assumes "ip_ok a" "ip_ok b" "ip_ok c"
  shows "\<not> ip_less a a \<and> (ip_less a b \<and> ip_less b c \<longrightarrow> ip_less a c) \<and>
    (ip_eq a b \<longleftrightarrow> \<not> ip_less a b \<and> \<not> ip_less b a) \<and> (ip_greater a b \<longleftrightarrow> ip_less b a)"
proof -
  have "ip_eq a b \<longleftrightarrow> ip_eq b a" using assms by (auto simp: ip_eq_iff)
  moreover have "\<not> (ip_less a b \<and> ip_less b a)" using ip_less_order [of a b a] assms by blast
  ultimately show ?thesis
    using ip_less_order [OF assms] ip_less_order [OF assms(2,1,3)] by (auto simp: ip_greater_def)
qed

theorem ip_order_witness:
  "ip_greater (IPAddress_v6 (replicate 16 0)) (IPAddress_host 1)"
proof -
  have "ip_less (IPAddress_host 1) (IPAddress_v6 (replicate 16 0))" by (simp add: ip_less_def)
  then show ?thesis
    using ip_order [of "IPAddress_v6 (replicate 16 0)" "IPAddress_host 1" "IPAddress_host 1"] by simp
qed

text \<open>C32. Mapping an IPv4 address into IPv6 and normalising gives the address back.\<close>

theorem normalized_mapped:
  assumes "ip_ok ip" "ip_family ip = AF_INET"
  shows "Normalized (AsIPv6Address ip) = ip \<and> ip_family (AsIPv6Address ip) = AF_INET6"
  using Normalized_AsIPv6 [OF assms] assms by (simp add: AsIPv6Address_def)

theorem normalized_mapped_witness: "Normalized (AsIPv6Address (IPAddress_host 0x7F000001)) = IPAddress_host 0x7F000001"
  using normalized_mapped [of "IPAddress_host 0x7F000001"] by simp

end
