(* ===== verification/Socket_Address.thy ===== *)
theory Socket_Address
  imports Ip_Address "HOL-Library.Char_ord" "HOL-Library.List_Lexorder" "HOL-Library.Product_Lexorder"
begin

text \<open>
  \<open>SocketAddress\<close> (\<open>socket_address.h\<close>, \<open>socket_address.cc\<close>): a host name or literal, its address, a port and
  an IPv6 scope.

  \<open>SetPort\<close> casts with \<open>dchecked_cast\<close>, so a port outside 16 bits is a failed assertion, \<open>None\<close>. The
  decimal conversions of the standard library (\<open>std::to_string\<close>, \<open>strtoul\<close>) are \<open>show_nat\<close> and
  \<open>strtoul10\<close>; the functions behind literal addresses are the parameters of \<open>IPFromString\<close> and
  \<open>IPAddress_ToString\<close>. A system address is its bytes, with the
  fields of \<open>sockaddr_in\<close> and \<open>sockaddr_in6\<close> at the offsets they have on Linux.
\<close>

section \<open>Decimal numbers\<close>

definition digit_char :: "nat \<Rightarrow> char" where
  "digit_char d = char_of (48 + d)"

fun show_nat :: "nat \<Rightarrow> string" where
  "show_nat n = (if n < 10 then [digit_char n] else show_nat (n div 10) @ [digit_char (n mod 10)])"

declare show_nat.simps [simp del]

definition is_digit :: "char \<Rightarrow> bool" where
  "is_digit c \<longleftrightarrow> 48 \<le> (of_char c :: nat) \<and> of_char c \<le> (57 :: nat)"

definition is_space :: "char \<Rightarrow> bool" where
  "is_space c \<longleftrightarrow> of_char c = (32 :: nat) \<or> (9 \<le> (of_char c :: nat) \<and> of_char c \<le> (13 :: nat))"

fun digits_value :: "nat \<Rightarrow> string \<Rightarrow> nat" where
  "digits_value acc [] = acc"
| "digits_value acc (c # cs) = (if is_digit c then digits_value (acc * 10 + (of_char c - 48)) cs else acc)"

text \<open>\<open>strtoul\<close> in base ten: white space, an optional sign, digits; clamped at the largest value.\<close>

definition strtoul10 :: "string \<Rightarrow> u64" where
  "strtoul10 s =
     (let t = dropWhile is_space s;
          neg = (t \<noteq> [] \<and> hd t = CHR ''-'');
          u = (if t \<noteq> [] \<and> (hd t = CHR ''-'' \<or> hd t = CHR ''+'') then tl t else t);
          v = digits_value 0 u
      in if v \<ge> 2 ^ 64 then - 1 else if neg then - of_nat v else of_nat v)"

section \<open>Socket addresses\<close>

record SocketAddress =
  hostname :: string
  sa_ip :: IPAddress
  sa_port :: u16
  scope_id :: "32 word"
  literal :: bool

definition SocketAddress_nil :: SocketAddress where
  "SocketAddress_nil = \<lparr>hostname = [], sa_ip = IPAddress_nil, sa_port = 0, scope_id = 0, literal = False\<rparr>"

definition SocketAddress_Clear :: "SocketAddress \<Rightarrow> SocketAddress" where
  "SocketAddress_Clear a =
     a\<lparr>hostname := [], literal := False, sa_ip := IPAddress_nil, sa_port := 0, scope_id := 0\<rparr>"

definition SocketAddress_IsNil :: "SocketAddress \<Rightarrow> bool" where
  "SocketAddress_IsNil a \<longleftrightarrow> hostname a = [] \<and> IPIsUnspec (sa_ip a) \<and> sa_port a = 0"

definition IsComplete :: "SocketAddress \<Rightarrow> bool" where
  "IsComplete a \<longleftrightarrow> \<not> IPIsAny (sa_ip a) \<and> sa_port a \<noteq> 0"

definition SetIP :: "IPAddress \<Rightarrow> SocketAddress \<Rightarrow> SocketAddress" where
  "SetIP ip a = a\<lparr>hostname := [], literal := False, sa_ip := ip, scope_id := 0\<rparr>"

definition SetIP_host :: "u32 \<Rightarrow> SocketAddress \<Rightarrow> SocketAddress" where
  "SetIP_host ip_as_host_order_integer a =
     a\<lparr>hostname := [], literal := False, sa_ip := IPAddress_host ip_as_host_order_integer, scope_id := 0\<rparr>"

definition SetIP_name ::
  "(string \<Rightarrow> bytes option) \<Rightarrow> (string \<Rightarrow> bytes option) \<Rightarrow> string \<Rightarrow> SocketAddress \<Rightarrow> SocketAddress" where
  "SetIP_name pton4 pton6 name a =
     (case IPFromString pton4 pton6 name of
        (lit, ip) \<Rightarrow> a\<lparr>hostname := name, literal := lit, sa_ip := (if lit then ip else IPAddress_nil), scope_id := 0\<rparr>)"

definition SetResolvedIP :: "IPAddress \<Rightarrow> SocketAddress \<Rightarrow> SocketAddress" where
  "SetResolvedIP ip a = a\<lparr>sa_ip := ip, scope_id := 0\<rparr>"

definition SetPort :: "int \<Rightarrow> SocketAddress \<Rightarrow> SocketAddress option" where
  "SetPort port a = (if 0 \<le> port \<and> port < 2 ^ 16 then Some (a\<lparr>sa_port := word_of_int port\<rparr>) else None)"

definition SocketAddress_of_ip :: "IPAddress \<Rightarrow> int \<Rightarrow> SocketAddress option" where
  "SocketAddress_of_ip ip port = SetPort port (SetIP ip SocketAddress_nil)"

definition HostAsURIString :: "(bytes \<Rightarrow> string option) \<Rightarrow> (bytes \<Rightarrow> string option) \<Rightarrow> SocketAddress \<Rightarrow> string" where
  "HostAsURIString ntop4 ntop6 a =
     (if \<not> literal a \<and> hostname a \<noteq> [] then hostname a
      else if ip_family (sa_ip a) = AF_INET6 then ''['' @ IPAddress_ToString ntop4 ntop6 (sa_ip a) @ '']''
      else IPAddress_ToString ntop4 ntop6 (sa_ip a))"

definition PortAsString :: "SocketAddress \<Rightarrow> string" where
  "PortAsString a = show_nat (unat (sa_port a))"

definition SocketAddress_ToString :: "(bytes \<Rightarrow> string option) \<Rightarrow> (bytes \<Rightarrow> string option) \<Rightarrow> SocketAddress \<Rightarrow> string" where
  "SocketAddress_ToString ntop4 ntop6 a = HostAsURIString ntop4 ntop6 a @ '':'' @ show_nat (unat (sa_port a))"

text \<open>\<open>std::string::find\<close> and \<open>rfind\<close>; \<open>None\<close> is \<open>npos\<close>.\<close>

fun find_char :: "char \<Rightarrow> nat \<Rightarrow> string \<Rightarrow> nat option" where
  "find_char c i [] = None"
| "find_char c i (x # xs) = (if x = c then Some i else find_char c (i + 1) xs)"

fun rfind_char :: "char \<Rightarrow> nat \<Rightarrow> string \<Rightarrow> nat option" where
  "rfind_char c i [] = None"
| "rfind_char c i (x # xs) =
     (case rfind_char c (i + 1) xs of Some j \<Rightarrow> Some j | None \<Rightarrow> if x = c then Some i else None)"

text \<open>
  The argument of \<open>SetPort\<close> is an \<open>int\<close>: the result of \<open>strtoul\<close> is narrowed to its low 32 bits. The first
  result is \<open>None\<close> when \<open>str.at(0)\<close> throws or the port assertion fails.
\<close>

definition FromString ::
  "(string \<Rightarrow> bytes option) \<Rightarrow> (string \<Rightarrow> bytes option) \<Rightarrow> string \<Rightarrow> SocketAddress \<Rightarrow> (bool \<times> SocketAddress) option" where
  "FromString pton4 pton6 str a =
     (let port_at = (\<lambda>pos. sint (ucast (strtoul10 (drop (pos + 1) str)) :: 32 word)) in
      if str = [] then None
      else if hd str = CHR ''['' then
        (case rfind_char CHR '']'' 0 str of
           None \<Rightarrow> Some (True, a)
         | Some closebracket \<Rightarrow>
             (case find_char CHR '':'' closebracket (drop closebracket str) of
                Some colon \<Rightarrow>
                  if colon > closebracket then
                    (case SetPort (port_at colon) a of
                       None \<Rightarrow> None
                     | Some a' \<Rightarrow> Some (True, SetIP_name pton4 pton6 (take (closebracket - 1) (drop 1 str)) a'))
                  else Some (False, a)
              | None \<Rightarrow> Some (False, a)))
      else
        (case find_char CHR '':'' 0 str of
           None \<Rightarrow> Some (False, a)
         | Some pos \<Rightarrow>
             (case SetPort (port_at pos) a of
                None \<Rightarrow> None
              | Some a' \<Rightarrow> Some (True, SetIP_name pton4 pton6 (take pos str) a'))))"

definition IsAnyIP :: "SocketAddress \<Rightarrow> bool" where
  "IsAnyIP a = IPIsAny (sa_ip a)"

definition IsLoopbackIP :: "SocketAddress \<Rightarrow> bool" where
  "IsLoopbackIP a \<longleftrightarrow> IPIsLoopback (sa_ip a) \<or> (IPIsAny (sa_ip a) \<and> hostname a = ''localhost'')"

definition IsPrivateIP :: "SocketAddress \<Rightarrow> bool" where
  "IsPrivateIP a = IPIsPrivate (sa_ip a)"

definition IsUnresolvedIP :: "SocketAddress \<Rightarrow> bool" where
  "IsUnresolvedIP a \<longleftrightarrow> IPIsUnspec (sa_ip a) \<and> \<not> literal a \<and> hostname a \<noteq> []"

definition EqualIPs :: "SocketAddress \<Rightarrow> SocketAddress \<Rightarrow> bool" where
  "EqualIPs a b \<longleftrightarrow> ip_eq (sa_ip a) (sa_ip b) \<and>
     ((\<not> IPIsAny (sa_ip a) \<and> \<not> IPIsUnspec (sa_ip a)) \<or> hostname a = hostname b)"

definition EqualPorts :: "SocketAddress \<Rightarrow> SocketAddress \<Rightarrow> bool" where
  "EqualPorts a b \<longleftrightarrow> sa_port a = sa_port b"

definition socket_eq :: "SocketAddress \<Rightarrow> SocketAddress \<Rightarrow> bool" where
  "socket_eq a b \<longleftrightarrow> EqualIPs a b \<and> EqualPorts a b"

definition socket_less :: "SocketAddress \<Rightarrow> SocketAddress \<Rightarrow> bool" where
  "socket_less a b =
     (if \<not> ip_eq (sa_ip a) (sa_ip b) then ip_less (sa_ip a) (sa_ip b)
      else if (IPIsAny (sa_ip a) \<or> IPIsUnspec (sa_ip a)) \<and> hostname a \<noteq> hostname b then hostname a < hostname b
      else sa_port a < sa_port b)"

definition Hash :: "SocketAddress \<Rightarrow> u64" where
  "Hash a = HashIP (sa_ip a) XOR scast ((ucast (sa_port a) :: 32 word) OR push_bit 16 (ucast (sa_port a)))"

section \<open>Conversion to and from system addresses\<close>

text \<open>
  Every structure starts with the family in host order at offset 0 and the port at offset 2. A \<open>sockaddr_in\<close> of 16
  bytes has the address at offset 4; a \<open>sockaddr_in6\<close> of 28 bytes has the address at offset 8, behind the flow
  label, and the scope in host order at offset 24; a \<open>sockaddr_storage\<close> of 128 bytes has room for both.
\<close>

type_synonym sockaddr = bytes

definition family_value :: "family \<Rightarrow> u16" where
  "family_value fam = (case fam of AF_UNSPEC \<Rightarrow> 0 | AF_INET \<Rightarrow> 2 | AF_INET6 \<Rightarrow> 10)"

definition field :: "nat \<Rightarrow> nat \<Rightarrow> sockaddr \<Rightarrow> bytes" where
  "field off n addr = take n (drop off addr)"

definition set_field :: "nat \<Rightarrow> bytes \<Rightarrow> sockaddr \<Rightarrow> sockaddr" where
  "set_field off bs addr = take off addr @ bs @ drop (off + length bs) addr"

definition ToSockAddr :: "SocketAddress \<Rightarrow> sockaddr" where
  "ToSockAddr a =
     (let saddr = replicate 16 0 in
      if ip_family (sa_ip a) \<noteq> AF_INET then set_field 0 (obj_bytes 2 (family_value AF_UNSPEC)) saddr
      else
        (let saddr = set_field 0 (obj_bytes 2 (family_value AF_INET)) saddr;
             saddr = set_field 2 (obj_bytes 2 (HostToNetwork16 (sa_port a))) saddr
         in if IPIsAny (sa_ip a) then set_field 4 (obj_bytes 4 (0 :: u32)) saddr
            else set_field 4 (ipv4_address (sa_ip a)) saddr))"

definition FromSockAddr :: "sockaddr \<Rightarrow> SocketAddress \<Rightarrow> (bool \<times> SocketAddress) option" where
  "FromSockAddr saddr a =
     (if obj_load (field 0 2 saddr) \<noteq> family_value AF_INET then Some (False, a)
      else (case SetPort (uint (NetworkToHost16 (obj_load (field 2 2 saddr))))
                   (SetIP_host (NetworkToHost32 (obj_load (field 4 4 saddr))) a) of
              None \<Rightarrow> None | Some a' \<Rightarrow> Some (True, a'\<lparr>literal := False\<rparr>)))"

definition ToSockAddrStorageHelper :: "IPAddress \<Rightarrow> u16 \<Rightarrow> 32 word \<Rightarrow> nat \<times> sockaddr" where
  "ToSockAddrStorageHelper ip port scope =
     (let addr = set_field 0 (obj_bytes 2 (family_value (ip_family ip))) (replicate 128 0) in
      if obj_load (field 0 2 addr) = family_value AF_INET6 then
        (let addr = set_field 8 (ipv6_address ip) addr;
             addr = set_field 2 (obj_bytes 2 (HostToNetwork16 port)) addr;
             addr = set_field 24 (obj_bytes 4 scope) addr
         in (28, addr))
      else if obj_load (field 0 2 addr) = family_value AF_INET then
        (let addr = set_field 4 (ipv4_address ip) addr;
             addr = set_field 2 (obj_bytes 2 (HostToNetwork16 port)) addr
         in (16, addr))
      else (0, addr))"

definition ToDualStackSockAddrStorage :: "SocketAddress \<Rightarrow> nat \<times> sockaddr" where
  "ToDualStackSockAddrStorage a = ToSockAddrStorageHelper (AsIPv6Address (sa_ip a)) (sa_port a) (scope_id a)"

definition ToSockAddrStorage :: "SocketAddress \<Rightarrow> nat \<times> sockaddr" where
  "ToSockAddrStorage a = ToSockAddrStorageHelper (sa_ip a) (sa_port a) (scope_id a)"

definition SocketAddressFromSockAddrStorage :: "sockaddr \<Rightarrow> SocketAddress option option" where
  "SocketAddressFromSockAddrStorage addr =
     (if obj_load (field 0 2 addr) = family_value AF_INET then
        (case SocketAddress_of_ip (IPAddress_v4 (field 4 4 addr)) (uint (NetworkToHost16 (obj_load (field 2 2 addr)))) of
           None \<Rightarrow> None | Some a \<Rightarrow> Some (Some a))
      else if obj_load (field 0 2 addr) = family_value AF_INET6 then
        (case SocketAddress_of_ip (IPAddress_v6 (field 8 16 addr)) (uint (NetworkToHost16 (obj_load (field 2 2 addr)))) of
           None \<Rightarrow> None | Some a \<Rightarrow> Some (Some (a\<lparr>scope_id := obj_load (field 24 4 addr)\<rparr>)))
      else Some None)"

definition EmptySocketAddressWithFamily :: "family \<Rightarrow> SocketAddress" where
  "EmptySocketAddressWithFamily fam =
     (if fam = AF_INET then SocketAddress_nil\<lparr>sa_ip := IPAddress_host 0\<rparr>
      else if fam = AF_INET6 then SocketAddress_nil\<lparr>sa_ip := IPAddress_v6 in6addr_any\<rparr>
      else SocketAddress_nil)"

section \<open>Decimal conversion\<close>

lemma of_char_digit [simp]: "d < 10 \<Longrightarrow> of_char (digit_char d) = 48 + d"
  by (simp add: digit_char_def of_char_of)

lemma is_digit_digit_char [simp]: "d < 10 \<Longrightarrow> is_digit (digit_char d)"
  by (simp add: is_digit_def)

lemma show_nat_digits: "list_all is_digit (show_nat n) \<and> show_nat n \<noteq> []"
  by (induction n rule: show_nat.induct) (subst (1 2) show_nat.simps, auto)

lemma digits_value_snoc:
  "list_all is_digit xs \<Longrightarrow> is_digit c \<Longrightarrow> digits_value acc (xs @ [c]) = digits_value acc xs * 10 + (of_char c - 48)"
  by (induction xs arbitrary: acc) simp_all

lemma digits_value_show: "digits_value 0 (show_nat n) = n"
proof (induction n rule: show_nat.induct)
  case (1 n)
  then show ?case
    using show_nat_digits [of "n div 10"] by (subst show_nat.simps) (auto simp: digits_value_snoc)
qed

lemma digit_facts: "is_digit c \<Longrightarrow> \<not> is_space c \<and> c \<noteq> CHR ''-'' \<and> c \<noteq> CHR ''+'' \<and> c \<noteq> CHR '':'' \<and> c \<noteq> CHR '']''"
  by (auto simp: is_digit_def is_space_def)

lemma strtoul10_show:
  assumes "n < 2 ^ 64"
  shows "strtoul10 (show_nat n) = of_nat n"
proof -
  obtain c cs where s: "show_nat n = c # cs" "is_digit c"
    using show_nat_digits [of n] by (cases "show_nat n") auto
  then have "dropWhile is_space (show_nat n) = show_nat n" using digit_facts [of c] by simp
  moreover have "hd (show_nat n) \<noteq> CHR ''-''" "hd (show_nat n) \<noteq> CHR ''+''" using s digit_facts [of c] by simp_all
  ultimately show ?thesis
    using assms by (simp add: strtoul10_def Let_def digits_value_show)
qed

lemma port_value:
  fixes p :: u16
  shows "sint (ucast (strtoul10 (show_nat (unat p))) :: 32 word) = uint p"
proof -
  have p: "unat p < 2 ^ 16" using unsigned_less [of p, where 'a = nat] by simp
  then have "strtoul10 (show_nat (unat p)) = ucast p" by (simp add: strtoul10_show)
  moreover have "(ucast (ucast p :: u64) :: 32 word) = ucast p" by (rule bit_word_eqI) (auto simp: bit_simps)
  moreover have "sint (ucast p :: 32 word) = uint p"
  proof -
    have "signed_take_bit 31 (uint p) = uint p"
    using uint_lt2p [of p] by (intro signed_take_bit_int_eq_self order_trans [OF _ uint_ge_0]) simp_all
    moreover have "take_bit 32 (uint p) = uint p"
      using uint_lt2p [of p] by (intro take_bit_int_eq_self) simp_all
    ultimately show ?thesis by (simp add: sint_uint unsigned_ucast_eq)
  qed
  ultimately show ?thesis by simp
qed

section \<open>Searching\<close>

lemma find_char_first: "c \<notin> set xs \<Longrightarrow> find_char c i (xs @ c # ys) = Some (i + length xs)"
  by (induction xs arbitrary: i) auto

lemma rfind_char_none: "c \<notin> set xs \<Longrightarrow> rfind_char c i xs = None"
  by (induction xs arbitrary: i) auto

lemma rfind_char_last: "c \<notin> set ys \<Longrightarrow> rfind_char c i (xs @ c # ys) = Some (i + length xs)"
  by (induction xs arbitrary: i) (auto simp: rfind_char_none)

lemma show_nat_no: "CHR '':'' \<notin> set (show_nat n)" "CHR '']'' \<notin> set (show_nat n)"
  using show_nat_digits [of n] digit_facts by (auto simp: list_all_iff)

section \<open>Textual form\<close>

text \<open>
  What printing and parsing of literals must do for the text form of an address to be unambiguous:
  \<open>inet_pton\<close> inverts \<open>inet_ntop\<close>, a dotted form has no colon and does not start with a bracket, and an
  IPv6 form has no closing bracket and is not a dotted form.
\<close>

definition text_form_ok ::
  "(string \<Rightarrow> bytes option) \<Rightarrow> (string \<Rightarrow> bytes option) \<Rightarrow> (bytes \<Rightarrow> string option) \<Rightarrow> (bytes \<Rightarrow> string option) \<Rightarrow> IPAddress \<Rightarrow> bool" where
  "text_form_ok pton4 pton6 ntop4 ntop6 ip =
     (case ip_family ip of
        AF_INET \<Rightarrow>
          (case ntop4 (ipv4_address ip) of
             None \<Rightarrow> False
           | Some s \<Rightarrow> s \<noteq> [] \<and> hd s \<noteq> CHR ''['' \<and> CHR '':'' \<notin> set s \<and> pton4 s = Some (ipv4_address ip))
      | AF_INET6 \<Rightarrow>
          (case ntop6 (ipv6_address ip) of
             None \<Rightarrow> False
           | Some s \<Rightarrow> CHR '']'' \<notin> set s \<and> pton4 s = None \<and> pton6 s = Some (ipv6_address ip))
      | AF_UNSPEC \<Rightarrow> False)"

lemma IPAddress_v4_self: "ip_ok ip \<Longrightarrow> ip_family ip = AF_INET \<Longrightarrow> IPAddress_v4 (ipv4_address ip) = ip"
proof -
  assume a: "ip_ok ip" "ip_family ip = AF_INET"
  then have "drop 4 (ip_u ip) = replicate 12 0" by (simp add: ip_ok_def)
  then have "take 4 (ip_u ip) @ replicate 12 0 = ip_u ip" by (metis append_take_drop_id)
  with a(2) show ?thesis by (cases ip) (simp add: IPAddress_v4_def ipv4_address_def)
qed

lemma IPAddress_v6_self: "ip_family ip = AF_INET6 \<Longrightarrow> IPAddress_v6 (ipv6_address ip) = ip"
  by (cases ip) (simp add: IPAddress_v6_def ipv6_address_def)

lemma SetPort_uint: "SetPort (uint p) a = Some (a\<lparr>sa_port := p\<rparr>)"
  using unsigned_less [of p, where 'a = int] by (simp add: SetPort_def)

lemma FromString_plain:
  assumes "h \<noteq> []" "hd h \<noteq> CHR ''[''" "CHR '':'' \<notin> set h"
  shows "FromString pton4 pton6 (h @ '':'' @ show_nat (unat p)) a =
    Some (True, SetIP_name pton4 pton6 h (a\<lparr>sa_port := p\<rparr>))"
  using assms find_char_first [OF assms(3), of 0 "show_nat (unat p)"]
  by (simp add: FromString_def Let_def port_value SetPort_uint)

lemma FromString_bracket:
  assumes "CHR '']'' \<notin> set h"
  shows "FromString pton4 pton6 (''['' @ h @ '']'' @ '':'' @ show_nat (unat p)) a =
    Some (True, SetIP_name pton4 pton6 h (a\<lparr>sa_port := p\<rparr>))"
proof -
  let ?s = "''['' @ h @ '']'' @ '':'' @ show_nat (unat p)"
  have "rfind_char CHR '']'' 0 ((CHR ''['' # h) @ CHR '']'' # (CHR '':'' # show_nat (unat p))) = Some (0 + length (CHR ''['' # h))"
    using show_nat_no by (intro rfind_char_last) auto
  then have "rfind_char CHR '']'' 0 ?s = Some (Suc (length h))" by simp
  moreover have "find_char CHR '':'' (Suc (length h)) (drop (Suc (length h)) ?s) = Some (Suc (Suc (length h)))" by simp
  moreover have "drop (Suc (Suc (length h)) + 1) ?s = show_nat (unat p)" by simp
  ultimately show ?thesis
    by (simp add: FromString_def Let_def port_value SetPort_uint)
qed

section \<open>Order and hash\<close>

lemma socket_less_cases:
  assumes "ip_ok (sa_ip a)" "ip_ok (sa_ip b)"
  shows "socket_less a b \<longleftrightarrow>
    (if sa_ip a \<noteq> sa_ip b then ip_less (sa_ip a) (sa_ip b)
     else if IPIsAny (sa_ip a) \<or> IPIsUnspec (sa_ip a) then (hostname a, sa_port a) < (hostname b, sa_port b)
     else sa_port a < sa_port b)"
  using ip_eq_iff [OF assms] by (auto simp: socket_less_def)

lemma less_pair_trans: "p < q \<Longrightarrow> q < r \<Longrightarrow> p < r" for p q r :: "string \<times> u16"
  by (rule less_trans)

lemma socket_less_order:
  assumes ok: "ip_ok (sa_ip a)" "ip_ok (sa_ip b)" "ip_ok (sa_ip c)"
  shows "\<not> socket_less a a" "socket_less a b \<Longrightarrow> socket_less b c \<Longrightarrow> socket_less a c"
    "socket_eq a b \<longleftrightarrow> \<not> socket_less a b \<and> \<not> socket_less b a"
proof -
  note less = socket_less_cases [OF ok(1,2)] socket_less_cases [OF ok(2,3)] socket_less_cases [OF ok(1,3)]
  show "\<not> socket_less a a" by (simp add: socket_less_cases [OF ok(1,1)])
  show "socket_less a c" if "socket_less a b" "socket_less b c"
  proof (cases "sa_ip a = sa_ip b \<or> sa_ip b = sa_ip c")
    case True
    then show ?thesis
      using that unfolding less
      by (elim disjE) (simp_all del: less_prod_simp split: if_splits, (blast intro: less_pair_trans)+)
  next
    case False
    then have "ip_less (sa_ip a) (sa_ip b)" "ip_less (sa_ip b) (sa_ip c)" using that by (simp_all add: less)
    then have "ip_less (sa_ip a) (sa_ip c)" by (rule ip_less_order(2) [OF ok])
    moreover then have "sa_ip a \<noteq> sa_ip c" using ip_less_order(1) [OF ok] by auto
    ultimately show ?thesis by (simp add: less)
  qed
  show "socket_eq a b \<longleftrightarrow> \<not> socket_less a b \<and> \<not> socket_less b a"
  proof (cases "sa_ip a = sa_ip b")
    case True
    then show ?thesis
      using ip_eq_iff [OF ok(2,2)]
      by (simp add: less(1) socket_less_cases [OF ok(2,1)] socket_eq_def EqualIPs_def EqualPorts_def) force
  next
    case False
    then show ?thesis
      using ip_less_order(3) [OF ok] ip_eq_iff [OF ok(1,2)]
      by (simp add: less(1) socket_less_cases [OF ok(2,1)] socket_eq_def EqualIPs_def)
  qed
qed

lemma HashIP_cong: "ip_eq x y \<Longrightarrow> HashIP x = HashIP y"
  by (cases "ip_family x"; cases "ip_family y") (auto simp: ip_eq_def HashIP_def)

section \<open>The layout of system addresses\<close>

lemma length_set_field [simp]: "off + length bs \<le> length addr \<Longrightarrow> length (set_field off bs addr) = length addr"
  by (simp add: set_field_def)

lemma field_set_field:
  assumes "off + length bs \<le> length addr"
  shows "n = length bs \<Longrightarrow> field off n (set_field off bs addr) = bs"
    and "k + n \<le> off \<or> off + length bs \<le> k \<Longrightarrow> field k n (set_field off bs addr) = field k n addr"
proof -
  show "k + n \<le> off \<or> off + length bs \<le> k \<Longrightarrow> field k n (set_field off bs addr) = field k n addr"
    using assms by (auto simp: field_def set_field_def drop_append take_drop min_def)
qed (use assms in \<open>simp add: field_def set_field_def\<close>)

lemma obj_load_obj_bytes: "LENGTH('a::len) \<le> 8 * n \<Longrightarrow> obj_load (obj_bytes n v) = (v :: 'a word)"
  by (simp add: obj_load_def obj_bytes_def le_load_le_bytes)

lemma family_value_eq [simp]: "family_value f = family_value g \<longleftrightarrow> f = g"
  by (cases f; cases g) (simp_all add: family_value_def)

lemmas sockaddr_simps = field_set_field obj_load_obj_bytes wire_simps

lemma AsIPv6_ok: "ip_ok ip \<Longrightarrow> ip_family ip \<noteq> AF_UNSPEC \<Longrightarrow> ip_ok (AsIPv6Address ip) \<and> ip_family (AsIPv6Address ip) = AF_INET6"
  by (cases "ip_family ip")
    (simp_all add: AsIPv6Address_def IPAddress_v6_def ip_ok_def kV4MappedPrefix_def ipv4_address_def)

lemma storage_v4_read:
  assumes "ip_ok ip" "ip_family ip = AF_INET"
  obtains addr where "ToSockAddrStorageHelper ip port scope = (16, addr)" "length addr = 128"
    "obj_load (field 0 2 addr) = family_value AF_INET" "field 2 2 addr = be_bytes 2 port"
    "SocketAddressFromSockAddrStorage addr =
      Some (Some \<lparr>hostname = [], sa_ip = ip, sa_port = port, scope_id = 0, literal = False\<rparr>)"
proof -
  define addr where "addr = snd (ToSockAddrStorageHelper ip port scope)"
  have t: "ToSockAddrStorageHelper ip port scope = (16, addr)" "length addr = 128"
    and f: "obj_load (field 0 2 addr) = family_value AF_INET" "field 2 2 addr = be_bytes 2 port" "field 4 4 addr = ipv4_address ip"
    using assms length_ipv4_address [OF assms(1)]
    by (simp_all add: addr_def ToSockAddrStorageHelper_def Let_def sockaddr_simps)
  then show thesis
    using assms by (intro that [of addr]) (simp_all add: SocketAddressFromSockAddrStorage_def wire_simps
        SocketAddress_of_ip_def SetPort_uint SetIP_def SocketAddress_nil_def IPAddress_v4_self)
qed

lemma storage_v6_read:
  assumes "ip_ok ip" "ip_family ip = AF_INET6"
  obtains addr where "ToSockAddrStorageHelper ip port scope = (28, addr)" "length addr = 128"
    "obj_load (field 0 2 addr) = family_value AF_INET6" "field 2 2 addr = be_bytes 2 port"
    "SocketAddressFromSockAddrStorage addr =
      Some (Some \<lparr>hostname = [], sa_ip = ip, sa_port = port, scope_id = scope, literal = False\<rparr>)"
proof -
  define addr where "addr = snd (ToSockAddrStorageHelper ip port scope)"
  have t: "ToSockAddrStorageHelper ip port scope = (28, addr)" "length addr = 128"
    and f: "obj_load (field 0 2 addr) = family_value AF_INET6" "field 2 2 addr = be_bytes 2 port"
      "field 8 16 addr = ipv6_address ip" "obj_load (field 24 4 addr) = scope"
    using assms by (simp_all add: addr_def ToSockAddrStorageHelper_def Let_def sockaddr_simps ip_ok_def ipv6_address_def)
  then show thesis
    using assms by (intro that [of addr]) (simp_all add: SocketAddressFromSockAddrStorage_def wire_simps
        SocketAddress_of_ip_def SetPort_uint SetIP_def SocketAddress_nil_def IPAddress_v6_self)
qed

section \<open>Properties\<close>

text \<open>C33. Printing a socket address that holds an unresolved host name and parsing the text gives the host
  name and the port back, whatever the parsed-into address held before.\<close>

theorem host_text_round_trip:
  assumes "hostname a \<noteq> []" "hd (hostname a) \<noteq> CHR ''[''" "CHR '':'' \<notin> set (hostname a)"
    and "\<not> literal a" "pton4 (hostname a) = None" "pton6 (hostname a) = None"
    and "sa_ip a = IPAddress_nil" "scope_id a = 0"
  shows "FromString pton4 pton6 (SocketAddress_ToString ntop4 ntop6 a) b = Some (True, a)"
proof -
  have "SocketAddress_ToString ntop4 ntop6 a = hostname a @ '':'' @ show_nat (unat (sa_port a))"
    using assms by (simp add: SocketAddress_ToString_def HostAsURIString_def)
  moreover have "SetIP_name pton4 pton6 (hostname a) (b\<lparr>sa_port := sa_port a\<rparr>) = a"
    using assms by (cases a) (simp add: SetIP_name_def IPFromString_def split: prod.split)
  ultimately show ?thesis
    using FromString_plain [OF assms(1-3)] by simp
qed

theorem host_text_round_trip_witness:
  "FromString (\<lambda>_. None) (\<lambda>_. None) ''example.org:8080'' SocketAddress_nil =
    Some (True, SocketAddress_nil\<lparr>hostname := ''example.org'', sa_port := 8080\<rparr>)"
proof -
  let ?a = "SocketAddress_nil\<lparr>hostname := ''example.org'', sa_port := 8080\<rparr>"
  have "SocketAddress_ToString (\<lambda>_. None) (\<lambda>_. None) ?a = ''example.org:8080''"
    by (simp add: SocketAddress_ToString_def HostAsURIString_def SocketAddress_nil_def show_nat.simps digit_char_def char_of_def bit_Suc_0_iff)
  moreover have "FromString (\<lambda>_. None) (\<lambda>_. None) (SocketAddress_ToString (\<lambda>_. None) (\<lambda>_. None) ?a) SocketAddress_nil = Some (True, ?a)"
    by (rule host_text_round_trip) (simp_all add: SocketAddress_nil_def)
  ultimately show ?thesis by simp
qed

text \<open>C22. Printing a socket address with an address and parsing the text gives the address and the port back,
  for both families, whenever parsing of literals inverts printing of this address.\<close>

theorem literal_text_round_trip:
  assumes "ip_ok (sa_ip a)" "literal a \<or> hostname a = []"
    and "text_form_ok pton4 pton6 ntop4 ntop6 (sa_ip a)"
  shows "\<exists>b. FromString pton4 pton6 (SocketAddress_ToString ntop4 ntop6 a) b0 = Some (True, b) \<and>
    sa_ip b = sa_ip a \<and> sa_port b = sa_port a \<and> literal b \<and> socket_eq a (b\<lparr>hostname := hostname a\<rparr>)"
proof (cases "ip_family (sa_ip a)")
  case AF_INET
  then obtain s where s: "ntop4 (ipv4_address (sa_ip a)) = Some s" "s \<noteq> []" "hd s \<noteq> CHR ''[''"
    "CHR '':'' \<notin> set s" "pton4 s = Some (ipv4_address (sa_ip a))"
    using assms(3) by (auto simp: text_form_ok_def split: option.splits)
  have "SocketAddress_ToString ntop4 ntop6 a = s @ '':'' @ show_nat (unat (sa_port a))"
    using assms(2) AF_INET s(1) by (auto simp: SocketAddress_ToString_def HostAsURIString_def IPAddress_ToString_def)
  moreover have "IPFromString pton4 pton6 s = (True, sa_ip a)"
    using s AF_INET assms(1) by (simp add: IPFromString_def IPAddress_v4_self)
  ultimately show ?thesis
    using FromString_plain [OF s(2-4)] ip_eq_iff [OF assms(1,1)]
    by (simp add: SetIP_name_def socket_eq_def EqualIPs_def EqualPorts_def)
next
  case AF_INET6
  then obtain s where s: "ntop6 (ipv6_address (sa_ip a)) = Some s" "CHR '']'' \<notin> set s" "pton4 s = None"
    "pton6 s = Some (ipv6_address (sa_ip a))"
    using assms(3) by (auto simp: text_form_ok_def split: option.splits)
  have "SocketAddress_ToString ntop4 ntop6 a = ''['' @ s @ '']'' @ '':'' @ show_nat (unat (sa_port a))"
    using assms(2) AF_INET6 s(1) by (auto simp: SocketAddress_ToString_def HostAsURIString_def IPAddress_ToString_def)
  moreover have "IPFromString pton4 pton6 s = (True, sa_ip a)"
    using s AF_INET6 by (simp add: IPFromString_def IPAddress_v6_self)
  ultimately show ?thesis
    using FromString_bracket [OF s(2)] ip_eq_iff [OF assms(1,1)]
    by (simp add: SetIP_name_def socket_eq_def EqualIPs_def EqualPorts_def)
next
  case AF_UNSPEC
  then show ?thesis using assms(3) by (simp add: text_form_ok_def)
qed

theorem literal_text_round_trip_witness:
  "\<exists>b. FromString (\<lambda>s. if s = ''1.2.3.4'' then Some [1, 2, 3, 4] else None) (\<lambda>_. None) ''1.2.3.4:80'' SocketAddress_nil = Some (True, b) \<and>
    sa_ip b = IPAddress_v4 [1, 2, 3, 4] \<and> sa_port b = 80"
proof -
  let ?pton4 = "\<lambda>s. if s = ''1.2.3.4'' then Some [1, 2, 3, 4 :: u8] else None"
  let ?ntop4 = "\<lambda>b. if b = [1, 2, 3, 4 :: u8] then Some ''1.2.3.4'' else None"
  let ?a = "SocketAddress_nil\<lparr>sa_ip := IPAddress_v4 [1, 2, 3, 4], sa_port := 80\<rparr>"
  have v4: "ipv4_address (IPAddress_v4 [1, 2, 3, 4]) = [1, 2, 3, 4]"
    by (simp add: ipv4_address_def IPAddress_v4_def)
  have "SocketAddress_ToString ?ntop4 (\<lambda>_. None) ?a = ''1.2.3.4:80''"
    by (simp add: SocketAddress_ToString_def HostAsURIString_def IPAddress_ToString_def SocketAddress_nil_def v4
        show_nat.simps digit_char_def char_of_def bit_Suc_0_iff)
  moreover have "text_form_ok ?pton4 (\<lambda>_. None) ?ntop4 (\<lambda>_. None) (sa_ip ?a)"
    by (simp add: text_form_ok_def v4)
  ultimately show ?thesis
    using literal_text_round_trip [of ?a ?pton4 "\<lambda>_. None" ?ntop4 "\<lambda>_. None" SocketAddress_nil]
    by (auto simp: SocketAddress_nil_def)
qed

text \<open>Text that opens a bracket and never closes it is accepted: the parser returns true and leaves the
  address as it was.\<close>

theorem unclosed_bracket_accepted:
  "CHR '']'' \<notin> set h \<Longrightarrow> FromString pton4 pton6 (CHR ''['' # h) a = Some (True, a)"
  by (simp add: FromString_def Let_def rfind_char_none)

theorem unclosed_bracket_accepted_witness:
  "FromString (\<lambda>_. None) (\<lambda>_. None) ''[::1'' SocketAddress_nil = Some (True, SocketAddress_nil)"
  using unclosed_bracket_accepted [of "''::1''"] by simp

text \<open>C34. Socket addresses are strictly ordered, two of them are equal exactly when neither is below the
  other, and equal socket addresses have the same hash.\<close>

theorem socket_order_and_hash:
  assumes "ip_ok (sa_ip a)" "ip_ok (sa_ip b)" "ip_ok (sa_ip c)"
  shows "\<not> socket_less a a \<and> (socket_less a b \<and> socket_less b c \<longrightarrow> socket_less a c) \<and>
    (socket_eq a b \<longleftrightarrow> \<not> socket_less a b \<and> \<not> socket_less b a) \<and> (socket_eq a b \<longrightarrow> Hash a = Hash b)"
proof -
  have "Hash a = Hash b" if "socket_eq a b"
    using that HashIP_cong [of "sa_ip a" "sa_ip b"] by (simp add: socket_eq_def EqualIPs_def EqualPorts_def Hash_def)
  then show ?thesis using socket_less_order [OF assms] by blast
qed

theorem socket_order_and_hash_witness:
  "socket_less (SocketAddress_nil\<lparr>hostname := ''a'', sa_port := 9\<rparr>) (SocketAddress_nil\<lparr>hostname := ''c'', sa_port := 1\<rparr>)"
proof -
  let ?h = "\<lambda>n p. SocketAddress_nil\<lparr>hostname := n, sa_port := p\<rparr>"
  have "socket_less (?h ''a'' 9) (?h ''b'' 5)" "socket_less (?h ''b'' 5) (?h ''c'' 1)"
    by (simp_all add: socket_less_cases SocketAddress_nil_def IPIsUnspec_def less_char_def)
  then show ?thesis
    using socket_order_and_hash [of "?h ''a'' 9" "?h ''b'' 5" "?h ''c'' 1"] by (simp add: SocketAddress_nil_def)
qed

text \<open>C35. A socket address with an IPv4 or IPv6 address is written into the 128 bytes of a system address with
  its port in network order, as a structure of its own family, 16 or 28 bytes of it; an IPv6 address with a mapped
  IPv4 address inside stays an IPv6 structure, where the comment in the header promises an IPv4 one. Read back from
  the bytes, it keeps its address and port, and its scope when it is an IPv6 address; written by the dual stack
  version, it comes back as the IPv6 address it is mapped to.\<close>

theorem sockaddr_storage_round_trip:
  assumes "ip_ok (sa_ip a)" "ip_family (sa_ip a) \<noteq> AF_UNSPEC"
  shows "\<exists>size addr addr6. ToSockAddrStorage a = (size, addr) \<and> ToDualStackSockAddrStorage a = (28, addr6) \<and>
    size = (if ip_family (sa_ip a) = AF_INET6 then 28 else 16) \<and> length addr = 128 \<and> length addr6 = 128 \<and>
    obj_load (field 0 2 addr) = family_value (ip_family (sa_ip a)) \<and> field 2 2 addr = be_bytes 2 (sa_port a) \<and>
    SocketAddressFromSockAddrStorage addr =
      Some (Some \<lparr>hostname = [], sa_ip = sa_ip a, sa_port = sa_port a,
                  scope_id = (if ip_family (sa_ip a) = AF_INET6 then scope_id a else 0), literal = False\<rparr>) \<and>
    SocketAddressFromSockAddrStorage addr6 =
      Some (Some \<lparr>hostname = [], sa_ip = AsIPv6Address (sa_ip a), sa_port = sa_port a, scope_id = scope_id a, literal = False\<rparr>)"
proof -
  let ?six = "AsIPv6Address (sa_ip a)"
  have six: "ip_ok ?six" "ip_family ?six = AF_INET6" using assms by (auto simp: AsIPv6_ok)
  obtain addr6 where a6: "ToDualStackSockAddrStorage a = (28, addr6)" "length addr6 = 128"
    and r6: "SocketAddressFromSockAddrStorage addr6 =
      Some (Some \<lparr>hostname = [], sa_ip = ?six, sa_port = sa_port a, scope_id = scope_id a, literal = False\<rparr>)"
    unfolding ToDualStackSockAddrStorage_def using six by (rule storage_v6_read)
  show ?thesis
  proof (cases "ip_family (sa_ip a) = AF_INET6")
    case True
    obtain addr where "ToSockAddrStorage a = (28, addr)" "length addr = 128"
      "obj_load (field 0 2 addr) = family_value AF_INET6" "field 2 2 addr = be_bytes 2 (sa_port a)"
      "SocketAddressFromSockAddrStorage addr =
        Some (Some \<lparr>hostname = [], sa_ip = sa_ip a, sa_port = sa_port a, scope_id = scope_id a, literal = False\<rparr>)"
      unfolding ToSockAddrStorage_def using assms(1) True by (rule storage_v6_read)
    then show ?thesis using True a6 r6 by (intro exI [of _ 28] exI [of _ addr] exI [of _ addr6]) simp
  next
    case False
    then have v4: "ip_family (sa_ip a) = AF_INET" using assms(2) by (cases "ip_family (sa_ip a)") simp_all
    obtain addr where "ToSockAddrStorage a = (16, addr)" "length addr = 128"
      "obj_load (field 0 2 addr) = family_value AF_INET" "field 2 2 addr = be_bytes 2 (sa_port a)"
      "SocketAddressFromSockAddrStorage addr =
        Some (Some \<lparr>hostname = [], sa_ip = sa_ip a, sa_port = sa_port a, scope_id = 0, literal = False\<rparr>)"
      unfolding ToSockAddrStorage_def using assms(1) v4 by (rule storage_v4_read)
    then show ?thesis using v4 a6 r6 by (intro exI [of _ 16] exI [of _ addr] exI [of _ addr6]) simp
  qed
qed

theorem sockaddr_storage_round_trip_witness:
  "\<exists>addr addr6. ToSockAddrStorage (SocketAddress_nil\<lparr>sa_ip := IPAddress_host 1, sa_port := 7\<rparr>) = (16, addr) \<and>
    SocketAddressFromSockAddrStorage addr = Some (Some (SocketAddress_nil\<lparr>sa_ip := IPAddress_host 1, sa_port := 7\<rparr>)) \<and>
    ToSockAddrStorage (SocketAddress_nil\<lparr>sa_ip := IPAddress_v6 kV4MappedPrefix, scope_id := 3\<rparr>) = (28, addr6) \<and>
    SocketAddressFromSockAddrStorage addr6 = Some (Some (SocketAddress_nil\<lparr>sa_ip := IPAddress_v6 kV4MappedPrefix, scope_id := 3\<rparr>))"
proof -
  let ?a = "SocketAddress_nil\<lparr>sa_ip := IPAddress_host 1, sa_port := 7\<rparr>"
  let ?b = "SocketAddress_nil\<lparr>sa_ip := IPAddress_v6 kV4MappedPrefix, scope_id := 3\<rparr>"
  have f: "ip_family (IPAddress_host 1) = AF_INET" "ip_family (IPAddress_v6 kV4MappedPrefix) = AF_INET6" "length kV4MappedPrefix = 16"
    by (simp_all add: IPAddress_host_def IPAddress_v4_def IPAddress_v6_def kV4MappedPrefix_def)
  show ?thesis
    using sockaddr_storage_round_trip [of ?a] sockaddr_storage_round_trip [of ?b] f
    by (auto simp: SocketAddress_nil_def)
qed

end
