(* ===== verification/Stun_Types.thy ===== *)
theory Stun_Types
  imports Socket_Address
begin

text \<open>
  The enumerations of \<open>stun.h\<close> and what \<open>stun.cc\<close> computes from their values alone: the names printed in logs,
  the class of a message type, and the value type an attribute has in each kind of message. An enumeration is a
  datatype with its numeric values beside it, since several enumerators share a value and the code compares
  values as \<open>int\<close>. The name tables are the initialiser lists; the first of two entries with one key is the one
  \<open>std::unordered_map\<close> keeps.
\<close>

section \<open>Enumerations\<close>

datatype StunMessageType =
  kStunMessageBindingRequest | kStunMessageBindingIndication | kStunMessageBindingResponse
  | kStunMessageBindingErrorResponse | kStunGoodPingRequest | kStunGoodPingResponse
  | kStunGoodPingErrorResponse | kStunAllocateRequst | kStunAllocateResponse
  | kStunAllocateErrorResponse | kTurnRefreshRequest | kTurnRefreshResponse
  | kTurnRefreshErrorResponse | kTurnSendSendIndication | kTurnDataSendIndication
  | kTurnCreatePermissionRequest | kTurnCreatePermissionResonse | kTurnCreatePermissionErrorResonse
  | kTurnChannelBindRequest | kTurnChannelBindResponse | kTurnChannelBindErrorResponse
  | kTurnConnect | kTurnConnectionBind | kTurnConnectionAttempt

primrec msg_value :: "StunMessageType \<Rightarrow> int" where
  "msg_value kStunMessageBindingRequest = 0x0001"
| "msg_value kStunMessageBindingIndication = 0x0011"
| "msg_value kStunMessageBindingResponse = 0x0101"
| "msg_value kStunMessageBindingErrorResponse = 0x0111"
| "msg_value kStunGoodPingRequest = 0x200"
| "msg_value kStunGoodPingResponse = 0x300"
| "msg_value kStunGoodPingErrorResponse = 0x310"
| "msg_value kStunAllocateRequst = 0x0003"
| "msg_value kStunAllocateResponse = 0x0103"
| "msg_value kStunAllocateErrorResponse = 0x0113"
| "msg_value kTurnRefreshRequest = 0x0004"
| "msg_value kTurnRefreshResponse = 0x0104"
| "msg_value kTurnRefreshErrorResponse = 0x0114"
| "msg_value kTurnSendSendIndication = 0x0016"
| "msg_value kTurnDataSendIndication = 0x0017"
| "msg_value kTurnCreatePermissionRequest = 0x0008"
| "msg_value kTurnCreatePermissionResonse = 0x0108"
| "msg_value kTurnCreatePermissionErrorResonse = 0x0118"
| "msg_value kTurnChannelBindRequest = 0x0009"
| "msg_value kTurnChannelBindResponse = 0x0109"
| "msg_value kTurnChannelBindErrorResponse = 0x0119"
| "msg_value kTurnConnect = 0x000a"
| "msg_value kTurnConnectionBind = 0x000b"
| "msg_value kTurnConnectionAttempt = 0x000c"

datatype StunAttributeType =
  kStunAttrNotExist | kStunAttrMappedAddress | kStunAttrResponseAddress
  | kStunAttrChangeRequest | kStunAttrSourceAddress | kStunAttrChangedAddress | kStunAttrUsername
  | kStunAttrPassword | kStunAttrMessageIntegrity | kStunAttrStunErrorCode | kStunAttrBandwidth
  | kStunAttrDestinationAddress | kStunAttrSourceAddress2 | kStunAttrRealm | kStunAttrNonce
  | kStunAttrUnknownAttributes | kStunAttrReflectedFrom | kStunAttrChannelNumber
  | kStunAttrLifetime | kStunAttrMagicCookie | kStunAttrXorPeerAddress | kStunAttrData
  | kStunAttrXorRelayedAddress | kStunAttrEventPort | kStunAttrRequestedTransport
  | kStunAttrDontFragment | kStunAttrXorMappedAddress | kStunAttrReservationToken
  | kStunAttrOptions | kStunAttrSoftware | kStunAttrAlternateServer | kStunAttrFingerprint
  | kStunAttrOrigin | kStunAttrConnectionID | kStunAttrRetransmitCount | kStunAttrICEControlled
  | kStunAttrICEControlling | kStunAttrICEPriority | kStunAttrICEUseCandidate
  | kStunAttrICENomination | kStunAttrICENetworkInfo | kStunAttrLastIceCheckReceived
  | kStunAttrGoodMiscInfo | kStunAttrGoodMessageInteger32

primrec attr_value :: "StunAttributeType \<Rightarrow> int" where
  "attr_value kStunAttrNotExist = 0"
| "attr_value kStunAttrMappedAddress = 0x0001"
| "attr_value kStunAttrResponseAddress = 0x0002"
| "attr_value kStunAttrChangeRequest = 0x0003"
| "attr_value kStunAttrSourceAddress = 0x0004"
| "attr_value kStunAttrChangedAddress = 0x0005"
| "attr_value kStunAttrUsername = 0x0006"
| "attr_value kStunAttrPassword = 0x0007"
| "attr_value kStunAttrMessageIntegrity = 0x0008"
| "attr_value kStunAttrStunErrorCode = 0x0009"
| "attr_value kStunAttrBandwidth = 0x0010"
| "attr_value kStunAttrDestinationAddress = 0x0011"
| "attr_value kStunAttrSourceAddress2 = 0x0012"
| "attr_value kStunAttrRealm = 0x0014"
| "attr_value kStunAttrNonce = 0x0015"
| "attr_value kStunAttrUnknownAttributes = 0x000a"
| "attr_value kStunAttrReflectedFrom = 0x000b"
| "attr_value kStunAttrChannelNumber = 0x000c"
| "attr_value kStunAttrLifetime = 0x000d"
| "attr_value kStunAttrMagicCookie = 0x000f"
| "attr_value kStunAttrXorPeerAddress = 0x0012"
| "attr_value kStunAttrData = 0x0013"
| "attr_value kStunAttrXorRelayedAddress = 0x0016"
| "attr_value kStunAttrEventPort = 0x0018"
| "attr_value kStunAttrRequestedTransport = 0x0019"
| "attr_value kStunAttrDontFragment = 0x001A"
| "attr_value kStunAttrXorMappedAddress = 0x0020"
| "attr_value kStunAttrReservationToken = 0x0022"
| "attr_value kStunAttrOptions = 0x8001"
| "attr_value kStunAttrSoftware = 0x8022"
| "attr_value kStunAttrAlternateServer = 0x8023"
| "attr_value kStunAttrFingerprint = 0x8028"
| "attr_value kStunAttrOrigin = 0x802F"
| "attr_value kStunAttrConnectionID = 0x002a"
| "attr_value kStunAttrRetransmitCount = 0xFF00"
| "attr_value kStunAttrICEControlled = 0x8029"
| "attr_value kStunAttrICEControlling = 0x802A"
| "attr_value kStunAttrICEPriority = 0x0024"
| "attr_value kStunAttrICEUseCandidate = 0x0025"
| "attr_value kStunAttrICENomination = 0xC001"
| "attr_value kStunAttrICENetworkInfo = 0xC057"
| "attr_value kStunAttrLastIceCheckReceived = 0xC058"
| "attr_value kStunAttrGoodMiscInfo = 0xC059"
| "attr_value kStunAttrGoodMessageInteger32 = 0xC060"

datatype StunAttributeValueType =
  kStunAttrValueUnknown | kStunAttrValueAddress | kStunAttrValueXorAddress
  | kStunAttrValueUInt32 | kStunAttrValueUInt64 | kStunAttrValueByteString
  | kStunAttrValueErrorCode | kStunAttrValueUInt16List

primrec value_code :: "StunAttributeValueType \<Rightarrow> int" where
  "value_code kStunAttrValueUnknown = 0"
| "value_code kStunAttrValueAddress = 1"
| "value_code kStunAttrValueXorAddress = 2"
| "value_code kStunAttrValueUInt32 = 3"
| "value_code kStunAttrValueUInt64 = 4"
| "value_code kStunAttrValueByteString = 5"
| "value_code kStunAttrValueErrorCode = 6"
| "value_code kStunAttrValueUInt16List = 7"

datatype StunAddressFamily =
  kStunAddressUndef | kStunAddressIpv4 | kStunAddressIpv6

primrec family_code :: "StunAddressFamily \<Rightarrow> int" where
  "family_code kStunAddressUndef = 0"
| "family_code kStunAddressIpv4 = 1"
| "family_code kStunAddressIpv6 = 2"

datatype StunErrorCode =
  kStunTryAlteate | kStunBadRequest | kStunNotAuthorized | kStunForbidden
  | kStunUnknownAttribute | kStunAllocationMismatch | kStunStaleCredentials | kStunStaleNonce
  | kStunAddrFamilyNotSupport | kStunWrongCredentials | kStunUnsuppTransportProto
  | kStunPeerAddrFamilyMismatch | kStunAllocationQuotaReached | kStunIntegrityCheckFailure
  | kStunMissingUsername | kStunUseTLS | kStunRoleConflict | kStunServerError
  | kStunInsufficientCapacity | kStunGlobalFailure | kStunServerNotReachable
  | kStunConnectionFailure | kStunConnectionAlreadyExists | kStunConnectionTimeoutOrFailure

primrec error_value :: "StunErrorCode \<Rightarrow> int" where
  "error_value kStunTryAlteate = 300"
| "error_value kStunBadRequest = 400"
| "error_value kStunNotAuthorized = 401"
| "error_value kStunForbidden = 403"
| "error_value kStunUnknownAttribute = 420"
| "error_value kStunAllocationMismatch = 437"
| "error_value kStunStaleCredentials = 430"
| "error_value kStunStaleNonce = 438"
| "error_value kStunAddrFamilyNotSupport = 4"
| "error_value kStunWrongCredentials = 442"
| "error_value kStunUnsuppTransportProto = 442"
| "error_value kStunPeerAddrFamilyMismatch = 7"
| "error_value kStunAllocationQuotaReached = 10"
| "error_value kStunIntegrityCheckFailure = 431"
| "error_value kStunMissingUsername = 432"
| "error_value kStunUseTLS = 433"
| "error_value kStunRoleConflict = 487"
| "error_value kStunServerError = 500"
| "error_value kStunInsufficientCapacity = 11"
| "error_value kStunGlobalFailure = 600"
| "error_value kStunServerNotReachable = 701"
| "error_value kStunConnectionFailure = 9"
| "error_value kStunConnectionAlreadyExists = 446"
| "error_value kStunConnectionTimeoutOrFailure = 447"

section \<open>Constants\<close>

definition kStunTypeMask :: u32 where "kStunTypeMask = 0x0110"
definition kStunAttributeHeaderSize :: nat where "kStunAttributeHeaderSize = 4"
definition kStunHeaderSize :: nat where "kStunHeaderSize = 20"
definition kStunTransactionIdOffset :: nat where "kStunTransactionIdOffset = 8"
definition kStunTransactionIdLength :: nat where "kStunTransactionIdLength = 12"
definition kStunMagicCookie :: u32 where "kStunMagicCookie = 0x2112A442"
definition kStunMagicCookieLength :: nat where "kStunMagicCookieLength = 4"
definition kStunLegacyTransactionIdLength :: nat where "kStunLegacyTransactionIdLength = 16"
definition kStunMessageIntegritySize :: nat where "kStunMessageIntegritySize = 20"
definition kStunMessageIntegrity32Size :: nat where "kStunMessageIntegrity32Size = 4"
definition STUN_FINGERPRINT_XOR_VALUE :: u32 where "STUN_FINGERPRINT_XOR_VALUE = 0x5354554E"

definition EMPTY_TRANSACTION_ID :: bytes where "EMPTY_TRANSACTION_ID = replicate 16 0x30"

lemmas stun_constants = kStunAttributeHeaderSize_def kStunHeaderSize_def kStunTransactionIdOffset_def
  kStunTransactionIdLength_def kStunMagicCookieLength_def kStunLegacyTransactionIdLength_def
  kStunMessageIntegritySize_def kStunMessageIntegrity32Size_def

section \<open>Names\<close>

definition kStunErrorCodeMap :: "(int \<times> string) list" where
  "kStunErrorCodeMap =
     [(error_value kStunTryAlteate, ''Try Alternate''),
      (error_value kStunBadRequest, ''Bad Request''),
      (error_value kStunNotAuthorized, ''Unauthorized''),
      (error_value kStunForbidden, ''Forbidden''),
      (error_value kStunUnknownAttribute, ''Unknown Attribute''),
      (error_value kStunAllocationMismatch, ''Allocation Mismatch''),
      (error_value kStunStaleNonce, ''Stale Nonce''),
      (error_value kStunMissingUsername, ''Missing Username''),
      (error_value kStunUseTLS, ''Use TLS''),
      (error_value kStunRoleConflict, ''Role Conflict''),
      (error_value kStunAddrFamilyNotSupport, ''Address Family Not Supported''),
      (error_value kStunWrongCredentials, ''Wrong Credentials''),
      (error_value kStunUnsuppTransportProto, ''Unsupported Transport Protocol''),
      (error_value kStunPeerAddrFamilyMismatch, ''Peer Address Family Mismatch''),
      (error_value kStunConnectionAlreadyExists, ''Connection Already Exists''),
      (error_value kStunConnectionFailure, ''Connection Failure''),
      (error_value kStunAllocationQuotaReached, ''Allocation Quota Reached''),
      (error_value kStunRoleConflict, ''Role Conflict''),
      (error_value kStunServerError, ''Server Error''),
      (error_value kStunGlobalFailure, ''Global Failure''),
      (error_value kStunInsufficientCapacity, ''Insufficient Capacity''),
      (error_value kStunConnectionTimeoutOrFailure, ''Connection Timeout or Failure'')]"

definition kStunAttrTypeMap :: "(int \<times> string) list" where
  "kStunAttrTypeMap =
     [(attr_value kStunAttrNotExist, ''Not Exist''),
      (attr_value kStunAttrMappedAddress, ''MAPPED-ADDRESS''),
      (attr_value kStunAttrResponseAddress, ''RESPONSE-ADDRESS''),
      (attr_value kStunAttrChangeRequest, ''CHANGE-REQUEST''),
      (attr_value kStunAttrSourceAddress, ''SOURCE-ADDRESS''),
      (attr_value kStunAttrChangedAddress, ''CHANGED-ADDRESS''),
      (attr_value kStunAttrUsername, ''USERNAME''),
      (attr_value kStunAttrPassword, ''PASSWORD''),
      (attr_value kStunAttrMessageIntegrity, ''MESSAGE-INTEGRITY''),
      (attr_value kStunAttrStunErrorCode, ''ERROR-CODE''),
      (attr_value kStunAttrBandwidth, ''BANDWIDTH''),
      (attr_value kStunAttrDestinationAddress, ''DESTINATION-ADDRESS''),
      (attr_value kStunAttrRealm, ''REALM''),
      (attr_value kStunAttrNonce, ''NONCE''),
      (attr_value kStunAttrUnknownAttributes, ''UNKNOWN-ATTRIBUTES''),
      (attr_value kStunAttrReflectedFrom, ''REFLECTED-FORM''),
      (attr_value kStunAttrChannelNumber, ''CHANNEL-NUMBER''),
      (attr_value kStunAttrLifetime, ''LIFETIME''),
      (attr_value kStunAttrAlternateServer, ''ALTERNATE-SERVER''),
      (attr_value kStunAttrMagicCookie, ''MAGIC-COOKIE''),
      (attr_value kStunAttrXorPeerAddress, ''XOR-PEER-ADDRESS''),
      (attr_value kStunAttrData, ''DATA''),
      (attr_value kStunAttrXorRelayedAddress, ''XOR-RELAYED-ADDRESS''),
      (attr_value kStunAttrEventPort, ''EVEN-PORT''),
      (attr_value kStunAttrRequestedTransport, ''REQUESTED-TRANSPORT''),
      (attr_value kStunAttrDontFragment, ''DONT-FRAGMENT''),
      (attr_value kStunAttrXorMappedAddress, ''XOR-MAPPED-ADDRESS''),
      (attr_value kStunAttrReservationToken, ''RESERVED-TOKEN''),
      (attr_value kStunAttrOptions, ''OPTIONS''),
      (attr_value kStunAttrSoftware, ''SOFTWARE''),
      (attr_value kStunAttrAlternateServer, ''ALTERNATE-SERVER''),
      (attr_value kStunAttrFingerprint, ''FINGERPRINT''),
      (attr_value kStunAttrOrigin, ''ORIGIN''),
      (attr_value kStunAttrConnectionID, ''CONNECTION-ID''),
      (attr_value kStunAttrRetransmitCount, ''RETRANSMIT-COUNT''),
      (attr_value kStunAttrICEControlled, ''ICE-CONTROLLED''),
      (attr_value kStunAttrICEControlling, ''ICE-CONTROLLING''),
      (attr_value kStunAttrICEPriority, ''PRIORITY''),
      (attr_value kStunAttrICEUseCandidate, ''USE-CANDIDATE'')]"

definition kStunMethodMap :: "(int \<times> string) list" where
  "kStunMethodMap =
     [(msg_value kStunMessageBindingRequest, ''STUN BINDING request''),
      (msg_value kStunMessageBindingIndication, ''STUN BINDING indication''),
      (msg_value kStunMessageBindingResponse, ''STUN BINDING response''),
      (msg_value kStunMessageBindingErrorResponse, ''STUN BINDING error response''),
      (msg_value kStunGoodPingRequest, ''GOOG PING request''),
      (msg_value kStunGoodPingResponse, ''GOOG PING response''),
      (msg_value kStunGoodPingErrorResponse, ''GOOG PING error response''),
      (msg_value kStunAllocateRequst, ''TURN ALLOCATE request''),
      (msg_value kStunAllocateResponse, ''TURN ALLOCATE response''),
      (msg_value kStunAllocateErrorResponse, ''TURN ALLOCATE error respons''),
      (msg_value kTurnRefreshRequest, ''TURN REFRESH request''),
      (msg_value kTurnRefreshResponse, ''TURN REFRESH response''),
      (msg_value kTurnRefreshErrorResponse, ''TURN REFRESH error response''),
      (msg_value kTurnSendSendIndication, ''TURN SEND INDICATION''),
      (msg_value kTurnDataSendIndication, ''TURN DATA INDICATION''),
      (msg_value kTurnCreatePermissionRequest, ''TURN CREATE PERMISSION request''),
      (msg_value kTurnCreatePermissionResonse, ''TURN CREATE PERMISSION response''),
      (msg_value kTurnCreatePermissionErrorResonse, ''TURN CREATE PERMISSION error response''),
      (msg_value kTurnChannelBindRequest, ''TURN CHANNEL BIND request''),
      (msg_value kTurnChannelBindResponse, ''TURN CHANNEL BIND response''),
      (msg_value kTurnChannelBindErrorResponse, ''TURN CHANNEL BIND error response''),
      (msg_value kTurnConnect, ''TURN-CHANNEL-BIND''),
      (msg_value kTurnConnectionBind, ''TURN-CONNECT-BIND''),
      (msg_value kTurnConnectionAttempt, ''TURN-CONNECTION-ATTEMP'')]"

definition StunErrorToString :: "u16 \<Rightarrow> string" where
  "StunErrorToString code =
     (case map_of kStunErrorCodeMap (uint code) of Some s \<Rightarrow> s | None \<Rightarrow> ''UnknownError'')"

definition StunAttrToString :: "u16 \<Rightarrow> string" where
  "StunAttrToString ty =
     (case map_of kStunAttrTypeMap (uint ty) of Some s \<Rightarrow> s | None \<Rightarrow> ''StunAttrUnknown'')"

definition show_int :: "int \<Rightarrow> string" where
  "show_int i = (if i < 0 then ''-'' @ show_nat (nat (- i)) else show_nat (nat i))"

text \<open>The keys of the method table are \<open>uint16_t\<close>: the lookup converts its argument.\<close>

definition StunMethodToString :: "int \<Rightarrow> string" where
  "StunMethodToString msg_type =
     (case map_of kStunMethodMap (msg_type mod 2 ^ 16) of
        Some s \<Rightarrow> s
      | None \<Rightarrow> ''UNKNOWN<'' @ show_int msg_type @ ''>'')"

section \<open>The class of a message type\<close>

definition IsStunRequestType :: "int \<Rightarrow> bool" where
  "IsStunRequestType msg_type \<longleftrightarrow> word_of_int msg_type AND kStunTypeMask = 0x000"

definition IsStunIndicationType :: "int \<Rightarrow> bool" where
  "IsStunIndicationType msg_type \<longleftrightarrow> word_of_int msg_type AND kStunTypeMask = 0x010"

definition IsStunSuccessResponseType :: "int \<Rightarrow> bool" where
  "IsStunSuccessResponseType msg_type \<longleftrightarrow> word_of_int msg_type AND kStunTypeMask = 0x100"

definition IsStunErrorResponseType :: "int \<Rightarrow> bool" where
  "IsStunErrorResponseType msg_type \<longleftrightarrow> word_of_int msg_type AND kStunTypeMask = 0x110"

definition GetStunSuccessResponseType :: "int \<Rightarrow> int" where
  "GetStunSuccessResponseType req_type = (if IsStunRequestType req_type then req_type OR 0x100 else - 1)"

definition GetStunErrorResponseType :: "int \<Rightarrow> int" where
  "GetStunErrorResponseType req_type = (if IsStunRequestType req_type then req_type OR 0x110 else - 1)"

section \<open>The value type of an attribute in each kind of message\<close>

definition DesignatedExpertRange :: "int \<Rightarrow> bool" where
  "DesignatedExpertRange attr_type \<longleftrightarrow>
     (0x4000 \<le> attr_type \<and> attr_type \<le> 0x7FFF) \<or> (0xC000 \<le> attr_type \<and> attr_type \<le> 0xFFFF)"

definition StunMessage_GetAttributeValueType :: "int \<Rightarrow> StunAttributeValueType" where
  "StunMessage_GetAttributeValueType ty =
     (if ty = attr_value kStunAttrMappedAddress then kStunAttrValueAddress
      else if ty = attr_value kStunAttrUsername then kStunAttrValueByteString
      else if ty = attr_value kStunAttrMessageIntegrity then kStunAttrValueByteString
      else if ty = attr_value kStunAttrStunErrorCode then kStunAttrValueErrorCode
      else if ty = attr_value kStunAttrUnknownAttributes then kStunAttrValueUInt16List
      else if ty = attr_value kStunAttrRealm then kStunAttrValueByteString
      else if ty = attr_value kStunAttrNonce then kStunAttrValueByteString
      else if ty = attr_value kStunAttrXorMappedAddress then kStunAttrValueXorAddress
      else if ty = attr_value kStunAttrSoftware then kStunAttrValueByteString
      else if ty = attr_value kStunAttrAlternateServer then kStunAttrValueAddress
      else if ty = attr_value kStunAttrFingerprint then kStunAttrValueUInt32
      else if ty = attr_value kStunAttrOrigin then kStunAttrValueByteString
      else if ty = attr_value kStunAttrRetransmitCount then kStunAttrValueUInt32
      else if ty = attr_value kStunAttrLastIceCheckReceived then kStunAttrValueByteString
      else if ty = attr_value kStunAttrGoodMiscInfo then kStunAttrValueUInt16List
      else kStunAttrValueUnknown)"

definition RelayMessage_GetAttributeValueType :: "int \<Rightarrow> StunAttributeValueType" where
  "RelayMessage_GetAttributeValueType ty =
     (if ty = attr_value kStunAttrLifetime then kStunAttrValueUInt32
      else if ty = attr_value kStunAttrMagicCookie then kStunAttrValueByteString
      else if ty = attr_value kStunAttrBandwidth then kStunAttrValueUInt32
      else if ty = attr_value kStunAttrDestinationAddress then kStunAttrValueAddress
      else if ty = attr_value kStunAttrSourceAddress2 then kStunAttrValueAddress
      else if ty = attr_value kStunAttrData then kStunAttrValueByteString
      else if ty = attr_value kStunAttrOptions then kStunAttrValueUInt32
      else StunMessage_GetAttributeValueType ty)"

definition TurnMessage_GetAttributeValueType :: "int \<Rightarrow> StunAttributeValueType" where
  "TurnMessage_GetAttributeValueType ty =
     (if ty = attr_value kStunAttrChannelNumber then kStunAttrValueUInt32
      else if ty = attr_value kStunAttrLifetime then kStunAttrValueUInt32
      else if ty = attr_value kStunAttrXorPeerAddress then kStunAttrValueXorAddress
      else if ty = attr_value kStunAttrData then kStunAttrValueByteString
      else if ty = attr_value kStunAttrXorRelayedAddress then kStunAttrValueXorAddress
      else if ty = attr_value kStunAttrEventPort then kStunAttrValueByteString
      else if ty = attr_value kStunAttrRequestedTransport then kStunAttrValueUInt32
      else if ty = attr_value kStunAttrDontFragment then kStunAttrValueByteString
      else if ty = attr_value kStunAttrReservationToken then kStunAttrValueByteString
      else StunMessage_GetAttributeValueType ty)"

definition IceMessage_GetAttributeValueType :: "int \<Rightarrow> StunAttributeValueType" where
  "IceMessage_GetAttributeValueType ty =
     (if ty = attr_value kStunAttrICEPriority then kStunAttrValueUInt32
      else if ty = attr_value kStunAttrICENetworkInfo then kStunAttrValueUInt32
      else if ty = attr_value kStunAttrICENomination then kStunAttrValueUInt32
      else if ty = attr_value kStunAttrICEUseCandidate then kStunAttrValueByteString
      else if ty = attr_value kStunAttrICEControlled then kStunAttrValueUInt64
      else if ty = attr_value kStunAttrICEControlling then kStunAttrValueUInt64
      else StunMessage_GetAttributeValueType ty)"

text \<open>The dynamic class of a message; the virtual call dispatches on it.\<close>

datatype MessageKind = StunMessageKind | RelayMessageKind | TurnMessageKind | IceMessageKind

primrec GetAttributeValueType :: "MessageKind \<Rightarrow> int \<Rightarrow> StunAttributeValueType" where
  "GetAttributeValueType StunMessageKind = StunMessage_GetAttributeValueType"
| "GetAttributeValueType RelayMessageKind = RelayMessage_GetAttributeValueType"
| "GetAttributeValueType TurnMessageKind = TurnMessage_GetAttributeValueType"
| "GetAttributeValueType IceMessageKind = IceMessage_GetAttributeValueType"

lemmas value_type_defs = StunMessage_GetAttributeValueType_def RelayMessage_GetAttributeValueType_def
  TurnMessage_GetAttributeValueType_def IceMessage_GetAttributeValueType_def

lemma value_type_integrity [stun_simps]:
  "GetAttributeValueType k (attr_value kStunAttrMessageIntegrity) = kStunAttrValueByteString"
  "GetAttributeValueType k (attr_value kStunAttrGoodMessageInteger32) = kStunAttrValueUnknown"
  "GetAttributeValueType k (attr_value kStunAttrFingerprint) = kStunAttrValueUInt32"
  by (cases k; simp add: value_type_defs)+

section \<open>Every message type has one class\<close>

lemma bit_class_masks:
  "bit (0x10 :: u32) n \<longleftrightarrow> n = 4" "bit (0x100 :: u32) n \<longleftrightarrow> n = 8" "bit (0x110 :: u32) n \<longleftrightarrow> n = 4 \<or> n = 8"
  "bit (0x100 :: int) n \<longleftrightarrow> n = 8" "bit (0x110 :: int) n \<longleftrightarrow> n = 4 \<or> n = 8"
proof -
  have b: "bit (2 ^ 4 :: u32) n \<longleftrightarrow> n = 4" "bit (2 ^ 8 :: u32) n \<longleftrightarrow> n = 8"
    "bit (2 ^ 4 :: int) n \<longleftrightarrow> n = 4" "bit (2 ^ 8 :: int) n \<longleftrightarrow> n = 8"
    unfolding bit_exp_iff by auto
  have "bit (2 ^ 4 OR 2 ^ 8 :: u32) n \<longleftrightarrow> n = 4 \<or> n = 8" "bit (2 ^ 4 OR 2 ^ 8 :: int) n \<longleftrightarrow> n = 4 \<or> n = 8"
    unfolding bit_or_iff b by simp_all
  with b show "bit (0x10 :: u32) n \<longleftrightarrow> n = 4" "bit (0x100 :: u32) n \<longleftrightarrow> n = 8"
    "bit (0x110 :: u32) n \<longleftrightarrow> n = 4 \<or> n = 8"
    "bit (0x100 :: int) n \<longleftrightarrow> n = 8" "bit (0x110 :: int) n \<longleftrightarrow> n = 4 \<or> n = 8"
    by simp_all
qed

lemma masked_word:
  fixes w :: u32
  shows "w AND kStunTypeMask = (if bit w 4 then 0x10 else 0) OR (if bit w 8 then 0x100 else 0)"
proof (rule bit_word_eqI)
  fix n
  show "bit (w AND kStunTypeMask) n = bit ((if bit w 4 then 0x10 else 0) OR (if bit w 8 then 0x100 else 0) :: u32) n"
    unfolding kStunTypeMask_def bit_or_iff bit_and_iff if_distrib [of "\<lambda>v. bit v n"] bit_class_masks by auto
qed

lemma class_bits:
  "IsStunRequestType t \<longleftrightarrow> \<not> bit t 4 \<and> \<not> bit t 8"
  "IsStunIndicationType t \<longleftrightarrow> bit t 4 \<and> \<not> bit t 8"
  "IsStunSuccessResponseType t \<longleftrightarrow> \<not> bit t 4 \<and> bit t 8"
  "IsStunErrorResponseType t \<longleftrightarrow> bit t 4 \<and> bit t 8"
  by (simp_all add: IsStunRequestType_def IsStunIndicationType_def IsStunSuccessResponseType_def
      IsStunErrorResponseType_def masked_word bit_simps)

text \<open>A request type gives its success and its error response type: the response has that class and the
  method bits of the request, and every other type gives -1.\<close>

lemma stun_response_types:
  "if IsStunRequestType t
   then IsStunSuccessResponseType (GetStunSuccessResponseType t) \<and> IsStunErrorResponseType (GetStunErrorResponseType t) \<and>
     (\<forall>n. n \<noteq> 4 \<and> n \<noteq> 8 \<longrightarrow> bit (GetStunSuccessResponseType t) n = bit t n \<and> bit (GetStunErrorResponseType t) n = bit t n)
   else GetStunSuccessResponseType t = - 1 \<and> GetStunErrorResponseType t = - 1"
  unfolding GetStunSuccessResponseType_def GetStunErrorResponseType_def
  by (auto simp: class_bits bit_or_iff bit_class_masks)

end
