(* ===== verification/Stun_Attribute.thy ===== *)
theory Stun_Attribute
  imports Stun_Types Byte_Buffer
begin

text \<open>
  The attribute classes of \<open>stun.h\<close> and \<open>stun.cc\<close>. An attribute is a record with the members of the base class
  and a body, one constructor per derived class; the virtual \<open>Read\<close>, \<open>Write\<close>, \<open>value_type\<close> and \<open>SetOwner\<close>
  dispatch on it. The owner of a XOR address is the message that holds the attribute or none: the body keeps
  which, and the operations that follow the pointer get the transaction id of that message. An assertion that
  fails, or an access outside an allocation, is the outer \<open>None\<close> of a result. \<open>Read\<close> gives the attribute it filled,
  or \<open>None\<close> where it returns false: its callers drop the object then.
\<close>

section \<open>Data\<close>

datatype StunAttributeBody =
    StunAddressAttribute (the_address: SocketAddress)
  | StunXorAddressAttribute (the_address: SocketAddress) (the_owner: bool)
  | StunUInt32Attribute u32
  | StunUInt64Attribute u64
  | StunByteStringAttribute "bytes option"
  | StunErrorCodeAttribute u8 u8 bytes
  | StunUInt16ListAttribute "u16 list"

record StunAttribute =
  attr_type :: u16
  attr_length :: u16
  attr_body :: StunAttributeBody

definition value_type :: "StunAttribute \<Rightarrow> StunAttributeValueType" where
  "value_type a =
     (case attr_body a of
        StunAddressAttribute _ \<Rightarrow> kStunAttrValueAddress
      | StunXorAddressAttribute _ _ \<Rightarrow> kStunAttrValueXorAddress
      | StunUInt32Attribute _ \<Rightarrow> kStunAttrValueUInt32
      | StunUInt64Attribute _ \<Rightarrow> kStunAttrValueUInt64
      | StunByteStringAttribute _ \<Rightarrow> kStunAttrValueByteString
      | StunErrorCodeAttribute _ _ _ \<Rightarrow> kStunAttrValueErrorCode
      | StunUInt16ListAttribute _ \<Rightarrow> kStunAttrValueUInt16List)"

definition SetOwner :: "bool \<Rightarrow> StunAttribute \<Rightarrow> StunAttribute" where
  "SetOwner owner a =
     (case attr_body a of
        StunXorAddressAttribute addr _ \<Rightarrow> a\<lparr>attr_body := StunXorAddressAttribute addr owner\<rparr>
      | _ \<Rightarrow> a)"

definition ConsumePadding :: "StunAttribute \<Rightarrow> ByteBufferReader \<Rightarrow> ByteBufferReader" where
  "ConsumePadding a buf =
     (let remainder = unat (attr_length a) mod 4
      in if remainder > 0 then snd (Consume (4 - remainder) buf) else buf)"

definition WritePadding :: "StunAttribute \<Rightarrow> BufferT \<Rightarrow> BufferT" where
  "WritePadding a buf =
     (let remainder = unat (attr_length a) mod 4
      in if remainder > 0 then WriteBytes (replicate (4 - remainder) 0) buf else buf)"

section \<open>Addresses\<close>

definition SIZE_UNDEF :: u16 where "SIZE_UNDEF = 0"
definition SIZE_IP4 :: u16 where "SIZE_IP4 = 8"
definition SIZE_IP6 :: u16 where "SIZE_IP6 = 20"

definition stun_family :: "SocketAddress \<Rightarrow> StunAddressFamily" where
  "stun_family addr =
     (case ip_family (sa_ip addr) of
        AF_INET \<Rightarrow> kStunAddressIpv4
      | AF_INET6 \<Rightarrow> kStunAddressIpv6
      | AF_UNSPEC \<Rightarrow> kStunAddressUndef)"

definition EnsureAddressLength :: "StunAttribute \<Rightarrow> StunAttribute" where
  "EnsureAddressLength a =
     (case stun_family (the_address (attr_body a)) of
        kStunAddressIpv4 \<Rightarrow> a\<lparr>attr_length := SIZE_IP4\<rparr>
      | kStunAddressIpv6 \<Rightarrow> a\<lparr>attr_length := SIZE_IP6\<rparr>
      | kStunAddressUndef \<Rightarrow> a\<lparr>attr_length := SIZE_UNDEF\<rparr>)"

fun put_address :: "SocketAddress \<Rightarrow> StunAttributeBody \<Rightarrow> StunAttributeBody" where
  "put_address addr (StunXorAddressAttribute _ owner) = StunXorAddressAttribute addr owner"
| "put_address addr (StunAddressAttribute _) = StunAddressAttribute addr"
| "put_address addr b = b"

definition SetAddress :: "SocketAddress \<Rightarrow> StunAttribute \<Rightarrow> StunAttribute" where
  "SetAddress addr a = EnsureAddressLength (a\<lparr>attr_body := put_address addr (attr_body a)\<rparr>)"

definition StunAddressAttribute_SetIP :: "IPAddress \<Rightarrow> StunAttribute \<Rightarrow> StunAttribute" where
  "StunAddressAttribute_SetIP ip a =
     EnsureAddressLength (a\<lparr>attr_body := put_address (SetIP ip (the_address (attr_body a))) (attr_body a)\<rparr>)"

definition StunAddressAttribute_SetPort :: "u16 \<Rightarrow> StunAttribute \<Rightarrow> StunAttribute option" where
  "StunAddressAttribute_SetPort port a =
     (case SetPort (uint port) (the_address (attr_body a)) of
        None \<Rightarrow> None
      | Some addr \<Rightarrow> Some (a\<lparr>attr_body := put_address addr (attr_body a)\<rparr>))"

definition new_StunAddressAttribute :: "u16 \<Rightarrow> SocketAddress \<Rightarrow> StunAttribute" where
  "new_StunAddressAttribute ty addr =
     SetAddress addr \<lparr>attr_type = ty, attr_length = 0, attr_body = StunAddressAttribute SocketAddress_nil\<rparr>"

definition new_StunXorAddressAttribute :: "u16 \<Rightarrow> SocketAddress \<Rightarrow> StunAttribute" where
  "new_StunXorAddressAttribute ty addr =
     SetAddress addr \<lparr>attr_type = ty, attr_length = 0, attr_body = StunXorAddressAttribute SocketAddress_nil False\<rparr>"

definition StunAddressAttribute_Read ::
  "StunAttribute \<Rightarrow> ByteBufferReader \<Rightarrow> (StunAttribute option \<times> ByteBufferReader) option" where
  "StunAddressAttribute_Read a buf =
     (case ReadUInt8 buf of
        (None, buf) \<Rightarrow> Some (None, buf)
      | (Some dummy, buf) \<Rightarrow>
     (case ReadUInt8 buf of
        (None, buf) \<Rightarrow> Some (None, buf)
      | (Some family, buf) \<Rightarrow>
     (case ReadUInt16 buf of
        (None, buf) \<Rightarrow> Some (None, buf)
      | (Some port, buf) \<Rightarrow>
          if uint family = family_code kStunAddressIpv4 then
            (if attr_length a \<noteq> SIZE_IP4 then Some (None, buf)
             else (case ReadBytes 4 buf of
                     (None, buf) \<Rightarrow> Some (None, buf)
                   | (Some v4addr, buf) \<Rightarrow>
                       map_option (\<lambda>addr. (Some (SetAddress addr a), buf))
                         (SocketAddress_of_ip (IPAddress_v4 v4addr) (uint port))))
          else if uint family = family_code kStunAddressIpv6 then
            (if attr_length a \<noteq> SIZE_IP6 then Some (None, buf)
             else (case ReadBytes 16 buf of
                     (None, buf) \<Rightarrow> Some (None, buf)
                   | (Some v6addr, buf) \<Rightarrow>
                       map_option (\<lambda>addr. (Some (SetAddress addr a), buf))
                         (SocketAddress_of_ip (IPAddress_v6 v6addr) (uint port))))
          else Some (None, buf))))"

definition StunAddressAttribute_Write :: "StunAttribute \<Rightarrow> BufferT \<Rightarrow> bool \<times> BufferT" where
  "StunAddressAttribute_Write a buf =
     (let address_family = stun_family (the_address (attr_body a)) in
      if address_family = kStunAddressUndef then (False, buf)
      else
        (let buf = WriteUInt8 0 buf;
             buf = WriteUInt8 (word_of_int (family_code address_family)) buf;
             buf = WriteUInt16 (sa_port (the_address (attr_body a))) buf
         in (case ip_family (sa_ip (the_address (attr_body a))) of
               AF_INET \<Rightarrow> (True, WriteBytes (ipv4_address (sa_ip (the_address (attr_body a)))) buf)
             | AF_INET6 \<Rightarrow> (True, WriteBytes (ipv6_address (sa_ip (the_address (attr_body a)))) buf)
             | AF_UNSPEC \<Rightarrow> (True, buf))))"

section \<open>Addresses under the magic cookie and the transaction id\<close>

text \<open>The words of \<open>bs\<close> as the host loads them.\<close>

definition obj_word :: "bytes \<Rightarrow> nat \<Rightarrow> u32" where
  "obj_word bs i = obj_load (take 4 (drop (4 * i) bs))"

definition GetXoredIP :: "bytes \<Rightarrow> StunAttribute \<Rightarrow> IPAddress" where
  "GetXoredIP transaction_id a =
     (if the_owner (attr_body a) then
        (let ip = sa_ip (the_address (attr_body a)) in
         (case ip_family ip of
            AF_INET \<Rightarrow>
              IPAddress_v4 (obj_bytes 4 (obj_load (ipv4_address ip) XOR HostToNetwork32 kStunMagicCookie))
          | AF_INET6 \<Rightarrow>
              (let v6addr = ipv6_address ip in
               if length transaction_id = kStunTransactionIdLength
               then IPAddress_v6
                      (obj_bytes 4 (obj_word v6addr 0 XOR HostToNetwork32 kStunMagicCookie) @
                       obj_bytes 4 (obj_word v6addr 1 XOR obj_word transaction_id 0) @
                       obj_bytes 4 (obj_word v6addr 2 XOR obj_word transaction_id 1) @
                       obj_bytes 4 (obj_word v6addr 3 XOR obj_word transaction_id 2))
               else IPAddress_nil)
          | AF_UNSPEC \<Rightarrow> IPAddress_nil))
      else IPAddress_nil)"

definition StunXorAddressAttribute_Read ::
  "bytes \<Rightarrow> StunAttribute \<Rightarrow> ByteBufferReader \<Rightarrow> (StunAttribute option \<times> ByteBufferReader) option" where
  "StunXorAddressAttribute_Read transaction_id a buf =
     (case StunAddressAttribute_Read a buf of
        None \<Rightarrow> None
      | Some (None, buf) \<Rightarrow> Some (None, buf)
      | Some (Some a, buf) \<Rightarrow>
          (let xoredport = ucast (ucast (sa_port (the_address (attr_body a))) XOR drop_bit 16 kStunMagicCookie) :: u16;
               xored_ip = GetXoredIP transaction_id a
           in map_option (\<lambda>addr. (Some (SetAddress addr a), buf)) (SocketAddress_of_ip xored_ip (uint xoredport))))"

definition StunXorAddressAttribute_Write :: "bytes \<Rightarrow> StunAttribute \<Rightarrow> BufferT \<Rightarrow> bool \<times> BufferT" where
  "StunXorAddressAttribute_Write transaction_id a buf =
     (let address_family = stun_family (the_address (attr_body a)) in
      if address_family = kStunAddressUndef then (False, buf)
      else
        (let xored_ip = GetXoredIP transaction_id a in
         if ip_family xored_ip = AF_UNSPEC then (False, buf)
         else
           (let buf = WriteUInt8 0 buf;
                buf = WriteUInt8 (word_of_int (family_code address_family)) buf;
                buf = WriteUInt16
                  (ucast (ucast (sa_port (the_address (attr_body a))) XOR drop_bit 16 kStunMagicCookie)) buf
            in (case ip_family xored_ip of
                  AF_INET \<Rightarrow> (True, WriteBytes (ipv4_address xored_ip) buf)
                | AF_INET6 \<Rightarrow> (True, WriteBytes (ipv6_address xored_ip) buf)
                | AF_UNSPEC \<Rightarrow> (True, buf)))))"

section \<open>Integers\<close>

definition UInt32_SIZE :: u16 where "UInt32_SIZE = 4"
definition UInt64_SIZE :: u16 where "UInt64_SIZE = 8"

definition new_StunUInt32Attribute :: "u16 \<Rightarrow> u32 \<Rightarrow> StunAttribute" where
  "new_StunUInt32Attribute ty val = \<lparr>attr_type = ty, attr_length = UInt32_SIZE, attr_body = StunUInt32Attribute val\<rparr>"

definition new_StunUInt64Attribute :: "u16 \<Rightarrow> u64 \<Rightarrow> StunAttribute" where
  "new_StunUInt64Attribute ty val = \<lparr>attr_type = ty, attr_length = UInt64_SIZE, attr_body = StunUInt64Attribute val\<rparr>"

definition GetBit :: "nat \<Rightarrow> u32 \<Rightarrow> bool option" where
  "GetBit index bits = (if index < 32 then Some (drop_bit index bits AND 0x1 \<noteq> 0) else None)"

definition SetBit :: "nat \<Rightarrow> bool \<Rightarrow> u32 \<Rightarrow> u32 option" where
  "SetBit index val bits =
     (if index < 32
      then Some ((bits AND NOT (push_bit index 1)) OR (if val then push_bit index 1 else 0))
      else None)"

definition StunUInt32Attribute_Read :: "StunAttribute \<Rightarrow> ByteBufferReader \<Rightarrow> StunAttribute option \<times> ByteBufferReader" where
  "StunUInt32Attribute_Read a buf =
     (if attr_length a \<noteq> UInt32_SIZE then (None, buf)
      else (case ReadUInt32 buf of
              (None, buf) \<Rightarrow> (None, buf)
            | (Some bits, buf) \<Rightarrow> (Some (a\<lparr>attr_body := StunUInt32Attribute bits\<rparr>), buf)))"

definition StunUInt64Attribute_Read :: "StunAttribute \<Rightarrow> ByteBufferReader \<Rightarrow> StunAttribute option \<times> ByteBufferReader" where
  "StunUInt64Attribute_Read a buf =
     (if attr_length a \<noteq> UInt64_SIZE then (None, buf)
      else (case ReadUInt64 buf of
              (None, buf) \<Rightarrow> (None, buf)
            | (Some bits, buf) \<Rightarrow> (Some (a\<lparr>attr_body := StunUInt64Attribute bits\<rparr>), buf)))"

section \<open>Byte strings\<close>

definition SetBytes :: "bytes \<Rightarrow> nat \<Rightarrow> StunAttribute \<Rightarrow> StunAttribute" where
  "SetBytes bs len a = a\<lparr>attr_length := of_nat len, attr_body := StunByteStringAttribute (Some bs)\<rparr>"

definition CopyBytes :: "bytes \<Rightarrow> StunAttribute \<Rightarrow> StunAttribute" where
  "CopyBytes bs a = SetBytes bs (length bs) a"

text \<open>The overload for a C string: the bytes before the terminator.\<close>

definition CopyBytes_cstr :: "bytes \<Rightarrow> StunAttribute \<Rightarrow> StunAttribute" where
  "CopyBytes_cstr bs a = CopyBytes (takeWhile (\<lambda>b. b \<noteq> 0) bs) a"

definition new_StunByteStringAttribute :: "u16 \<Rightarrow> bytes \<Rightarrow> StunAttribute" where
  "new_StunByteStringAttribute ty str =
     CopyBytes str \<lparr>attr_type = ty, attr_length = 0, attr_body = StunByteStringAttribute None\<rparr>"

definition GetByte :: "nat \<Rightarrow> StunAttribute \<Rightarrow> u8 option" where
  "GetByte index a =
     (case attr_body a of
        StunByteStringAttribute (Some bs) \<Rightarrow>
          if index < unat (attr_length a) \<and> index < length bs then Some (bs ! index) else None
      | _ \<Rightarrow> None)"

definition SetByte :: "nat \<Rightarrow> u8 \<Rightarrow> StunAttribute \<Rightarrow> StunAttribute option" where
  "SetByte index val a =
     (case attr_body a of
        StunByteStringAttribute (Some bs) \<Rightarrow>
          if index < unat (attr_length a) \<and> index < length bs
          then Some (a\<lparr>attr_body := StunByteStringAttribute (Some (bs[index := val]))\<rparr>) else None
      | _ \<Rightarrow> None)"

definition StunByteStringAttribute_Read :: "StunAttribute \<Rightarrow> ByteBufferReader \<Rightarrow> StunAttribute option \<times> ByteBufferReader" where
  "StunByteStringAttribute_Read a buf =
     (case ReadBytes (unat (attr_length a)) buf of
        (None, buf) \<Rightarrow> (None, buf)
      | (Some bs, buf) \<Rightarrow> (Some (a\<lparr>attr_body := StunByteStringAttribute (Some bs)\<rparr>), ConsumePadding a buf))"

definition StunByteStringAttribute_Write :: "bytes option \<Rightarrow> StunAttribute \<Rightarrow> BufferT \<Rightarrow> (bool \<times> BufferT) option" where
  "StunByteStringAttribute_Write bs a buf =
     (let stored = (case bs of None \<Rightarrow> [] | Some b \<Rightarrow> b) in
      if unat (attr_length a) \<le> length stored
      then Some (True, WritePadding a (WriteBytes (take (unat (attr_length a)) stored) buf))
      else None)"

section \<open>Error codes\<close>

definition ErrorCode_MIN_SIZE :: u16 where "ErrorCode_MIN_SIZE = 4"

definition error_code :: "u8 \<Rightarrow> u8 \<Rightarrow> int" where
  "error_code eclass number = uint eclass * 100 + uint number"

text \<open>Division and remainder of \<open>int\<close> truncate towards zero.\<close>

definition error_class_number :: "int \<Rightarrow> u8 \<times> u8" where
  "error_class_number code =
     (word_of_int (sgn code * (\<bar>code\<bar> div 100)), word_of_int (sgn code * (\<bar>code\<bar> mod 100)))"

definition SetReason :: "bytes \<Rightarrow> StunAttribute \<Rightarrow> StunAttribute" where
  "SetReason reason a =
     (case attr_body a of
        StunErrorCodeAttribute c n _ \<Rightarrow>
          a\<lparr>attr_length := ErrorCode_MIN_SIZE + of_nat (length reason), attr_body := StunErrorCodeAttribute c n reason\<rparr>
      | _ \<Rightarrow> a)"

definition SetCode :: "int \<Rightarrow> StunAttribute \<Rightarrow> StunAttribute" where
  "SetCode code a =
     (case attr_body a of
        StunErrorCodeAttribute _ _ reason \<Rightarrow>
          (case error_class_number code of (c, n) \<Rightarrow> a\<lparr>attr_body := StunErrorCodeAttribute c n reason\<rparr>)
      | _ \<Rightarrow> a)"

text \<open>The class and number of a new object are set by \<open>SetCode\<close> at once, from whatever the memory held.\<close>

definition new_StunErrorCodeAttribute :: "u16 \<Rightarrow> int \<Rightarrow> bytes \<Rightarrow> StunAttribute" where
  "new_StunErrorCodeAttribute ty code reason =
     SetReason reason (SetCode code \<lparr>attr_type = ty, attr_length = 0, attr_body = StunErrorCodeAttribute 0 0 []\<rparr>)"

definition StunErrorCodeAttribute_Read :: "StunAttribute \<Rightarrow> ByteBufferReader \<Rightarrow> StunAttribute option \<times> ByteBufferReader" where
  "StunErrorCodeAttribute_Read a buf =
     (if attr_length a < ErrorCode_MIN_SIZE then (None, buf)
      else (case ReadUInt32 buf of
              (None, buf) \<Rightarrow> (None, buf)
            | (Some val, buf) \<Rightarrow>
                (let eclass = ucast (drop_bit 8 val AND 0x7) :: u8;
                     number = ucast (val AND 0xff) :: u8
                 in (case ReadString (unat (attr_length a) - 4) buf of
                       (None, buf) \<Rightarrow> (None, buf)
                     | (Some reason, buf) \<Rightarrow>
                         (Some (a\<lparr>attr_body := StunErrorCodeAttribute eclass number reason\<rparr>), ConsumePadding a buf)))))"

definition StunErrorCodeAttribute_Write :: "u8 \<Rightarrow> u8 \<Rightarrow> bytes \<Rightarrow> StunAttribute \<Rightarrow> BufferT \<Rightarrow> bool \<times> BufferT" where
  "StunErrorCodeAttribute_Write eclass number reason a buf =
     (True, WritePadding a (WriteString reason (WriteUInt32 (push_bit 8 (ucast eclass) OR ucast number) buf)))"

section \<open>Lists of 16-bit values\<close>

definition ListAttr_GetType :: "int \<Rightarrow> u16 list \<Rightarrow> u16 option" where
  "ListAttr_GetType index attr_types =
     (if 0 \<le> index \<and> nat index < length attr_types then Some (attr_types ! nat index) else None)"

definition ListAttr_SetType :: "int \<Rightarrow> u16 \<Rightarrow> u16 list \<Rightarrow> u16 list option" where
  "ListAttr_SetType index val attr_types =
     (if 0 \<le> index \<and> nat index < length attr_types then Some (attr_types[nat index := val]) else None)"

definition put_types :: "u16 list \<Rightarrow> StunAttribute \<Rightarrow> StunAttribute" where
  "put_types attr_types a =
     a\<lparr>attr_length := of_nat (length attr_types * 2), attr_body := StunUInt16ListAttribute attr_types\<rparr>"

definition AddType :: "u16 \<Rightarrow> StunAttribute \<Rightarrow> StunAttribute" where
  "AddType val a =
     (case attr_body a of StunUInt16ListAttribute ts \<Rightarrow> put_types (ts @ [val]) a | _ \<Rightarrow> a)"

definition AddTypeAtIndex :: "u16 \<Rightarrow> u16 \<Rightarrow> StunAttribute \<Rightarrow> StunAttribute" where
  "AddTypeAtIndex index val a =
     (case attr_body a of
        StunUInt16ListAttribute ts \<Rightarrow>
          (let ts = (if length ts < unat index + 1 then ts @ replicate (unat index + 1 - length ts) 0 else ts)
           in put_types (ts[unat index := val]) a)
      | _ \<Rightarrow> a)"

primrec read_types :: "nat \<Rightarrow> u16 list \<Rightarrow> ByteBufferReader \<Rightarrow> u16 list option \<times> ByteBufferReader" where
  "read_types 0 attr_types buf = (Some attr_types, buf)"
| "read_types (Suc n) attr_types buf =
     (case ReadUInt16 buf of
        (None, buf) \<Rightarrow> (None, buf)
      | (Some attr, buf) \<Rightarrow> read_types n (attr_types @ [attr]) buf)"

definition StunUInt16ListAttribute_Read ::
  "u16 list \<Rightarrow> StunAttribute \<Rightarrow> ByteBufferReader \<Rightarrow> StunAttribute option \<times> ByteBufferReader" where
  "StunUInt16ListAttribute_Read attr_types a buf =
     (if unat (attr_length a) mod 2 \<noteq> 0 then (None, buf)
      else (case read_types (unat (attr_length a) div 2) attr_types buf of
              (None, buf) \<Rightarrow> (None, buf)
            | (Some ts, buf) \<Rightarrow> (Some (a\<lparr>attr_body := StunUInt16ListAttribute ts\<rparr>), ConsumePadding a buf)))"

definition StunUInt16ListAttribute_Write :: "u16 list \<Rightarrow> StunAttribute \<Rightarrow> BufferT \<Rightarrow> bool \<times> BufferT" where
  "StunUInt16ListAttribute_Write attr_types a buf = (True, WritePadding a (fold WriteUInt16 attr_types buf))"

section \<open>The virtual operations and the factory\<close>

definition StunAttribute_Read ::
  "bytes \<Rightarrow> StunAttribute \<Rightarrow> ByteBufferReader \<Rightarrow> (StunAttribute option \<times> ByteBufferReader) option" where
  "StunAttribute_Read transaction_id a buf =
     (case attr_body a of
        StunAddressAttribute _ \<Rightarrow> StunAddressAttribute_Read a buf
      | StunXorAddressAttribute _ _ \<Rightarrow> StunXorAddressAttribute_Read transaction_id a buf
      | StunUInt32Attribute _ \<Rightarrow> Some (StunUInt32Attribute_Read a buf)
      | StunUInt64Attribute _ \<Rightarrow> Some (StunUInt64Attribute_Read a buf)
      | StunByteStringAttribute _ \<Rightarrow> Some (StunByteStringAttribute_Read a buf)
      | StunErrorCodeAttribute _ _ _ \<Rightarrow> Some (StunErrorCodeAttribute_Read a buf)
      | StunUInt16ListAttribute ts \<Rightarrow> Some (StunUInt16ListAttribute_Read ts a buf))"

definition StunAttribute_Write :: "bytes \<Rightarrow> StunAttribute \<Rightarrow> BufferT \<Rightarrow> (bool \<times> BufferT) option" where
  "StunAttribute_Write transaction_id a buf =
     (case attr_body a of
        StunAddressAttribute _ \<Rightarrow> Some (StunAddressAttribute_Write a buf)
      | StunXorAddressAttribute _ _ \<Rightarrow> Some (StunXorAddressAttribute_Write transaction_id a buf)
      | StunUInt32Attribute bits \<Rightarrow> Some (True, WriteUInt32 bits buf)
      | StunUInt64Attribute bits \<Rightarrow> Some (True, WriteUInt64 bits buf)
      | StunByteStringAttribute bs \<Rightarrow> StunByteStringAttribute_Write bs a buf
      | StunErrorCodeAttribute c n reason \<Rightarrow> Some (StunErrorCodeAttribute_Write c n reason a buf)
      | StunUInt16ListAttribute ts \<Rightarrow> Some (StunUInt16ListAttribute_Write ts a buf))"

definition StunAttribute_Create :: "StunAttributeValueType \<Rightarrow> u16 \<Rightarrow> u16 \<Rightarrow> bool \<Rightarrow> StunAttribute option" where
  "StunAttribute_Create vt ty len owner =
     (let new = (\<lambda>n body. Some \<lparr>attr_type = ty, attr_length = n, attr_body = body\<rparr>) in
      (case vt of
         kStunAttrValueAddress \<Rightarrow> new len (StunAddressAttribute SocketAddress_nil)
       | kStunAttrValueXorAddress \<Rightarrow> new len (StunXorAddressAttribute SocketAddress_nil owner)
       | kStunAttrValueUInt32 \<Rightarrow> new UInt32_SIZE (StunUInt32Attribute 0)
       | kStunAttrValueUInt64 \<Rightarrow> new UInt64_SIZE (StunUInt64Attribute 0)
       | kStunAttrValueByteString \<Rightarrow> new len (StunByteStringAttribute None)
       | kStunAttrValueErrorCode \<Rightarrow> new len (StunErrorCodeAttribute 0 0 [])
       | kStunAttrValueUInt16List \<Rightarrow> new len (StunUInt16ListAttribute [])
       | kStunAttrValueUnknown \<Rightarrow> None))"

definition CreateAddress :: "u16 \<Rightarrow> StunAttribute" where
  "CreateAddress ty = \<lparr>attr_type = ty, attr_length = 0, attr_body = StunAddressAttribute SocketAddress_nil\<rparr>"

definition CreateXorAddress :: "u16 \<Rightarrow> StunAttribute" where
  "CreateXorAddress ty = \<lparr>attr_type = ty, attr_length = 0, attr_body = StunXorAddressAttribute SocketAddress_nil False\<rparr>"

definition CreateUInt32 :: "u16 \<Rightarrow> StunAttribute" where
  "CreateUInt32 ty = new_StunUInt32Attribute ty 0"

definition CreateUInt64 :: "u16 \<Rightarrow> StunAttribute" where
  "CreateUInt64 ty = new_StunUInt64Attribute ty 0"

definition CreateByteString :: "u16 \<Rightarrow> StunAttribute" where
  "CreateByteString ty = \<lparr>attr_type = ty, attr_length = 0, attr_body = StunByteStringAttribute None\<rparr>"

definition CreateErrorCode :: StunAttribute where
  "CreateErrorCode =
     \<lparr>attr_type = word_of_int (attr_value kStunAttrStunErrorCode), attr_length = ErrorCode_MIN_SIZE,
      attr_body = StunErrorCodeAttribute 0 0 []\<rparr>"

definition CreateUInt16ListAttribute :: "u16 \<Rightarrow> StunAttribute" where
  "CreateUInt16ListAttribute ty = \<lparr>attr_type = ty, attr_length = 0, attr_body = StunUInt16ListAttribute []\<rparr>"

definition CreateUnknownAttributes :: StunAttribute where
  "CreateUnknownAttributes = CreateUInt16ListAttribute (word_of_int (attr_value kStunAttrUnknownAttributes))"

section \<open>Well-formed attributes and their encoding\<close>

text \<open>An address with no host name and no scope, which is what the wire can carry.\<close>

definition plain_address :: "SocketAddress \<Rightarrow> bool" where
  "plain_address addr \<longleftrightarrow> hostname addr = [] \<and> \<not> literal addr \<and> scope_id addr = 0 \<and> ip_ok (sa_ip addr) \<and>
     ip_family (sa_ip addr) \<noteq> AF_UNSPEC"

definition address_size :: "SocketAddress \<Rightarrow> u16" where
  "address_size addr = (if ip_family (sa_ip addr) = AF_INET then 8 else 20)"

fun body_ok :: "bytes \<Rightarrow> u16 \<Rightarrow> StunAttributeBody \<Rightarrow> bool" where
  "body_ok tid len (StunAddressAttribute addr) \<longleftrightarrow> plain_address addr \<and> len = address_size addr"
| "body_ok tid len (StunXorAddressAttribute addr owner) \<longleftrightarrow>
     plain_address addr \<and> len = address_size addr \<and> owner \<and> (ip_family (sa_ip addr) \<noteq> AF_INET \<longrightarrow> length tid = 12)"
| "body_ok tid len (StunUInt32Attribute v) \<longleftrightarrow> len = 4"
| "body_ok tid len (StunUInt64Attribute v) \<longleftrightarrow> len = 8"
| "body_ok tid len (StunByteStringAttribute bs) \<longleftrightarrow> (\<exists>b. bs = Some b \<and> unat len = length b)"
| "body_ok tid len (StunErrorCodeAttribute c n reason) \<longleftrightarrow> c < 8 \<and> unat len = 4 + length reason"
| "body_ok tid len (StunUInt16ListAttribute ts) \<longleftrightarrow> unat len = 2 * length ts"

definition attr_ok :: "bytes \<Rightarrow> StunAttribute \<Rightarrow> bool" where
  "attr_ok tid a \<longleftrightarrow> body_ok tid (attr_length a) (attr_body a)"

definition octets :: "IPAddress \<Rightarrow> bytes" where
  "octets ip = (if ip_family ip = AF_INET then ipv4_address ip else ipv6_address ip)"

definition padding :: "nat \<Rightarrow> bytes" where
  "padding n = replicate (pad4 n - n) 0"

fun body_wire :: "bytes \<Rightarrow> StunAttributeBody \<Rightarrow> bytes" where
  "body_wire tid (StunAddressAttribute addr) =
     [0, if ip_family (sa_ip addr) = AF_INET then 1 else 2] @ be_bytes 2 (sa_port addr) @ octets (sa_ip addr)"
| "body_wire tid (StunXorAddressAttribute addr owner) =
     [0, if ip_family (sa_ip addr) = AF_INET then 1 else 2] @ be_bytes 2 (sa_port addr XOR 0x2112) @
       map2 (XOR) (octets (sa_ip addr)) (be_bytes 4 kStunMagicCookie @ tid)"
| "body_wire tid (StunUInt32Attribute v) = be_bytes 4 v"
| "body_wire tid (StunUInt64Attribute v) = be_bytes 8 v"
| "body_wire tid (StunByteStringAttribute bs) = (case bs of None \<Rightarrow> [] | Some b \<Rightarrow> b @ padding (length b))"
| "body_wire tid (StunErrorCodeAttribute c n reason) = [0, 0, c, n] @ reason @ padding (length reason)"
| "body_wire tid (StunUInt16ListAttribute ts) = concat (map (be_bytes 2) ts) @ padding (2 * length ts)"

lemma length_octets: "ip_ok ip \<Longrightarrow> length (octets ip) = (if ip_family ip = AF_INET then 4 else 16)"
  by (simp add: octets_def ip_ok_def ipv4_address_def ipv6_address_def)

lemma pad4_add4: "pad4 (4 + n) = 4 + pad4 n"
  by (simp add: pad4_def)

lemma length_padding: "length (padding n) = pad4 n - n"
  by (simp add: padding_def)

lemma length_types: "length (concat (map (be_bytes 2) (ts :: u16 list))) = 2 * length ts"
  by (induction ts) simp_all

lemma length_body_wire: "body_ok tid len b \<Longrightarrow> length (body_wire tid b) = pad4 (unat len)"
  using pad4_ge [of "length (case b of StunErrorCodeAttribute _ _ r \<Rightarrow> r | _ \<Rightarrow> [])"]
  by (cases b)
    (auto simp: plain_address_def address_size_def length_octets length_padding pad4_add4 pad4_ge length_types min_def
      split: if_splits)

section \<open>Exclusive or of object representations\<close>

lemma le_bytes_xor: "le_bytes n (a XOR b) = map2 (XOR) (le_bytes n a) (le_bytes n (b :: 'a::len word))"
proof -
  have "ucast (drop_bit k (a XOR b)) = (ucast (drop_bit k a) XOR ucast (drop_bit k b) :: u8)" for k
    by (rule bit_word_eqI) (auto simp: bit_simps)
  then show ?thesis by (intro nth_equalityI) (simp_all add: le_bytes_def)
qed

lemma obj_bytes_xor: "obj_bytes n (a XOR b) = map2 (XOR) (obj_bytes n a) (obj_bytes n (b :: 'a::len word))"
  by (simp add: obj_bytes_def le_bytes_xor rev_map zip_rev)

lemma obj_bytes_load: "8 * length bs = LENGTH('a::len) \<Longrightarrow> obj_bytes (length bs) (obj_load bs :: 'a word) = bs"
  using le_bytes_le_load [where 'a = 'a and bs = bs] le_bytes_le_load [where 'a = 'a and bs = "rev bs"]
  by (simp add: obj_bytes_def obj_load_def)

lemma obj_word_xor:
  "length xs = 4 \<Longrightarrow> length ys = 4 \<Longrightarrow> obj_bytes 4 ((obj_load xs :: u32) XOR obj_load ys) = map2 (XOR) xs ys"
  "length xs = 4 \<Longrightarrow> obj_bytes 4 (obj_load xs XOR HostToNetwork32 c) = map2 (XOR) xs (be_bytes 4 c)"
  using obj_bytes_load [of xs, where 'a = 32] obj_bytes_load [of ys, where 'a = 32]
  by (simp_all add: obj_bytes_xor HostToNetwork_wire)

section \<open>Writing gives the encoding\<close>

lemma WritePadding_data: "buf_data (WritePadding a w) = buf_data w @ padding (unat (attr_length a))"
  by (simp add: WritePadding_def padding_def pad4_def buf_data_writes)

lemma fold_write_types: "buf_data (fold WriteUInt16 ts w) = buf_data w @ concat (map (be_bytes 2) ts)"
  using u16_codec.wr_all_enc [of ts w] by simp

lemma error_word_bytes: "be_bytes 4 (push_bit 8 (ucast (c :: u8)) OR ucast (n :: u8) :: u32) = [0, 0, c, n]"
proof -
  have "ucast (drop_bit 8 (push_bit 8 (ucast c) OR ucast n :: u32)) = c"
    "ucast (push_bit 8 (ucast c) OR ucast n :: u32) = n"
    "ucast (drop_bit 16 (push_bit 8 (ucast c) OR ucast n :: u32)) = (0 :: u8)"
    "ucast (drop_bit 24 (push_bit 8 (ucast c) OR ucast n :: u32)) = (0 :: u8)"
    by (rule bit_word_eqI; auto simp: bit_simps dest: bit_imp_le_length)+
  then show ?thesis by (simp add: be_bytes_def le_bytes_def numeral_eq_Suc)
qed

lemma cookie_port: "ucast (ucast (p :: u16) XOR drop_bit 16 kStunMagicCookie :: u32) = p XOR 0x2112"
proof -
  have "drop_bit 16 kStunMagicCookie = ucast (0x2112 :: u16)" by (simp add: kStunMagicCookie_def)
  moreover have "ucast (ucast p XOR ucast q :: u32) = p XOR q" for q :: u16
    by (rule bit_word_eqI) (auto simp: bit_simps)
  ultimately show ?thesis by (simp only:)
qed

lemma split_words:
  "length xs = 16 \<Longrightarrow> xs = take 4 xs @ take 4 (drop 4 xs) @ take 4 (drop 8 xs) @ take 4 (drop 12 xs)"
  "length ys = 12 \<Longrightarrow> ys = take 4 ys @ take 4 (drop 4 ys) @ take 4 (drop 8 ys)"
  using append_take_drop_id [of 4 "drop 4 xs"] append_take_drop_id [of 4 "drop 8 xs"]
    append_take_drop_id [of 4 "drop 4 ys"] append_take_drop_id [of 4 xs] append_take_drop_id [of 4 ys]
  by (simp_all del: append_take_drop_id)

lemma xor_words_4:
  assumes "length xs = 16" "length ys = 12"
  shows "obj_bytes 4 (obj_word xs 0 XOR HostToNetwork32 c) @ obj_bytes 4 (obj_word xs 1 XOR obj_word ys 0) @
      obj_bytes 4 (obj_word xs 2 XOR obj_word ys 1) @ obj_bytes 4 (obj_word xs 3 XOR obj_word ys 2) =
    map2 (XOR) xs (be_bytes 4 c @ ys)"
proof -
  let ?w = "\<lambda>i bs. take 4 (drop i bs)"
  have x: "xs = ?w 0 xs @ ?w 4 xs @ ?w 8 xs @ ?w 12 xs" and y: "ys = ?w 0 ys @ ?w 4 ys @ ?w 8 ys"
    using split_words(1) [OF assms(1)] split_words(2) [OF assms(2)] by (simp_all only: drop_0)
  have "obj_bytes 4 (obj_word xs 0 XOR HostToNetwork32 c) = map2 (XOR) (?w 0 xs) (be_bytes 4 c)"
    "obj_bytes 4 (obj_word xs 1 XOR obj_word ys 0) = map2 (XOR) (?w 4 xs) (?w 0 ys)"
    "obj_bytes 4 (obj_word xs 2 XOR obj_word ys 1) = map2 (XOR) (?w 8 xs) (?w 4 ys)"
    "obj_bytes 4 (obj_word xs 3 XOR obj_word ys 2) = map2 (XOR) (?w 12 xs) (?w 8 ys)"
    unfolding obj_word_def using assms by (simp_all add: obj_word_xor)
  moreover have "map2 (XOR) xs (be_bytes 4 c @ ys) =
      map2 (XOR) (?w 0 xs @ ?w 4 xs @ ?w 8 xs @ ?w 12 xs) (be_bytes 4 c @ ?w 0 ys @ ?w 4 ys @ ?w 8 ys)"
    using x y by (simp only:)
  ultimately show ?thesis
    using assms by (simp add: zip_append)
qed

lemma map2_xor_twice: "length xs \<le> length ks \<Longrightarrow> map2 (XOR) (map2 (XOR) xs ks) ks = (xs :: bytes)"
  by (induction xs ks rule: list_induct2') (simp_all add: xor.assoc)

text \<open>The address the standard puts on the wire: the octets under the magic cookie and the transaction id.\<close>

definition xor_ip :: "bytes \<Rightarrow> IPAddress \<Rightarrow> IPAddress" where
  "xor_ip tid ip =
     (if ip_family ip = AF_INET then IPAddress_v4 (map2 (XOR) (octets ip) (be_bytes 4 kStunMagicCookie @ tid))
      else IPAddress_v6 (map2 (XOR) (octets ip) (be_bytes 4 kStunMagicCookie @ tid)))"

lemma GetXoredIP_eq:
  assumes "attr_body a = StunXorAddressAttribute addr True" "ip_ok (sa_ip addr)" "ip_family (sa_ip addr) \<noteq> AF_UNSPEC"
    and "ip_family (sa_ip addr) \<noteq> AF_INET \<longrightarrow> length tid = 12"
  shows "GetXoredIP tid a = xor_ip tid (sa_ip addr)"
proof (cases "ip_family (sa_ip addr) = AF_INET")
  case True
  then have "length (ipv4_address (sa_ip addr)) = 4" using assms(2) length_octets [of "sa_ip addr"] by (simp add: octets_def)
  moreover from this have "zip (ipv4_address (sa_ip addr)) (be_bytes 4 kStunMagicCookie @ tid) =
      zip (ipv4_address (sa_ip addr)) (be_bytes 4 kStunMagicCookie)"
    by (simp add: zip_append2)
  ultimately show ?thesis
    using True assms(1) by (simp add: GetXoredIP_def xor_ip_def octets_def obj_word_xor)
next
  case False
  then have f: "ip_family (sa_ip addr) = AF_INET6" using assms(3) by (cases "ip_family (sa_ip addr)") simp_all
  then have "length (ipv6_address (sa_ip addr)) = 16" using assms(2) length_octets [of "sa_ip addr"] by (simp add: octets_def)
  then show ?thesis
    using f assms(1,4) xor_words_4 [of "ipv6_address (sa_ip addr)" tid kStunMagicCookie]
    by (simp add: GetXoredIP_def xor_ip_def octets_def kStunTransactionIdLength_def Let_def)
qed

lemma octets_constructors [simp]:
  "length b = 4 \<Longrightarrow> octets (IPAddress_v4 b) = b" "octets (IPAddress_v6 b) = b"
  by (simp_all add: octets_def IPAddress_v4_def IPAddress_v6_def ipv4_address_def ipv6_address_def)

lemma IPAddress_octets:
  "ip_ok ip \<Longrightarrow> ip_family ip = AF_INET \<Longrightarrow> IPAddress_v4 (octets ip) = ip"
  "ip_family ip = AF_INET6 \<Longrightarrow> IPAddress_v6 (octets ip) = ip"
  by (simp_all add: octets_def IPAddress_v4_self IPAddress_v6_self)

lemma xor_ip_facts:
  assumes "ip_ok ip" "ip_family ip \<noteq> AF_UNSPEC" "ip_family ip \<noteq> AF_INET \<longrightarrow> length tid = 12"
  shows "ip_family (xor_ip tid ip) = ip_family ip" "ip_ok (xor_ip tid ip)" "xor_ip tid (xor_ip tid ip) = ip"
    "octets (xor_ip tid ip) = map2 (XOR) (octets ip) (be_bytes 4 kStunMagicCookie @ tid)"
proof -
  have l: "length (octets ip) = (if ip_family ip = AF_INET then 4 else 16)" using assms(1) by (rule length_octets)
  have x: "map2 (XOR) (map2 (XOR) (octets ip) (be_bytes 4 kStunMagicCookie @ tid)) (be_bytes 4 kStunMagicCookie @ tid) = octets ip"
    by (rule map2_xor_twice) (use l assms(3) in \<open>simp split: if_splits\<close>)
  show f: "ip_family (xor_ip tid ip) = ip_family ip"
    using assms(2) by (cases "ip_family ip") (simp_all add: xor_ip_def)
  show o: "octets (xor_ip tid ip) = map2 (XOR) (octets ip) (be_bytes 4 kStunMagicCookie @ tid)"
    using l by (simp add: xor_ip_def)
  show "ip_ok (xor_ip tid ip)"
    using l assms(3) by (simp add: xor_ip_def)
  show "xor_ip tid (xor_ip tid ip) = ip"
    unfolding xor_ip_def [of tid "xor_ip tid ip"] f o x
    using assms(1,2) by (cases "ip_family ip") (simp_all add: IPAddress_octets)
qed

lemma StunAttribute_Write_ok:
  assumes "attr_ok tid a"
  shows "\<exists>w'. StunAttribute_Write tid a w = Some (True, w') \<and> buf_data w' = buf_data w @ body_wire tid (attr_body a)"
proof (cases "attr_body a")
  case (StunAddressAttribute addr)
  then show ?thesis
    using assms
    by (cases "ip_family (sa_ip addr)")
      (simp_all add: attr_ok_def plain_address_def StunAttribute_Write_def StunAddressAttribute_Write_def stun_family_def
        Let_def octets_def buf_data_writes)
next
  case (StunXorAddressAttribute addr owner)
  then have o: "attr_body a = StunXorAddressAttribute addr True" "ip_ok (sa_ip addr)"
      "ip_family (sa_ip addr) \<noteq> AF_UNSPEC" "ip_family (sa_ip addr) \<noteq> AF_INET \<longrightarrow> length tid = 12"
    using assms by (simp_all add: attr_ok_def plain_address_def)
  note x = GetXoredIP_eq [OF o] xor_ip_facts [OF o(2-4)]
  show ?thesis
    using o(1,3) x(2,5)
    by (cases "ip_family (sa_ip addr)")
      (simp_all add: StunAttribute_Write_def StunXorAddressAttribute_Write_def stun_family_def
        Let_def x(1) cookie_port octets_def buf_data_writes)
qed (use assms in \<open>auto simp: attr_ok_def StunAttribute_Write_def StunByteStringAttribute_Write_def
      StunErrorCodeAttribute_Write_def StunUInt16ListAttribute_Write_def WritePadding_data fold_write_types
      buf_data_writes error_word_bytes padding_def pad4_add4\<close>)

section \<open>Reading inverts the encoding\<close>

lemma SocketAddress_of_ip_eq:
  "SocketAddress_of_ip ip (uint p) = Some \<lparr>hostname = [], sa_ip = ip, sa_port = p, scope_id = 0, literal = False\<rparr>"
  by (simp add: SocketAddress_of_ip_def SetPort_uint SetIP_def SocketAddress_nil_def)

lemma plain_address_eq:
  "plain_address addr \<Longrightarrow>
     \<lparr>hostname = [], sa_ip = sa_ip addr, sa_port = sa_port addr, scope_id = 0, literal = False\<rparr> = addr"
  by (cases addr) (simp add: plain_address_def)

lemma ConsumePadding_eq:
  assumes "reader_ok r" "unread r = padding (unat (attr_length a)) @ rest"
  shows "ConsumePadding a r = advance (length (padding (unat (attr_length a)))) r"
proof -
  have "length (padding (unat (attr_length a))) =
      (if unat (attr_length a) mod 4 > 0 then 4 - unat (attr_length a) mod 4 else 0)"
    by (simp add: length_padding pad4_def)
  then show ?thesis
    using assms by (simp add: ConsumePadding_def Let_def reader_simps)
qed

lemma read_types_eq:
  assumes "reader_ok r" "unread r = concat (map (be_bytes 2) ts) @ rest"
  shows "read_types (length ts) acc r = (Some (acc @ ts), advance (2 * length ts) r)"
  using assms
proof (induction ts arbitrary: r acc)
  case (Cons t ts)
  then have "ReadUInt16 r = (Some t, advance 2 r)"
    using u16_codec.rd_enc [of r t] by simp
  moreover have "reader_ok (advance 2 r)" "unread (advance 2 r) = concat (map (be_bytes 2) ts) @ rest"
    using Cons.prems by (simp_all add: reader_ok_advance Length_unread)
  ultimately show ?case using Cons.IH [of "advance 2 r" "acc @ [t]"] by simp
qed simp

lemma StunAddressAttribute_Read_eq:
  assumes "reader_ok r" "ip_ok ip" "ip_family ip \<noteq> AF_UNSPEC"
    and "attr_length b = (if ip_family ip = AF_INET then 8 else 20)"
    and "unread r = [0, if ip_family ip = AF_INET then 1 else 2] @ be_bytes 2 p @ octets ip @ rest"
  shows "StunAddressAttribute_Read b r =
    Some (Some (SetAddress \<lparr>hostname = [], sa_ip = ip, sa_port = p, scope_id = 0, literal = False\<rparr> b),
      advance (4 + length (octets ip)) r)"
proof -
  have r: "reader_ok (advance 1 r)" "reader_ok (advance 2 r)" "reader_ok (advance 4 r)"
    using assms(1,5) by (simp_all add: reader_ok_advance Length_unread)
  have l: "length (octets ip) = (if ip_family ip = AF_INET then 4 else 16)" using assms(2) by (rule length_octets)
  have h: "be_load (be_bytes 2 p) = p" by (simp add: be_load_be_bytes)
  show ?thesis
    using assms r l h IPAddress_octets [of ip]
    by (cases "ip_family ip")
      (simp_all add: StunAddressAttribute_Read_def reader_simps numeral_2_eq_2 [symmetric] SIZE_IP4_def SIZE_IP6_def
        SocketAddress_of_ip_eq)
qed

lemma SetAddress_body:
  "attr_body b = StunAddressAttribute a0 \<Longrightarrow> ip_family (sa_ip addr) \<noteq> AF_UNSPEC \<Longrightarrow>
     SetAddress addr b = b\<lparr>attr_length := address_size addr, attr_body := StunAddressAttribute addr\<rparr>"
  "attr_body b = StunXorAddressAttribute a0 own \<Longrightarrow> ip_family (sa_ip addr) \<noteq> AF_UNSPEC \<Longrightarrow>
     SetAddress addr b = b\<lparr>attr_length := address_size addr, attr_body := StunXorAddressAttribute addr own\<rparr>"
  by (cases "ip_family (sa_ip addr)"; simp add: SetAddress_def EnsureAddressLength_def stun_family_def address_size_def
      SIZE_IP4_def SIZE_IP6_def)+

lemma xor_port_twice: "(p XOR 0x2112) XOR 0x2112 = (p :: u16)"
  by (simp add: xor.assoc)

lemma StunXorAddressAttribute_Read_eq:
  assumes "reader_ok r" "plain_address addr" "ip_family (sa_ip addr) \<noteq> AF_INET \<longrightarrow> length tid = 12"
    and "attr_body b = StunXorAddressAttribute a0 True" "attr_length b = address_size addr"
    and "unread r = body_wire tid (StunXorAddressAttribute addr True) @ rest"
  shows "StunXorAddressAttribute_Read tid b r =
    Some (Some (b\<lparr>attr_body := StunXorAddressAttribute addr True\<rparr>), advance (pad4 (unat (attr_length b))) r)"
proof -
  let ?ip = "xor_ip tid (sa_ip addr)" and ?p = "sa_port addr XOR 0x2112"
  let ?x = "\<lparr>hostname = [], sa_ip = ?ip, sa_port = ?p, scope_id = 0, literal = False\<rparr>"
  have ok: "ip_ok (sa_ip addr)" "ip_family (sa_ip addr) \<noteq> AF_UNSPEC" using assms(2) by (simp_all add: plain_address_def)
  note x = xor_ip_facts [OF ok assms(3)]
  have l: "length (octets ?ip) = (if ip_family (sa_ip addr) = AF_INET then 4 else 16)"
    using length_octets [OF x(2)] x(1) by simp
  have "StunAddressAttribute_Read b r = Some (Some (SetAddress ?x b), advance (4 + length (octets ?ip)) r)"
    using x ok(2) assms(1,5,6) by (intro StunAddressAttribute_Read_eq) (simp_all add: address_size_def)
  moreover have s: "SetAddress ?x b = b\<lparr>attr_body := StunXorAddressAttribute ?x True\<rparr>"
    using x(1) ok(2) assms(4,5) by (simp add: SetAddress_body(2) address_size_def)
  moreover have "GetXoredIP tid (b\<lparr>attr_body := StunXorAddressAttribute ?x True\<rparr>) = sa_ip addr"
    using GetXoredIP_eq [of "b\<lparr>attr_body := StunXorAddressAttribute ?x True\<rparr>" ?x tid] x ok(2) assms(3) by simp
  moreover have "pad4 (unat (attr_length b)) = 4 + length (octets ?ip)"
    using l assms(5) by (simp add: address_size_def)
  ultimately show ?thesis
    using ok(2) assms(2,4,5)
    by (simp add: StunXorAddressAttribute_Read_def cookie_port SocketAddress_of_ip_eq xor_port_twice plain_address_eq
        SetAddress_body(2))
qed

lemma error_word_parts:
  assumes "c < (8 :: u8)"
  shows "ucast (drop_bit 8 (be_load [0, 0, c, n] :: u32) AND 0x7) = c" "ucast ((be_load [0, 0, c, n] :: u32) AND 0xff) = n"
proof -
  have w: "be_load [0, 0, c, n] = (push_bit 8 (ucast c) OR ucast n :: u32)"
    using be_load_be_bytes [of 4 "push_bit 8 (ucast c) OR ucast n :: u32"] by (simp add: error_word_bytes)
  have c: "take_bit 3 c = c" using assms word_less_exp_iff [of 3 c] by simp
  have m: "(0x7 :: u32) = mask 3" "(0xff :: u32) = mask 8" by (simp_all add: mask_eq_exp_minus_1)
  have "k < 3" if "bit c k" for k
    using that arg_cong [OF c, where f = "\<lambda>w. bit w k"] by (simp add: bit_simps)
  then show "ucast (drop_bit 8 (be_load [0, 0, c, n] :: u32) AND 0x7) = c"
    unfolding w m by (intro bit_word_eqI) (auto simp: bit_simps not_le dest: bit_imp_le_length)
  show "ucast ((be_load [0, 0, c, n] :: u32) AND 0xff) = n"
    unfolding w m by (intro bit_word_eqI) (auto simp: bit_simps)
qed

lemma StunErrorCodeAttribute_Read_eq:
  assumes "reader_ok r" "c < 8" "unat (attr_length b) = 4 + length reason"
    and "unread r = [0, 0, c, n] @ reason @ padding (length reason) @ rest"
  shows "StunErrorCodeAttribute_Read b r =
    (Some (b\<lparr>attr_body := StunErrorCodeAttribute c n reason\<rparr>), advance (pad4 (unat (attr_length b))) r)"
proof -
  have len: "\<not> attr_length b < ErrorCode_MIN_SIZE"
    using assms(3) by (simp add: ErrorCode_MIN_SIZE_def word_less_nat_alt)
  have r: "reader_ok (advance 4 r)" "reader_ok (advance (4 + length reason) r)"
    using assms(1,4) by (simp_all add: reader_ok_advance Length_unread)
  have u: "ReadUInt32 r = (Some (be_load [0, 0, c, n]), advance 4 r)"
    using assms(1,4) by (simp add: reader_simps)
  have p: "padding (unat (attr_length b)) = padding (length reason)"
    by (simp add: padding_def assms(3) pad4_add4)
  have "unread (advance (4 + length reason) r) = padding (length reason) @ rest"
    using assms(4) by (simp add: drop_Cons')
  then have "ConsumePadding b (advance (4 + length reason) r) = advance (pad4 (unat (attr_length b))) r"
    using ConsumePadding_eq [of "advance (4 + length reason) r" b rest, unfolded p] r(2) pad4_ge [of "length reason"]
    by (simp add: length_padding assms(3) pad4_add4)
  then show ?thesis
    using assms r len u error_word_parts [OF assms(2), of n]
    by (simp add: StunErrorCodeAttribute_Read_def reader_simps)
qed

lemma StunByteStringAttribute_Read_eq:
  assumes "reader_ok r" "unat (attr_length b) = length bs" "unread r = bs @ padding (length bs) @ rest"
  shows "StunByteStringAttribute_Read b r =
    (Some (b\<lparr>attr_body := StunByteStringAttribute (Some bs)\<rparr>), advance (pad4 (length bs)) r)"
proof -
  have "reader_ok (advance (length bs) r)" using assms(1,3) by (simp add: reader_ok_advance Length_unread)
  then have "ConsumePadding b (advance (length bs) r) = advance (pad4 (length bs)) r"
    using ConsumePadding_eq [of "advance (length bs) r" b rest] assms(2,3) pad4_ge [of "length bs"]
    by (simp add: length_padding)
  then show ?thesis
    using assms by (simp add: StunByteStringAttribute_Read_def reader_simps)
qed

lemma StunUInt16ListAttribute_Read_eq:
  assumes "reader_ok r" "unat (attr_length b) = 2 * length ts"
    and "unread r = concat (map (be_bytes 2) ts) @ padding (2 * length ts) @ rest"
  shows "StunUInt16ListAttribute_Read [] b r =
    (Some (b\<lparr>attr_body := StunUInt16ListAttribute ts\<rparr>), advance (pad4 (2 * length ts)) r)"
proof -
  have "reader_ok (advance (2 * length ts) r)"
    using assms(1,3) by (simp add: reader_ok_advance Length_unread length_types)
  then have "ConsumePadding b (advance (2 * length ts) r) = advance (pad4 (2 * length ts)) r"
    using ConsumePadding_eq [of "advance (2 * length ts) r" b rest] assms(2,3) pad4_ge [of "2 * length ts"]
    by (simp add: length_padding length_types)
  then show ?thesis
    using assms read_types_eq [of r ts "padding (2 * length ts) @ rest" "[]"]
    by (simp add: StunUInt16ListAttribute_Read_def)
qed

lemma StunAttribute_Read_ok:
  assumes "reader_ok r" "attr_ok tid a" "unread r = body_wire tid (attr_body a) @ rest"
    and "StunAttribute_Create (value_type a) (attr_type a) (attr_length a) True = Some b"
  shows "StunAttribute_Read tid b r = Some (Some a, advance (pad4 (unat (attr_length a))) r)"
proof (cases "attr_body a")
  case (StunAddressAttribute addr)
  then have ok: "plain_address addr" "attr_length a = address_size addr" using assms(2) by (simp_all add: attr_ok_def)
  have b: "b = a\<lparr>attr_body := StunAddressAttribute SocketAddress_nil\<rparr>"
    using assms(4) StunAddressAttribute by (cases a) (auto simp: StunAttribute_Create_def value_type_def)
  have "StunAddressAttribute_Read b r = Some (Some (SetAddress addr b), advance (4 + length (octets (sa_ip addr))) r)"
    using StunAddressAttribute_Read_eq [of r "sa_ip addr" b "sa_port addr" rest] assms(1,3) ok b StunAddressAttribute
    by (simp add: plain_address_eq) (simp add: plain_address_def address_size_def)
  moreover have "SetAddress addr b = a"
    using ok StunAddressAttribute b by (simp add: SetAddress_body(1) plain_address_def)
  moreover have "pad4 (unat (attr_length a)) = 4 + length (octets (sa_ip addr))"
    using ok by (simp add: address_size_def length_octets plain_address_def)
  ultimately show ?thesis by (simp add: StunAttribute_Read_def b)
next
  case (StunXorAddressAttribute addr owner)
  have b: "b = a\<lparr>attr_body := StunXorAddressAttribute SocketAddress_nil True\<rparr>"
    using assms(4) StunXorAddressAttribute by (cases a) (auto simp: StunAttribute_Create_def value_type_def)
  then show ?thesis
    using StunXorAddressAttribute_Read_eq [of r addr tid b SocketAddress_nil rest] assms(1-3) StunXorAddressAttribute
    by (simp add: attr_ok_def StunAttribute_Read_def)
qed (use assms in \<open>(cases a, auto simp: attr_ok_def value_type_def StunAttribute_Create_def StunAttribute_Read_def
      StunUInt32Attribute_Read_def StunUInt64Attribute_Read_def UInt32_SIZE_def UInt64_SIZE_def
      StunByteStringAttribute_Read_eq StunErrorCodeAttribute_Read_eq StunUInt16ListAttribute_Read_eq reader_simps
      be_load_be_bytes)+\<close>)

section \<open>Reading any bytes\<close>

definition advanced :: "ByteBufferReader \<Rightarrow> ByteBufferReader \<Rightarrow> bool" where
  "advanced r r' \<longleftrightarrow> (\<exists>n \<le> Length r. r' = advance n r)"

lemma Length_advance [simp]: "Length (advance n r) = Length r - n"
  by (simp add: Length_def advance_def)

lemma advanced_refl [simp]: "advanced r r"
  unfolding advanced_def by (rule exI [of _ 0]) simp

lemma advanced_trans: "advanced r r' \<Longrightarrow> advanced r' r'' \<Longrightarrow> advanced r r''"
proof -
  assume "advanced r r'" "advanced r' r''"
  then obtain n m where "n \<le> Length r" "m \<le> Length r - n" "r'' = advance (n + m) r" by (auto simp: advanced_def)
  then show ?thesis unfolding advanced_def by (intro exI [of _ "n + m"]) simp
qed

lemma advanced_advance: "n \<le> Length r \<Longrightarrow> advanced r (advance n r)"
  by (auto simp: advanced_def)

lemma advanced_Length: "advanced r r' \<Longrightarrow> Length r' \<le> Length r"
  by (auto simp: advanced_def)

lemma advanced_ok: "advanced r r' \<Longrightarrow> reader_ok r \<Longrightarrow> reader_ok r'"
  by (auto simp: advanced_def reader_ok_advance)

lemma advanced_ReadBytes: "ReadBytes n r = (x, r') \<Longrightarrow> advanced r r'"
  by (auto simp: ReadBytes_def advance_def [symmetric] advanced_advance split: if_splits)

lemma advanced_reads:
  "ReadString n r = (x, r') \<Longrightarrow> advanced r r'"
  "ReadUInt8 r = (y1, r') \<Longrightarrow> advanced r r'" "ReadUInt16 r = (y2, r') \<Longrightarrow> advanced r r'"
  "ReadUInt32 r = (y4, r') \<Longrightarrow> advanced r r'" "ReadUInt64 r = (y8, r') \<Longrightarrow> advanced r r'"
  by (auto simp: ReadUInt8_def ReadUInt16_def ReadUInt32_def ReadUInt64_def ReadString_def
      advance_def [symmetric] advanced_advance split: if_splits prod.splits dest: advanced_ReadBytes)

lemma advanced_Consume: "advanced r (snd (Consume n r))"
  by (simp add: Consume_def advance_def [symmetric] advanced_advance)

lemma advanced_ConsumePadding: "advanced r (ConsumePadding a r)"
  by (simp add: ConsumePadding_def Let_def advanced_Consume)

lemma advanced_read_types: "read_types n acc r = (x, r') \<Longrightarrow> advanced r r'"
  by (induction n arbitrary: acc r)
    (auto split: prod.splits option.splits dest: advanced_reads intro: advanced_trans)

lemmas advanced_facts = advanced_ReadBytes advanced_reads advanced_read_types

text \<open>A read never fails an assertion and never leaves the bytes it was given.\<close>

lemma StunAddressAttribute_Read_total: "\<exists>x r'. StunAddressAttribute_Read a r = Some (x, r') \<and> advanced r r'"
  by (auto simp: StunAddressAttribute_Read_def SocketAddress_of_ip_eq split: prod.splits option.splits
      dest!: advanced_facts intro: advanced_trans)

lemma StunAttribute_Read_total: "\<exists>x r'. StunAttribute_Read tid a r = Some (x, r') \<and> advanced r r'"
proof (cases "attr_body a")
  case (StunXorAddressAttribute addr owner)
  obtain x r' where "StunAddressAttribute_Read a r = Some (x, r')" "advanced r r'"
    using StunAddressAttribute_Read_total by blast
  then show ?thesis
    by (cases x) (simp_all add: StunAttribute_Read_def StunXorAddressAttribute StunXorAddressAttribute_Read_def
        SocketAddress_of_ip_eq)
qed (use StunAddressAttribute_Read_total [of a r] in \<open>auto simp: StunAttribute_Read_def StunUInt32Attribute_Read_def
      StunUInt64Attribute_Read_def StunByteStringAttribute_Read_def StunErrorCodeAttribute_Read_def
      StunUInt16ListAttribute_Read_def Let_def split: prod.splits option.splits
      dest!: advanced_facts intro: advanced_trans advanced_ConsumePadding\<close>)

end
