(* ===== verification/Block_Hash.thy ===== *)
theory Block_Hash
  imports Byte_Order
begin

text \<open>
  Streaming of a hash over 64-byte blocks, shared by \<open>sha1.cc\<close> and \<open>md5.cc\<close>: what it means that a context
  stands for the bytes fed so far, and what follows for a context fed in arbitrary pieces. The locale
  \<open>hash_stream\<close> is the contract of init and update, \<open>hash_digest\<close> adds the finishing step.
\<close>

section \<open>Absorbing blocks\<close>

function absorb :: "('s \<Rightarrow> bytes \<Rightarrow> 's) \<Rightarrow> 's \<Rightarrow> bytes \<Rightarrow> 's" where
  "absorb compress st m =
     (if length m < 64 then st else absorb compress (compress st (take 64 m)) (drop 64 m))"
  by pat_completeness auto
termination by (relation "measure (\<lambda>(_, _, m). length m)") auto

declare absorb.simps [simp del]

definition unabsorbed :: "bytes \<Rightarrow> bytes" where
  "unabsorbed m = drop (64 * (length m div 64)) m"

lemma absorb_short [simp]: "length m < 64 \<Longrightarrow> absorb compress st m = st"
  by (subst absorb.simps) simp

lemma absorb_block: "length b = 64 \<Longrightarrow> absorb compress st (b @ m) = absorb compress (compress st b) m"
  by (subst absorb.simps) simp

lemma absorb_one [simp]: "length b = 64 \<Longrightarrow> absorb compress st b = compress st b"
  using absorb_block [of b compress st "[]"] by simp

lemma absorb_append_blocks:
  "length m mod 64 = 0 \<Longrightarrow> absorb compress st (m @ d) = absorb compress (absorb compress st m) d"
proof (induction compress st m rule: absorb.induct)
  case (1 compress st m)
  show ?case
  proof (cases "length m < 64")
    case True
    with 1(2) have "m = []" by simp
    then show ?thesis by simp
  next
    case False
    with 1(2) have r: "length (drop 64 m) mod 64 = 0" by (simp add: le_mod_geq)
    have l: "length (take 64 m) = 64" using False by simp
    have "absorb compress st (m @ d) = absorb compress (compress st (take 64 m)) (drop 64 m @ d)"
      using absorb_block [OF l, of compress st "drop 64 m @ d"] by (metis append.assoc append_take_drop_id)
    also have "\<dots> = absorb compress (absorb compress (compress st (take 64 m)) (drop 64 m)) d"
      by (rule 1(1) [OF False r])
    also have "absorb compress (compress st (take 64 m)) (drop 64 m) = absorb compress st m"
      using absorb_block [OF l, of compress st "drop 64 m"] by simp
    finally show ?thesis .
  qed
qed

lemma length_unabsorbed [simp]: "length (unabsorbed m) = length m mod 64"
  by (simp add: unabsorbed_def minus_mult_div_eq_mod)

lemma unabsorbed_split: "m = take (64 * (length m div 64)) m @ unabsorbed m"
  by (simp add: unabsorbed_def)

lemma absorb_full: "absorb compress st (take (64 * (length m div 64)) m) = absorb compress st m"
proof -
  have "length (take (64 * (length m div 64)) m) mod 64 = 0" by (simp add: min_absorb2)
  from absorb_append_blocks [OF this, of compress st "unabsorbed m"] show ?thesis
    by (simp flip: unabsorbed_split)
qed

lemma absorb_append: "absorb compress st (m @ d) = absorb compress (absorb compress st m) (unabsorbed m @ d)"
proof -
  have "length (take (64 * (length m div 64)) m) mod 64 = 0" by (simp add: min_absorb2)
  from absorb_append_blocks [OF this, of compress st "unabsorbed m @ d"] show ?thesis
    unfolding absorb_full by (metis append.assoc unabsorbed_split)
qed

lemma unabsorbed_append: "unabsorbed (m @ d) = unabsorbed (unabsorbed m @ d)"
proof -
  define k where "k = length m div 64"
  define n where "n = (length (unabsorbed m) + length d) div 64"
  have l: "length m = 64 * k + length (unabsorbed m)" by (simp add: k_def)
  then have "(length m + length d) div 64 = k + n" by (simp add: add.assoc n_def)
  then have "unabsorbed (m @ d) = drop (64 * n) (drop (64 * k) (m @ d))"
    by (simp only: unabsorbed_def length_append drop_drop distrib_left add.commute)
  also have "drop (64 * k) (m @ d) = unabsorbed m @ d"
    using l by (simp add: unabsorbed_def k_def)
  finally show ?thesis by (simp only: unabsorbed_def [of "unabsorbed m @ d"] length_append n_def)
qed

lemma unabsorbed_short [simp]: "length m < 64 \<Longrightarrow> unabsorbed m = m"
  by (simp add: unabsorbed_def)

lemma unabsorbed_block: "length b = 64 \<Longrightarrow> unabsorbed (b @ m) = unabsorbed m"
  using unabsorbed_append [of b m] by (simp add: unabsorbed_def [of b])

section \<open>Bit counters in two words\<close>

definition count_words :: "u32 \<Rightarrow> u32 \<Rightarrow> u64" where
  "count_words lo hi = ucast hi * 2 ^ 32 + ucast lo"

lemma add_carry:
  fixes a b :: u32
  shows "a + b < b \<longleftrightarrow> 2 ^ 32 \<le> unat a + unat b" "a + b < a \<longleftrightarrow> 2 ^ 32 \<le> unat a + unat b"
    "unat (a + b) + (if 2 ^ 32 \<le> unat a + unat b then 2 ^ 32 else 0) = unat a + unat b"
proof -
  have l: "unat a < 2 ^ 32" "unat b < 2 ^ 32" using unsigned_less [of _, where 'b = 32 and 'a = nat] by simp_all
  have s: "unat (a + b) = (unat a + unat b) mod 2 ^ 32" by (simp add: unat_word_ariths)
  have w: "(unat a + unat b) mod 2 ^ 32 = unat a + unat b - 2 ^ 32" if "2 ^ 32 \<le> unat a + unat b"
    using l that by (simp add: le_mod_geq)
  show c: "unat (a + b) + (if 2 ^ 32 \<le> unat a + unat b then 2 ^ 32 else 0) = unat a + unat b"
    using s w l by (cases "2 ^ 32 \<le> unat a + unat b") simp_all
  show "a + b < b \<longleftrightarrow> 2 ^ 32 \<le> unat a + unat b" "a + b < a \<longleftrightarrow> 2 ^ 32 \<le> unat a + unat b"
    unfolding word_less_nat_alt using c l by (auto split: if_splits)
qed

lemma of_nat_mod_shift: "(of_nat (n mod 2 ^ 32) :: u64) * 2 ^ 32 = of_nat n * 2 ^ 32"
proof -
  have "(of_nat n :: u64) = of_nat (n mod 2 ^ 32) + of_nat (2 ^ 32 * (n div 2 ^ 32))"
    by (simp only: of_nat_add [symmetric] mod_mult_div_eq)
  then have "(of_nat n :: u64) * 2 ^ 32 = of_nat (n mod 2 ^ 32) * 2 ^ 32 + of_nat (n div 2 ^ 32) * 2 ^ 64"
    by (simp add: algebra_simps)
  moreover have "(2 :: u64) ^ 64 = 0" using word_exp_length_eq_0 [where 'a = 64] by simp
  ultimately show ?thesis by (simp only: mult_zero_right add_0_right)
qed

lemma ucast_unat: "(ucast w :: u64) = of_nat (unat w)" for w :: u32
  by simp

lemma count_words_add:
  assumes "carry \<longleftrightarrow> 2 ^ 32 \<le> unat lo + (n mod 2 ^ 32)"
  shows "count_words (lo + of_nat n) ((if carry then hi + 1 else hi) + of_nat (n div 2 ^ 32)) =
    count_words lo hi + of_nat n"
proof -
  let ?W = "of_nat :: nat \<Rightarrow> u64"
  let ?c = "if carry then 1 else 0 :: nat"
  have n: "unat (of_nat n :: u32) = n mod 2 ^ 32" by (simp add: unat_of_nat take_bit_eq_mod)
  have lo: "unat (lo + of_nat n) + 2 ^ 32 * ?c = unat lo + n mod 2 ^ 32"
    using add_carry(3) [of lo "of_nat n"] assms unfolding n by (cases carry) simp_all
  have "(if carry then hi + 1 else hi) + of_nat (n div 2 ^ 32) = (of_nat (unat hi + ?c + n div 2 ^ 32) :: u32)" by simp
  then have hi: "unat ((if carry then hi + 1 else hi) + of_nat (n div 2 ^ 32)) = (unat hi + ?c + n div 2 ^ 32) mod 2 ^ 32"
    by (simp only: unat_of_nat take_bit_eq_mod) simp
  have "count_words (lo + of_nat n) ((if carry then hi + 1 else hi) + of_nat (n div 2 ^ 32)) =
      ?W (unat hi + ?c + n div 2 ^ 32) * 2 ^ 32 + ?W (unat (lo + of_nat n))"
    unfolding count_words_def ucast_unat hi of_nat_mod_shift ..
  also have "\<dots> = ?W (unat hi) * 2 ^ 32 + ?W (unat (lo + of_nat n) + 2 ^ 32 * ?c) + ?W (2 ^ 32 * (n div 2 ^ 32))"
    by (simp add: algebra_simps)
  also have "\<dots> = ?W (unat hi) * 2 ^ 32 + ?W (unat lo) + ?W (n mod 2 ^ 32 + 2 ^ 32 * (n div 2 ^ 32))"
    unfolding lo by (simp only: of_nat_add ac_simps)
  finally show ?thesis by (simp only: count_words_def ucast_unat mod_mult_div_eq)
qed

lemma len_u64: "LENGTH(64) = 64"
  by simp

lemma count_words_index:
  assumes "count_words lo hi = of_nat (8 * n)"
  shows "unat lo div 8 mod 64 = n mod 64"
proof -
  have "count_words lo hi = of_nat (unat hi * 2 ^ 32 + unat lo)" by (simp add: count_words_def)
  then have "(unat hi * 2 ^ 32 + unat lo) mod 2 ^ 64 = (8 * n) mod 2 ^ 64"
    using assms by (metis word_of_nat_eq_iff take_bit_eq_mod len_u64)
  then have "(unat hi * 2 ^ 32 + unat lo) mod 2 ^ 64 mod 2 ^ 32 = (8 * n) mod 2 ^ 64 mod 2 ^ 32" by (rule arg_cong)
  then have "unat lo mod 2 ^ 32 = (8 * n) mod (8 * 2 ^ 29)" by (simp add: mod_mod_cancel)
  moreover have "unat lo mod 2 ^ 32 = unat lo" using unsigned_less [of lo, where 'a = nat] by simp
  ultimately have "unat lo div 8 = n mod 2 ^ 29" by (simp only: mod_mult_mult1)
  then show ?thesis by (simp add: mod_mod_cancel)
qed

lemma bit_count_words:
  "(ucast (push_bit 3 (of_nat n :: u64)) :: u32) = of_nat (8 * n)"
  "(ucast (drop_bit 29 (of_nat n :: u64)) :: u32) = of_nat (8 * n div 2 ^ 32)"
proof -
  have "push_bit 3 (of_nat n :: u64) = of_nat (8 * n)" by (simp add: push_bit_eq_mult)
  moreover have "(ucast (of_nat (8 * n) :: u64) :: u32) = of_nat (8 * n)"
    by (simp only: unsigned_of_nat word_of_nat_eq_iff) (simp add: take_bit_take_bit)
  ultimately show "(ucast (push_bit 3 (of_nat n :: u64)) :: u32) = of_nat (8 * n)" by simp
  have "n mod 2 ^ 64 = 2 ^ 29 * (n div 2 ^ 29 mod 2 ^ 35) + n mod 2 ^ 29"
    using mod_mult2_eq [of n "2 ^ 29" "2 ^ 35"] by simp
  then have "n mod 2 ^ 64 div 2 ^ 29 = n div 2 ^ 29 mod 2 ^ 35" by simp
  then have "unat (drop_bit 29 (of_nat n :: u64)) = n div 2 ^ 29 mod 2 ^ 35"
    unfolding unat_drop_bit_eq by (simp add: drop_bit_eq_div unat_of_nat)
  then have "(ucast (drop_bit 29 (of_nat n :: u64)) :: u32) = of_nat (n div 2 ^ 29 mod 2 ^ 35)"
    by (metis of_nat_unat)
  also have "\<dots> = of_nat (n div 2 ^ 29)"
    by (simp add: word_of_nat_eq_iff take_bit_eq_mod mod_mod_cancel)
  finally show "(ucast (drop_bit 29 (of_nat n :: u64)) :: u32) = of_nat (8 * n div 2 ^ 32)" by simp
qed

lemma bit_count_words_iff:
  "bit (count_words lo hi) n \<longleftrightarrow> (if n < 32 then bit lo n else bit hi (n - 32))"
proof -
  have no: "\<not> bit lo n" if "32 \<le> n" for n using bit_imp_le_length [of lo n] that by auto
  have "count_words lo hi = push_bit 32 (ucast hi) OR ucast lo"
    unfolding count_words_def push_bit_eq_mult [symmetric]
    by (rule disjunctive_add_eq_or) (auto intro!: bit_eqI simp: bit_and_iff bit_push_bit_iff bit_unsigned_iff no)
  then show ?thesis
    using bit_imp_le_length [of hi "n - 32"] by (auto simp: bit_or_iff bit_push_bit_iff bit_unsigned_iff no)
qed

lemma le_bytes_count_words: "le_bytes 8 (count_words lo hi) = le_bytes 4 lo @ le_bytes 4 hi"
proof -
  have lo: "(ucast (drop_bit (8 * i) (count_words lo hi)) :: u8) = ucast (drop_bit (8 * i) lo)" if "i < 4" for i
    using that by (intro bit_word_eqI) (simp add: bit_unsigned_iff bit_drop_bit_eq bit_count_words_iff)
  have hi: "(ucast (drop_bit (32 + 8 * i) (count_words lo hi)) :: u8) = ucast (drop_bit (8 * i) hi)" for i
    by (intro bit_word_eqI) (simp add: bit_unsigned_iff bit_drop_bit_eq bit_count_words_iff add.assoc)
  have u: "[0..<8] = [0..<4] @ map ((+) 4) [0..<4]" by (simp add: upt_rec)
  show ?thesis
    unfolding le_bytes_def u map_append map_map
    by (intro arg_cong2 [where f = append] map_cong refl) (auto simp: lo hi)
qed

lemma be_bytes_4: "be_bytes 4 w = map (\<lambda>i. ucast (drop_bit ((3 - i) * 8) w)) [0..<4]"
  by (simp add: be_bytes_def le_bytes_def upt_rec)

lemma bytes_of_words:
  "map (\<lambda>i. ucast (drop_bit ((3 - (i mod 4)) * 8) (w (i div 4) :: u32) AND 255)) [0..<4 * n] =
     concat (map (\<lambda>j. be_bytes 4 (w j)) [0..<n])"
proof (induction n)
  case (Suc n)
  have low: "(ucast (v AND 255) :: u8) = ucast v" for v :: u32
    by (simp only: word_and_0xFF) (rule bit_word_eqI, auto simp: bit_simps)
  have "[0..<4 * Suc n] = [0..<4 * n] @ map ((+) (4 * n)) [0..<4]"
    by (rule nth_equalityI) (auto simp: nth_append)
  moreover have "map (\<lambda>i. ucast (drop_bit ((3 - (i mod 4)) * 8) (w (i div 4)) AND 255)) (map ((+) (4 * n)) [0..<4]) =
      be_bytes 4 (w n)"
    unfolding be_bytes_4 map_map by (intro map_cong refl) (auto simp: low)
  ultimately show ?case using Suc by simp
qed simp

section \<open>Copying into a buffer\<close>

definition memcpy :: "bytes \<Rightarrow> nat \<Rightarrow> bytes \<Rightarrow> bytes" where
  "memcpy dst at src = take at dst @ src @ drop (at + length src) dst"

lemma take_memcpy: "at + length src \<le> length dst \<Longrightarrow> take (at + length src) (memcpy dst at src) = take at dst @ src"
  by (simp add: memcpy_def)

lemma length_memcpy [simp]: "at + length src \<le> length dst \<Longrightarrow> length (memcpy dst at src) = length dst"
  by (simp add: memcpy_def)

section \<open>Block words and fill index\<close>

definition block_words :: "bytes \<Rightarrow> u32 list" where
  "block_words c = map (\<lambda>i. obj_load (take 4 (drop (4 * i) c))) [0..<16]"

lemma and_63: "(c AND 63 :: u32) = take_bit 6 c"
  by (simp add: take_bit_eq_mask mask_eq_exp_minus_1)

lemma ctx_index: "unat (drop_bit 3 c AND 63) = unat c div 8 mod 64" for c :: u32
  unfolding and_63 unsigned_take_bit_eq unat_drop_bit_eq by (simp add: take_bit_eq_mod drop_bit_eq_div)

lemma pad_distance: "x < 64 \<Longrightarrow> (120 - x) mod 64 = (if x \<le> 56 then 56 - x else 120 - x)" for x :: nat
proof (cases "x \<le> 56")
  case True
  then have "120 - x = 56 - x + 64" by simp
  then have "(120 - x) mod 64 = (56 - x) mod 64" by (simp only: mod_add_self2)
  with True show ?thesis by simp
qed simp

lemma word_rotl_shifts:
  fixes w :: u32
  assumes "0 < n" "n < 32"
  shows "push_bit n w OR drop_bit (32 - n) w = word_rotl n w"
proof (rule bit_word_eqI)
  fix k
  assume "k < LENGTH(32)"
  with assms show "bit (push_bit n w OR drop_bit (32 - n) w) k = bit (word_rotl n w) k"
    by (cases "k < n") (auto simp: bit_or_iff bit_push_bit_iff bit_drop_bit_eq bit_word_rotl_iff mod_if add.commute [of k 32] dest: bit_imp_le_length)
qed

section \<open>The contract of a streaming hash\<close>

text \<open>
  A context stands for the message \<open>m\<close> when its chaining state has absorbed the whole blocks of \<open>m\<close>, its
  buffer starts with the rest and its counter is the length in bits modulo \<open>2^64\<close>.
\<close>

definition stream_repr ::
  "('s \<Rightarrow> bytes \<Rightarrow> 's) \<Rightarrow> 's \<Rightarrow> ('c \<Rightarrow> 's) \<Rightarrow> ('c \<Rightarrow> u64) \<Rightarrow> ('c \<Rightarrow> bytes) \<Rightarrow> 'c \<Rightarrow> bytes \<Rightarrow> bool" where
  "stream_repr compress iv state count buffer c m \<longleftrightarrow>
     state c = absorb compress iv m \<and> length (buffer c) = 64 \<and>
     take (length m mod 64) (buffer c) = unabsorbed m \<and> count c = of_nat (8 * length m)"

locale hash_stream =
  fixes compress :: "'s \<Rightarrow> bytes \<Rightarrow> 's"
    and iv :: 's
    and state :: "'c \<Rightarrow> 's"
    and count :: "'c \<Rightarrow> u64"
    and buffer :: "'c \<Rightarrow> bytes"
    and init :: "'c \<Rightarrow> 'c"
    and update :: "bytes \<Rightarrow> 'c \<Rightarrow> 'c"
  assumes init: "length (buffer c) = 64 \<Longrightarrow> stream_repr compress iv state count buffer (init c) []"
    and update: "stream_repr compress iv state count buffer c m \<Longrightarrow>
      stream_repr compress iv state count buffer (update d c) (m @ d)"
begin

abbreviation represents :: "'c \<Rightarrow> bytes \<Rightarrow> bool" where
  "represents \<equiv> stream_repr compress iv state count buffer"

lemma update_all: "represents c m \<Longrightarrow> represents (fold update ds c) (m @ concat ds)"
proof (induction ds arbitrary: c m)
  case (Cons d ds)
  from Cons.IH [OF update [OF Cons.prems]] show ?case by simp
qed simp

lemma fed: "length (buffer c) = 64 \<Longrightarrow> represents (fold update ds (init c)) (concat ds)"
  using update_all [OF init, of c ds] by simp

end

text \<open>
  Finishing appends the padding, which depends only on the length of the message, and prints the chaining
  state.
\<close>

locale hash_digest = hash_stream compress iv state count buffer init update
  for compress :: "'s \<Rightarrow> bytes \<Rightarrow> 's"
    and iv :: 's
    and state :: "'c \<Rightarrow> 's"
    and count :: "'c \<Rightarrow> u64"
    and buffer :: "'c \<Rightarrow> bytes"
    and init :: "'c \<Rightarrow> 'c"
    and update :: "bytes \<Rightarrow> 'c \<Rightarrow> 'c" +
  fixes final :: "'c \<Rightarrow> bytes \<times> 'c"
    and padding :: "nat \<Rightarrow> bytes"
    and print :: "'s \<Rightarrow> bytes"
  assumes final: "stream_repr compress iv state count buffer c m \<Longrightarrow>
      fst (final c) = print (absorb compress iv (m @ padding (length m)))"
    and final_buffer: "length (buffer c) = 64 \<Longrightarrow> length (buffer (snd (final c))) = 64"
begin

lemma digest_of_pieces:
  "length (buffer c) = 64 \<Longrightarrow>
     fst (final (fold update ds (init c))) =
       print (absorb compress iv (concat ds @ padding (length (concat ds))))"
  by (rule final [OF fed])

end

end
