(* ===== verification/Md5.thy ===== *)
theory Md5
  imports Block_Hash
begin

text \<open>
  MD5 (\<open>md5.h\<close>, \<open>md5.cc\<close>) on a little-endian host, where \<open>byte_reverse\<close> does nothing. The variables \<open>a\<close> to
  \<open>d\<close> of \<open>MD5_transform\<close> are a list of four words and its sixty-four macro calls are the list \<open>md5_steps\<close>, one
  entry per source line. The word array \<open>in\<close> of the context is kept as the 64 bytes that the code copies into
  it. The reference is the loop of RFC 1321.
\<close>

section \<open>The block transform\<close>

datatype md5_fun = F1 | F2 | F3 | F4

definition md5_F1 :: "u32 \<Rightarrow> u32 \<Rightarrow> u32 \<Rightarrow> u32" where
  "md5_F1 x y z = z XOR (x AND (y XOR z))"

fun md5_f :: "md5_fun \<Rightarrow> u32 \<Rightarrow> u32 \<Rightarrow> u32 \<Rightarrow> u32" where
  "md5_f F1 x y z = md5_F1 x y z"
| "md5_f F2 x y z = md5_F1 z x y"
| "md5_f F3 x y z = x XOR y XOR z"
| "md5_f F4 x y z = y XOR (x OR NOT z)"

definition MD5STEP ::
  "u32 list \<Rightarrow> md5_fun \<times> nat \<times> nat \<times> nat \<times> nat \<times> nat \<times> u32 \<times> nat \<Rightarrow> u32 list \<Rightarrow> u32 list" where
  "MD5STEP inw st vars =
     (case st of (f, w, x, y, z, k, c, s) \<Rightarrow>
        let w1 = vars ! w + (md5_f f (vars ! x) (vars ! y) (vars ! z) + (inw ! k + c));
            w2 = push_bit s w1 OR drop_bit (32 - s) w1
        in vars[w := w2 + vars ! x])"

definition md5_steps :: "(md5_fun \<times> nat \<times> nat \<times> nat \<times> nat \<times> nat \<times> u32 \<times> nat) list" where
  "md5_steps =
     [(F1, 0, 1, 2, 3, 0, 0xd76aa478, 7), (F1, 3, 0, 1, 2, 1, 0xe8c7b756, 12), (F1, 2, 3, 0, 1, 2, 0x242070db, 17), (F1, 1, 2, 3, 0, 3, 0xc1bdceee, 22),
      (F1, 0, 1, 2, 3, 4, 0xf57c0faf, 7), (F1, 3, 0, 1, 2, 5, 0x4787c62a, 12), (F1, 2, 3, 0, 1, 6, 0xa8304613, 17), (F1, 1, 2, 3, 0, 7, 0xfd469501, 22),
      (F1, 0, 1, 2, 3, 8, 0x698098d8, 7), (F1, 3, 0, 1, 2, 9, 0x8b44f7af, 12), (F1, 2, 3, 0, 1, 10, 0xffff5bb1, 17), (F1, 1, 2, 3, 0, 11, 0x895cd7be, 22),
      (F1, 0, 1, 2, 3, 12, 0x6b901122, 7), (F1, 3, 0, 1, 2, 13, 0xfd987193, 12), (F1, 2, 3, 0, 1, 14, 0xa679438e, 17), (F1, 1, 2, 3, 0, 15, 0x49b40821, 22),
      (F2, 0, 1, 2, 3, 1, 0xf61e2562, 5), (F2, 3, 0, 1, 2, 6, 0xc040b340, 9), (F2, 2, 3, 0, 1, 11, 0x265e5a51, 14), (F2, 1, 2, 3, 0, 0, 0xe9b6c7aa, 20),
      (F2, 0, 1, 2, 3, 5, 0xd62f105d, 5), (F2, 3, 0, 1, 2, 10, 0x02441453, 9), (F2, 2, 3, 0, 1, 15, 0xd8a1e681, 14), (F2, 1, 2, 3, 0, 4, 0xe7d3fbc8, 20),
      (F2, 0, 1, 2, 3, 9, 0x21e1cde6, 5), (F2, 3, 0, 1, 2, 14, 0xc33707d6, 9), (F2, 2, 3, 0, 1, 3, 0xf4d50d87, 14), (F2, 1, 2, 3, 0, 8, 0x455a14ed, 20),
      (F2, 0, 1, 2, 3, 13, 0xa9e3e905, 5), (F2, 3, 0, 1, 2, 2, 0xfcefa3f8, 9), (F2, 2, 3, 0, 1, 7, 0x676f02d9, 14), (F2, 1, 2, 3, 0, 12, 0x8d2a4c8a, 20),
      (F3, 0, 1, 2, 3, 5, 0xfffa3942, 4), (F3, 3, 0, 1, 2, 8, 0x8771f681, 11), (F3, 2, 3, 0, 1, 11, 0x6d9d6122, 16), (F3, 1, 2, 3, 0, 14, 0xfde5380c, 23),
      (F3, 0, 1, 2, 3, 1, 0xa4beea44, 4), (F3, 3, 0, 1, 2, 4, 0x4bdecfa9, 11), (F3, 2, 3, 0, 1, 7, 0xf6bb4b60, 16), (F3, 1, 2, 3, 0, 10, 0xbebfbc70, 23),
      (F3, 0, 1, 2, 3, 13, 0x289b7ec6, 4), (F3, 3, 0, 1, 2, 0, 0xeaa127fa, 11), (F3, 2, 3, 0, 1, 3, 0xd4ef3085, 16), (F3, 1, 2, 3, 0, 6, 0x04881d05, 23),
      (F3, 0, 1, 2, 3, 9, 0xd9d4d039, 4), (F3, 3, 0, 1, 2, 12, 0xe6db99e5, 11), (F3, 2, 3, 0, 1, 15, 0x1fa27cf8, 16), (F3, 1, 2, 3, 0, 2, 0xc4ac5665, 23),
      (F4, 0, 1, 2, 3, 0, 0xf4292244, 6), (F4, 3, 0, 1, 2, 7, 0x432aff97, 10), (F4, 2, 3, 0, 1, 14, 0xab9423a7, 15), (F4, 1, 2, 3, 0, 5, 0xfc93a039, 21),
      (F4, 0, 1, 2, 3, 12, 0x655b59c3, 6), (F4, 3, 0, 1, 2, 3, 0x8f0ccc92, 10), (F4, 2, 3, 0, 1, 10, 0xffeff47d, 15), (F4, 1, 2, 3, 0, 1, 0x85845dd1, 21),
      (F4, 0, 1, 2, 3, 8, 0x6fa87e4f, 6), (F4, 3, 0, 1, 2, 15, 0xfe2ce6e0, 10), (F4, 2, 3, 0, 1, 6, 0xa3014314, 15), (F4, 1, 2, 3, 0, 13, 0x4e0811a1, 21),
      (F4, 0, 1, 2, 3, 4, 0xf7537e82, 6), (F4, 3, 0, 1, 2, 11, 0xbd3af235, 10), (F4, 2, 3, 0, 1, 2, 0x2ad7d2bb, 15), (F4, 1, 2, 3, 0, 9, 0xeb86d391, 21)]"

definition MD5_transform :: "u32 list \<Rightarrow> bytes \<Rightarrow> u32 list" where
  "MD5_transform buf inb = map2 (+) buf (fold (MD5STEP (block_words inb)) md5_steps buf)"

section \<open>Contexts\<close>

record MD5Context =
  md5_buf :: "u32 list"
  md5_bits0 :: u32
  md5_bits1 :: u32
  md5_in :: bytes

definition MD5_init :: "MD5Context \<Rightarrow> MD5Context" where
  "MD5_init ctx =
     ctx\<lparr>md5_buf := [0x67452301, 0xefcdab89, 0x98badcfe, 0x10325476], md5_bits0 := 0, md5_bits1 := 0\<rparr>"

function MD5_blocks :: "bytes \<Rightarrow> u32 list \<times> bytes \<Rightarrow> (u32 list \<times> bytes) \<times> bytes" where
  "MD5_blocks data (buf, inb) =
     (if length data \<ge> 64
      then (let inb' = memcpy inb 0 (take 64 data) in MD5_blocks (drop 64 data) (MD5_transform buf inb', inb'))
      else ((buf, inb), data))"
  by pat_completeness auto
termination by (relation "measure (\<lambda>(data, _). length data)") auto

declare MD5_blocks.simps [simp del]

definition MD5_update :: "bytes \<Rightarrow> MD5Context \<Rightarrow> MD5Context" where
  "MD5_update data ctx =
     (let len = (of_nat (length data) :: u64);
          t = md5_bits0 ctx;
          bits0 = t + push_bit 3 (ucast len);
          bits1 = (if bits0 < t then md5_bits1 ctx + 1 else md5_bits1 ctx) + ucast (drop_bit 29 len);
          ctx = ctx\<lparr>md5_bits0 := bits0, md5_bits1 := bits1\<rparr>;
          at = unat (drop_bit 3 t AND 0x3f)
      in if at \<noteq> 0 then
           (let room = 64 - at in
            if length data < room then ctx\<lparr>md5_in := memcpy (md5_in ctx) at data\<rparr>
            else
              (let inb = memcpy (md5_in ctx) at (take room data) in
               case MD5_blocks (drop room data) (MD5_transform (md5_buf ctx) inb, inb) of
                 ((buf, inb), rest) \<Rightarrow> ctx\<lparr>md5_buf := buf, md5_in := memcpy inb 0 rest\<rparr>))
         else
           (case MD5_blocks data (md5_buf ctx, md5_in ctx) of
              ((buf, inb), rest) \<Rightarrow> ctx\<lparr>md5_buf := buf, md5_in := memcpy inb 0 rest\<rparr>))"

text \<open>The digest is the state in little-endian order; the context is cleared afterwards.\<close>

definition MD5_final :: "MD5Context \<Rightarrow> bytes \<times> MD5Context" where
  "MD5_final ctx =
     (let at = unat (drop_bit 3 (md5_bits0 ctx) AND 0x3F);
          in1 = memcpy (md5_in ctx) at [0x80];
          count = 64 - 1 - at;
          (buf, in2) =
            (if count < 8 then
               (let inb = memcpy in1 (at + 1) (replicate count 0)
                in (MD5_transform (md5_buf ctx) inb, memcpy inb 0 (replicate 56 0)))
             else (md5_buf ctx, memcpy in1 (at + 1) (replicate (count - 8) 0)));
          in3 = memcpy (memcpy in2 56 (obj_bytes 4 (md5_bits0 ctx))) 60 (obj_bytes 4 (md5_bits1 ctx));
          buf = MD5_transform buf in3
      in (concat (map (obj_bytes 4) buf),
          \<lparr>md5_buf = replicate 4 0, md5_bits0 = 0, md5_bits1 = 0, md5_in = replicate 64 0\<rparr>))"

section \<open>Reference\<close>

definition md5_T :: "u32 list" where
  "md5_T =
     [0xd76aa478, 0xe8c7b756, 0x242070db, 0xc1bdceee, 0xf57c0faf, 0x4787c62a, 0xa8304613, 0xfd469501,
      0x698098d8, 0x8b44f7af, 0xffff5bb1, 0x895cd7be, 0x6b901122, 0xfd987193, 0xa679438e, 0x49b40821,
      0xf61e2562, 0xc040b340, 0x265e5a51, 0xe9b6c7aa, 0xd62f105d, 0x02441453, 0xd8a1e681, 0xe7d3fbc8,
      0x21e1cde6, 0xc33707d6, 0xf4d50d87, 0x455a14ed, 0xa9e3e905, 0xfcefa3f8, 0x676f02d9, 0x8d2a4c8a,
      0xfffa3942, 0x8771f681, 0x6d9d6122, 0xfde5380c, 0xa4beea44, 0x4bdecfa9, 0xf6bb4b60, 0xbebfbc70,
      0x289b7ec6, 0xeaa127fa, 0xd4ef3085, 0x04881d05, 0xd9d4d039, 0xe6db99e5, 0x1fa27cf8, 0xc4ac5665,
      0xf4292244, 0x432aff97, 0xab9423a7, 0xfc93a039, 0x655b59c3, 0x8f0ccc92, 0xffeff47d, 0x85845dd1,
      0x6fa87e4f, 0xfe2ce6e0, 0xa3014314, 0x4e0811a1, 0xf7537e82, 0xbd3af235, 0x2ad7d2bb, 0xeb86d391]"

definition md5_word :: "nat \<Rightarrow> nat" where
  "md5_word t = (if t < 16 then t else if t < 32 then (1 + 5 * t) mod 16 else if t < 48 then (5 + 3 * t) mod 16 else (7 * t) mod 16)"

definition md5_shift :: "nat \<Rightarrow> nat" where
  "md5_shift t = [[7, 12, 17, 22], [5, 9, 14, 20], [4, 11, 16, 23], [6, 10, 15, 21]] ! (t div 16) ! (t mod 4)"

definition md5_F :: "nat \<Rightarrow> u32 \<Rightarrow> u32 \<Rightarrow> u32 \<Rightarrow> u32" where
  "md5_F t x y z =
     (if t < 16 then (x AND y) OR (NOT x AND z)
      else if t < 32 then (x AND z) OR (y AND NOT z)
      else if t < 48 then x XOR y XOR z
      else y XOR (x OR NOT z))"

definition md5_round :: "u32 list \<Rightarrow> nat \<Rightarrow> u32 list \<Rightarrow> u32 list" where
  "md5_round X t v =
     [v ! 3,
      v ! 1 + word_rotl (md5_shift t) (v ! 0 + md5_F t (v ! 1) (v ! 2) (v ! 3) + X ! md5_word t + md5_T ! t),
      v ! 1, v ! 2]"

definition md5_compress :: "u32 list \<Rightarrow> bytes \<Rightarrow> u32 list" where
  "md5_compress st block =
     map2 (+) st (fold (md5_round (map (\<lambda>i. le_load (take 4 (drop (4 * i) block))) [0..<16])) [0..<64] st)"

definition md5_padding :: "nat \<Rightarrow> bytes" where
  "md5_padding n = 0x80 # replicate ((119 - n mod 64) mod 64) 0 @ le_bytes 8 (of_nat (8 * n) :: u64)"

definition md5_print :: "u32 list \<Rightarrow> bytes" where
  "md5_print st = concat (map (le_bytes 4) st)"

section \<open>The transform is the RFC's\<close>

lemma md5_F_f: "md5_F1 x y z = (x AND y) OR (NOT x AND z)"
  by (rule bit_word_eqI, auto simp: md5_F1_def bit_simps)

definition md5_call :: "nat \<Rightarrow> md5_fun \<times> nat \<times> nat \<times> nat \<times> nat \<times> nat \<times> u32 \<times> nat" where
  "md5_call t =
     (if t < 16 then F1 else if t < 32 then F2 else if t < 48 then F3 else F4,
      3 * t mod 4, (1 + 3 * t) mod 4, (2 + 3 * t) mod 4, (3 + 3 * t) mod 4, md5_word t, md5_T ! t, md5_shift t)"

lemma md5_steps_calls: "md5_steps = map md5_call [0..<64]"
  unfolding md5_steps_def by (simp add: md5_call_def md5_word_def md5_shift_def md5_T_def upt_rec)

lemma md5_shift_range: "t < 64 \<Longrightarrow> 0 < md5_shift t \<and> md5_shift t < 32"
proof -
  assume "t < 64"
  then have "t div 16 < 4" "t mod 4 < 4" by auto
  then have "t div 16 \<in> {0, 1, 2, 3}" "t mod 4 \<in> {0, 1, 2, 3}" by auto
  then show ?thesis by (auto simp: md5_shift_def)
qed

definition md5_sim :: "nat \<Rightarrow> u32 list \<Rightarrow> u32 list \<Rightarrow> bool" where
  "md5_sim t v vars \<longleftrightarrow> length v = 4 \<and> length vars = 4 \<and> (\<forall>k<4. vars ! ((k + 3 * t) mod 4) = v ! k)"

lemma all_less_4: "(\<forall>k<4. P k) \<longleftrightarrow> P 0 \<and> P 1 \<and> P 2 \<and> P (3 :: nat)"
proof -
  have "k < 4 \<longleftrightarrow> k = 0 \<or> k = 1 \<or> k = 2 \<or> k = 3" for k :: nat by linarith
  then show ?thesis by auto
qed

lemma md5_vars_sim:
  fixes T :: u32
  assumes "md5_sim t v vars"
  shows "md5_sim (Suc t) [v ! 3, T, v ! 1, v ! 2] (vars[3 * t mod 4 := T])"
proof -
  define u where "u = 3 * t mod 4"
  have i: "(k + 3 * t) mod 4 = (k + u) mod 4" "(k + 3 * Suc t) mod 4 = (k + (3 + u)) mod 4" "3 * t mod 4 = u" for k
    unfolding u_def by (simp_all add: mod_add_right_eq add.assoc [symmetric])
  have l: "length vars = 4" and v: "vars ! ((1 + u) mod 4) = v ! 1" "vars ! ((2 + u) mod 4) = v ! 2" "vars ! ((3 + u) mod 4) = v ! 3"
    using assms unfolding md5_sim_def all_less_4 i by simp_all
  obtain p0 p1 p2 p3 where p: "vars = [p0, p1, p2, p3]"
    using l by (rule length4_cases)
  have "u = 0 \<or> u = 1 \<or> u = 2 \<or> u = 3" unfolding u_def by linarith
  then show ?thesis
    using v unfolding md5_sim_def i all_less_4 p by (elim disjE) (simp_all only:, simp_all)
qed

lemma md5_step_sim:
  assumes "md5_sim t v vars" "t < 64"
  shows "md5_sim (Suc t) (md5_round X t v) (MD5STEP X (md5_call t) vars)"
proof -
  have ix: "vars ! (3 * t mod 4) = v ! 0" "vars ! ((1 + 3 * t) mod 4) = v ! 1" "vars ! ((2 + 3 * t) mod 4) = v ! 2"
    "vars ! ((3 + 3 * t) mod 4) = v ! 3"
    using assms(1) unfolding md5_sim_def all_less_4 by simp_all
  have f: "md5_f (fst (md5_call t)) x y z = md5_F t x y z" for x y z
    by (simp add: md5_call_def md5_F_def md5_F_f and.commute)
  define T where "T = v ! 1 + word_rotl (md5_shift t) (v ! 0 + md5_F t (v ! 1) (v ! 2) (v ! 3) + X ! md5_word t + md5_T ! t)"
  have "MD5STEP X (md5_call t) vars = vars[3 * t mod 4 := T]"
  proof -
    define rnd where "rnd = fst (md5_call t)"
    have call: "md5_call t = (rnd, 3 * t mod 4, (1 + 3 * t) mod 4, (2 + 3 * t) mod 4, (3 + 3 * t) mod 4, md5_word t, md5_T ! t, md5_shift t)"
      by (simp add: md5_call_def rnd_def)
    show ?thesis
      unfolding MD5STEP_def call prod.case Let_def ix f [folded rnd_def] T_def
      using md5_shift_range [OF assms(2)] by (simp add: word_rotl_shifts algebra_simps)
  qed
  with md5_vars_sim [OF assms(1), of T] show ?thesis by (simp add: md5_round_def T_def)
qed

lemma md5_steps_sim:
  "length st = 4 \<Longrightarrow> t \<le> 64 \<Longrightarrow> md5_sim t (fold (md5_round X) [0..<t] st) (fold (MD5STEP X) (map md5_call [0..<t]) st)"
proof (induction t)
  case 0
  then show ?case by (simp add: md5_sim_def)
next
  case (Suc t)
  with md5_step_sim [of t "fold (md5_round X) [0..<t] st" "fold (MD5STEP X) (map md5_call [0..<t]) st" X] show ?case by simp
qed

lemma md5_transform_rfc:
  assumes "length st = 4"
  shows "MD5_transform st b = md5_compress st b"
proof -
  define X where "X = block_words b"
  have "md5_sim 64 (fold (md5_round X) [0..<64] st) (fold (MD5STEP X) md5_steps st)"
    using md5_steps_sim [OF assms, of 64 X] by (simp only: md5_steps_calls)
  then have v: "length (fold (MD5STEP X) md5_steps st) = 4" "length (fold (md5_round X) [0..<64] st) = 4"
    "\<And>k. k < 4 \<Longrightarrow> fold (MD5STEP X) md5_steps st ! ((k + 3 * 64) mod 4) = fold (md5_round X) [0..<64] st ! k"
    by (auto simp: md5_sim_def)
  have "fold (MD5STEP X) md5_steps st = fold (md5_round X) [0..<64] st"
  proof (rule nth_equalityI)
    fix k
    assume "k < length (fold (MD5STEP X) md5_steps st)"
    then have "(k + 3 * 64) mod 4 = k" "k < 4" using v(1) mod_mult_self2 [of k 4 48] by simp_all
    then show "fold (MD5STEP X) md5_steps st ! k = fold (md5_round X) [0..<64] st ! k" using v(3) by metis
  qed (simp only: v)
  then show ?thesis
    by (simp add: MD5_transform_def md5_compress_def X_def block_words_def obj_load_def host_big_endian_def)
qed

section \<open>Streaming\<close>

abbreviation md5_iv :: "u32 list" where
  "md5_iv \<equiv> [0x67452301, 0xefcdab89, 0x98badcfe, 0x10325476]"

abbreviation md5_repr :: "MD5Context \<Rightarrow> bytes \<Rightarrow> bool" where
  "md5_repr \<equiv> stream_repr MD5_transform md5_iv md5_buf (\<lambda>c. count_words (md5_bits0 c) (md5_bits1 c)) md5_in"

lemma MD5_blocks_absorb:
  "length inb = 64 \<Longrightarrow>
     \<exists>inb'. MD5_blocks data (buf, inb) = ((absorb MD5_transform buf data, inb'), unabsorbed data) \<and> length inb' = 64"
proof (induction data "(buf, inb)" arbitrary: buf inb rule: MD5_blocks.induct)
  case (1 data buf inb)
  show ?case
  proof (cases "length data \<ge> 64")
    case True
    define inb' where "inb' = memcpy inb 0 (take 64 data)"
    have m: "inb' = take 64 data" "length inb' = 64" using True 1(2) by (simp_all add: inb'_def memcpy_def)
    have "absorb MD5_transform buf data = absorb MD5_transform (MD5_transform buf inb') (drop 64 data)"
      using absorb_block [of inb' MD5_transform buf "drop 64 data"] m by simp
    moreover have "unabsorbed data = unabsorbed (drop 64 data)"
      using unabsorbed_block [of inb' "drop 64 data"] m by simp
    moreover have "MD5_blocks data (buf, inb) = MD5_blocks (drop 64 data) (MD5_transform buf inb', inb')"
      using True by (subst MD5_blocks.simps) (simp add: inb'_def Let_def)
    ultimately show ?thesis using 1(1) [OF True inb'_def m(2)] by simp
  next
    case False
    then show ?thesis using 1(2) by (subst MD5_blocks.simps) simp
  qed
qed

lemma MD5_update_count:
  "count_words (md5_bits0 (MD5_update d c)) (md5_bits1 (MD5_update d c)) =
     count_words (md5_bits0 c) (md5_bits1 c) + of_nat (8 * length d)"
proof -
  have p: "push_bit 3 (ucast (of_nat n :: u64)) = (of_nat (8 * n) :: u32)" for n
  proof -
    have "(ucast (of_nat n :: u64) :: u32) = of_nat n"
      by (simp only: unsigned_of_nat word_of_nat_eq_iff) (simp add: take_bit_take_bit)
    then show ?thesis by (simp add: push_bit_eq_mult)
  qed
  have "(md5_bits0 c + of_nat (8 * length d) < md5_bits0 c) \<longleftrightarrow>
      2 ^ 32 \<le> unat (md5_bits0 c) + (8 * length d) mod 2 ^ 32"
    using add_carry(2) [of "md5_bits0 c" "of_nat (8 * length d)"] unfolding unat_of_nat by simp
  note add = count_words_add [OF this, of "md5_bits1 c"]
  have "md5_bits0 (MD5_update d c) = md5_bits0 c + of_nat (8 * length d)"
    "md5_bits1 (MD5_update d c) =
      (if md5_bits0 c + of_nat (8 * length d) < md5_bits0 c then md5_bits1 c + 1 else md5_bits1 c) +
      of_nat (8 * length d div 2 ^ 32)"
    unfolding MD5_update_def Let_def p bit_count_words(2) by (simp_all split: prod.split)
  then show ?thesis by (simp only: add)
qed

lemma MD5_update_repr:
  assumes "md5_repr c m"
  shows "md5_repr (MD5_update d c) (m @ d)"
proof -
  define k where "k = length m mod 64"
  define r where "r = unabsorbed m"
  have c: "md5_buf c = absorb MD5_transform md5_iv m" "length (md5_in c) = 64"
    "take k (md5_in c) = r" "count_words (md5_bits0 c) (md5_bits1 c) = of_nat (8 * length m)"
    using assms by (simp_all add: stream_repr_def k_def r_def)
  have r: "length r = k" "k < 64" by (simp_all add: r_def k_def)
  have index: "unat (drop_bit 3 (md5_bits0 c) AND 63) = k"
    using count_words_index [OF c(4)] by (simp add: ctx_index k_def)
  note goal = absorb_append [of MD5_transform md5_iv m d, folded r_def c(1)] unabsorbed_append [of m d, folded r_def]
  have fed: "md5_buf (MD5_update d c) = absorb MD5_transform (md5_buf c) (r @ d) \<and>
      length (md5_in (MD5_update d c)) = 64 \<and>
      take (length (unabsorbed (r @ d))) (md5_in (MD5_update d c)) = unabsorbed (r @ d)"
  proof (cases "k = 0")
    case True
    obtain inb' where b: "MD5_blocks d (md5_buf c, md5_in c) = ((absorb MD5_transform (md5_buf c) d, inb'), unabsorbed d)"
      "length inb' = 64" using MD5_blocks_absorb [OF c(2)] by blast
    then show ?thesis
      using True r take_memcpy [of 0 "unabsorbed d" inb'] by (simp add: MD5_update_def Let_def index)
  next
    case False
    show ?thesis
    proof (cases "length d < 64 - k")
      case True
      then show ?thesis
        using False r c(2,3) take_memcpy [of k d "md5_in c"] by (simp add: MD5_update_def Let_def index)
    next
      case long: False
      define i where "i = 64 - k"
      define b where "b = memcpy (md5_in c) k (take i d)"
      have b: "b = r @ take i d" "length b = 64" "r @ d = b @ drop i d"
        using take_memcpy [of k "take i d" "md5_in c"] c(2,3) long r by (simp_all add: b_def i_def memcpy_def)
      obtain inb' where x: "MD5_blocks (drop i d) (MD5_transform (md5_buf c) b, b) =
          ((absorb MD5_transform (MD5_transform (md5_buf c) b) (drop i d), inb'), unabsorbed (drop i d))"
        "length inb' = 64" using MD5_blocks_absorb [OF b(2)] by blast
      have "md5_buf (MD5_update d c) = absorb MD5_transform (MD5_transform (md5_buf c) b) (drop i d)"
        "md5_in (MD5_update d c) = memcpy inb' 0 (unabsorbed (drop i d))"
        using False long x(1) unfolding b_def i_def by (simp_all add: MD5_update_def Let_def index)
      then show ?thesis
        using x(2) take_memcpy [of 0 "unabsorbed (drop i d)" inb']
        unfolding b(3) absorb_block [OF b(2), of MD5_transform] unabsorbed_block [OF b(2)] by simp
    qed
  qed
  have "length (m @ d) mod 64 = length (unabsorbed (r @ d))"
    unfolding length_unabsorbed [symmetric] goal(2) by simp
  moreover have "count_words (md5_bits0 (MD5_update d c)) (md5_bits1 (MD5_update d c)) = of_nat (8 * length (m @ d))"
    unfolding MD5_update_count c(4) by (simp add: distrib_left)
  ultimately show ?thesis
    using fed unfolding stream_repr_def goal by (simp only: simp_thms)
qed

interpretation md5_stream: hash_stream MD5_transform md5_iv md5_buf
  "\<lambda>c. count_words (md5_bits0 c) (md5_bits1 c)" md5_in MD5_init MD5_update
proof
  show "md5_repr (MD5_init c) []" if "length (md5_in c) = 64" for c
    using that by (simp add: stream_repr_def MD5_init_def count_words_def unabsorbed_def)
qed (rule MD5_update_repr)

section \<open>Padding and digest\<close>

lemma length_MD5_transform [simp]: "length st = 4 \<Longrightarrow> length (MD5_transform st b) = 4"
proof -
  assume "length st = 4"
  moreover have "length (fold (MD5STEP X) rs v) = length v" for X rs v
    by (induction rs arbitrary: v) (simp_all add: MD5STEP_def Let_def split: prod.split)
  ultimately show ?thesis by (simp add: MD5_transform_def)
qed

lemma absorb_md5_rfc: "length st = 4 \<Longrightarrow> absorb MD5_transform st m = absorb md5_compress st m"
proof (induction md5_compress st m rule: absorb.induct)
  case (1 st m)
  then show ?case using length_MD5_transform [of st "take 64 m"]
    by (subst (1 2) absorb.simps) (simp add: md5_transform_rfc)
qed

lemma MD5_final_digest:
  assumes "md5_repr c m"
  shows "fst (MD5_final c) = md5_print (absorb MD5_transform md5_iv (m @ md5_padding (length m)))"
proof -
  define k where "k = length m mod 64"
  define r where "r = unabsorbed m"
  have c: "md5_buf c = absorb MD5_transform md5_iv m" "length (md5_in c) = 64"
    "take k (md5_in c) = r" "count_words (md5_bits0 c) (md5_bits1 c) = of_nat (8 * length m)"
    using assms by (simp_all add: stream_repr_def k_def r_def)
  have r: "length r = k" "k < 64" by (simp_all add: r_def k_def)
  have index: "unat (drop_bit 3 (md5_bits0 c) AND 63) = k"
    using count_words_index [OF c(4)] by (simp add: ctx_index k_def)
  define tail where "tail = obj_bytes 4 (md5_bits0 c) @ obj_bytes 4 (md5_bits1 c)"
  have tail: "tail = le_bytes 8 (of_nat (8 * length m) :: u64)" "length tail = 8"
    using le_bytes_count_words [of "md5_bits0 c" "md5_bits1 c"] c(4)
    by (simp_all add: tail_def obj_bytes_def host_big_endian_def)
  have in3: "memcpy (memcpy x 56 (obj_bytes 4 (md5_bits0 c))) 60 (obj_bytes 4 (md5_bits1 c)) = take 56 x @ tail"
    if "length x = 64" for x
    using that by (simp add: memcpy_def tail_def min_def)
  define in1 where "in1 = memcpy (md5_in c) k [0x80]"
  have in1: "take (k + 1) in1 = r @ [0x80]" "length in1 = 64"
    using take_memcpy [of k "[0x80]" "md5_in c"] c(2,3) r by (simp_all add: in1_def)
  have print: "concat (map (obj_bytes 4) st) = md5_print st" for st :: "u32 list"
    by (simp add: md5_print_def obj_bytes_def [abs_def] host_big_endian_def)
  have whole: "absorb MD5_transform md5_iv (m @ md5_padding (length m)) =
      absorb MD5_transform (md5_buf c) (r @ [0x80] @ replicate ((119 - k) mod 64) 0 @ tail)"
    unfolding absorb_append [of _ _ m] r_def c(1) k_def tail(1) md5_padding_def by simp
  show ?thesis
  proof (cases "k \<ge> 56")
    case True
    define inb where "inb = memcpy in1 (k + 1) (replicate (63 - k) 0)"
    have inb: "inb = r @ [0x80] @ replicate (63 - k) 0" "length inb = 64"
      using take_memcpy [of "k + 1" "replicate (63 - k) 0" in1] in1 r by (simp_all add: inb_def memcpy_def)
    have z: "(119 - k) mod 64 = (63 - k) + 56" using True r by simp
    have "fst (MD5_final c) = md5_print (MD5_transform (MD5_transform (md5_buf c) inb) (replicate 56 0 @ tail))"
    proof -
      have "63 - k < 8" using True by simp
      moreover have "memcpy (memcpy (memcpy inb 0 (replicate 56 0)) 56 (obj_bytes 4 (md5_bits0 c))) 60
          (obj_bytes 4 (md5_bits1 c)) = replicate 56 0 @ tail"
        using inb(2) in3 [of "memcpy inb 0 (replicate 56 0)"] take_memcpy [of 0 "replicate 56 0" inb] by simp
      ultimately show ?thesis
        unfolding MD5_final_def Let_def index in1_def [symmetric] print by (simp add: inb_def)
    qed
    moreover have "absorb MD5_transform (md5_buf c) (inb @ (replicate 56 0 @ tail)) =
        MD5_transform (MD5_transform (md5_buf c) inb) (replicate 56 0 @ tail)"
      using absorb_block [OF inb(2), of MD5_transform] tail(2) by simp
    ultimately show ?thesis unfolding whole z inb(1) by (simp add: replicate_add)
  next
    case False
    define in2 where "in2 = memcpy in1 (k + 1) (replicate (55 - k) 0)"
    have in2: "take 56 in2 = r @ [0x80] @ replicate (55 - k) 0" "length in2 = 64"
      using take_memcpy [of "k + 1" "replicate (55 - k) 0" in1] in1 r False by (simp_all add: in2_def)
    have "119 - k = (55 - k) + 64" using False by simp
    then have "(119 - k) mod 64 = (55 - k) mod 64" by (simp only: mod_add_self2)
    then have z: "(119 - k) mod 64 = 55 - k" by simp
    have "fst (MD5_final c) = md5_print (MD5_transform (md5_buf c) (take 56 in2 @ tail))"
    proof -
      have "\<not> 63 - k < 8" "63 - k - 8 = 55 - k" using False by simp_all
      then show ?thesis
        using in3 [OF in2(2)] unfolding MD5_final_def Let_def index in1_def [symmetric] print by (simp add: in2_def)
    qed
    moreover have "length (take 56 in2 @ tail) = 64" using in2(2) tail(2) by simp
    then have "absorb MD5_transform (md5_buf c) (take 56 in2 @ tail) = MD5_transform (md5_buf c) (take 56 in2 @ tail)"
      by (rule absorb_one)
    ultimately show ?thesis unfolding whole z by (simp add: in2(1))
  qed
qed

interpretation md5_digest: hash_digest MD5_transform md5_iv md5_buf
  "\<lambda>c. count_words (md5_bits0 c) (md5_bits1 c)" md5_in MD5_init MD5_update MD5_final md5_padding md5_print
  by unfold_locales (simp_all add: MD5_final_digest, simp add: MD5_final_def Let_def split: prod.split)

section \<open>Properties\<close>

text \<open>C17. Feeding a message to MD5 in any pieces and finishing gives the digest of RFC 1321: its compression
  function absorbs the whole message with its padding, and the digest is the chaining state in little-endian
  order. The padding ends with the bit count, least significant byte first, as in the RFC; the comment above
  \<open>MD5_final\<close> says most significant byte first.\<close>

theorem md5_digest_rfc:
  assumes "length (md5_in c) = 64"
  shows "fst (MD5_final (fold MD5_update ds (MD5_init c))) =
    md5_print (absorb md5_compress md5_iv (concat ds @ md5_padding (length (concat ds))))"
  using md5_digest.digest_of_pieces [OF assms, of ds] by (simp add: absorb_md5_rfc)

theorem md5_digest_rfc_witness:
  "fst (MD5_final (fold MD5_update [[0x61], [], [0x62, 0x63]]
      (MD5_init \<lparr>md5_buf = [], md5_bits0 = 7, md5_bits1 = 9, md5_in = replicate 64 0xAA\<rparr>))) =
    md5_print (md5_compress md5_iv ([0x61, 0x62, 0x63, 0x80] @ replicate 52 0 @ [0x18, 0, 0, 0, 0, 0, 0, 0]))"
proof -
  have pad: "md5_padding (Suc (Suc (Suc 0))) = 0x80 # replicate 52 0 @ [0x18, 0, 0, 0, 0, 0, 0, 0]"
    by (simp add: md5_padding_def le_bytes_def upt_rec)
  show ?thesis
    using md5_digest_rfc
      [of "\<lparr>md5_buf = [], md5_bits0 = 7, md5_bits1 = 9, md5_in = replicate 64 0xAA\<rparr>" "[[0x61], [], [0x62, 0x63]]"]
    by (simp add: pad)
qed

end
