(* ===== verification/Sha1.thy ===== *)
theory Sha1
  imports Block_Hash
begin

text \<open>
  SHA-1 (\<open>sha1.h\<close>, \<open>sha1.cc\<close>) on a little-endian host. The working variables \<open>a\<close> to \<open>e\<close> of
  \<open>SHA1_transform\<close> are a list of five words and its eighty macro calls are the list \<open>sha1_rounds\<close>, one
  entry per source line, with the positions of the variables as the macro's arguments; the sixteen words of
  the block are overwritten in place as in the code. The reference is the standard's loop over an
  eighty-word schedule.
\<close>

section \<open>The block transform\<close>

definition rol :: "u32 \<Rightarrow> nat \<Rightarrow> u32" where
  "rol value bits = push_bit bits value OR drop_bit (32 - bits) value"

definition blk0 :: "u32 list \<Rightarrow> nat \<Rightarrow> u32 list" where
  "blk0 l i = l[i := (rol (l ! i) 24 AND 0xFF00FF00) OR (rol (l ! i) 8 AND 0x00FF00FF)]"

definition blk :: "u32 list \<Rightarrow> nat \<Rightarrow> u32 list" where
  "blk l i = l[i mod 16 := rol (l ! ((i + 13) mod 16) XOR l ! ((i + 8) mod 16) XOR
     l ! ((i + 2) mod 16) XOR l ! (i mod 16)) 1]"

datatype sha1_op = R0 | R1 | R2 | R3 | R4

fun sha1_expand :: "sha1_op \<Rightarrow> u32 list \<Rightarrow> nat \<Rightarrow> u32 list" where
  "sha1_expand R0 l i = blk0 l i"
| "sha1_expand _ l i = blk l i"

fun sha1_mix :: "sha1_op \<Rightarrow> u32 \<Rightarrow> u32 \<Rightarrow> u32 \<Rightarrow> u32" where
  "sha1_mix R0 w x y = (w AND (x XOR y)) XOR y"
| "sha1_mix R1 w x y = (w AND (x XOR y)) XOR y"
| "sha1_mix R2 w x y = w XOR x XOR y"
| "sha1_mix R3 w x y = ((w OR x) AND y) OR (w AND x)"
| "sha1_mix R4 w x y = w XOR x XOR y"

fun sha1_constant :: "sha1_op \<Rightarrow> u32" where
  "sha1_constant R0 = 0x5A827999"
| "sha1_constant R1 = 0x5A827999"
| "sha1_constant R2 = 0x6ED9EBA1"
| "sha1_constant R3 = 0x8F1BBCDC"
| "sha1_constant R4 = 0xCA62C1D6"

text \<open>One macro call: expand the block word, add into the variable \<open>z\<close>, rotate the variable \<open>w\<close>.\<close>

definition sha1_round ::
  "sha1_op \<times> nat \<times> nat \<times> nat \<times> nat \<times> nat \<times> nat \<Rightarrow> u32 list \<times> u32 list \<Rightarrow> u32 list \<times> u32 list" where
  "sha1_round r s =
     (case r of (rnd, v, w, x, y, z, i) \<Rightarrow> case s of (vars, l) \<Rightarrow>
        let l' = sha1_expand rnd l i;
            vars' = vars[z := vars ! z + (sha1_mix rnd (vars ! w) (vars ! x) (vars ! y) + l' ! (i mod 16) +
                      sha1_constant rnd + rol (vars ! v) 5)]
        in (vars'[w := rol (vars' ! w) 30], l'))"

definition sha1_rounds :: "(sha1_op \<times> nat \<times> nat \<times> nat \<times> nat \<times> nat \<times> nat) list" where
  "sha1_rounds =
     [(R0, 0, 1, 2, 3, 4, 0), (R0, 4, 0, 1, 2, 3, 1), (R0, 3, 4, 0, 1, 2, 2), (R0, 2, 3, 4, 0, 1, 3), (R0, 1, 2, 3, 4, 0, 4),
      (R0, 0, 1, 2, 3, 4, 5), (R0, 4, 0, 1, 2, 3, 6), (R0, 3, 4, 0, 1, 2, 7), (R0, 2, 3, 4, 0, 1, 8), (R0, 1, 2, 3, 4, 0, 9),
      (R0, 0, 1, 2, 3, 4, 10), (R0, 4, 0, 1, 2, 3, 11), (R0, 3, 4, 0, 1, 2, 12), (R0, 2, 3, 4, 0, 1, 13), (R0, 1, 2, 3, 4, 0, 14),
      (R0, 0, 1, 2, 3, 4, 15), (R1, 4, 0, 1, 2, 3, 16), (R1, 3, 4, 0, 1, 2, 17), (R1, 2, 3, 4, 0, 1, 18), (R1, 1, 2, 3, 4, 0, 19),
      (R2, 0, 1, 2, 3, 4, 20), (R2, 4, 0, 1, 2, 3, 21), (R2, 3, 4, 0, 1, 2, 22), (R2, 2, 3, 4, 0, 1, 23), (R2, 1, 2, 3, 4, 0, 24),
      (R2, 0, 1, 2, 3, 4, 25), (R2, 4, 0, 1, 2, 3, 26), (R2, 3, 4, 0, 1, 2, 27), (R2, 2, 3, 4, 0, 1, 28), (R2, 1, 2, 3, 4, 0, 29),
      (R2, 0, 1, 2, 3, 4, 30), (R2, 4, 0, 1, 2, 3, 31), (R2, 3, 4, 0, 1, 2, 32), (R2, 2, 3, 4, 0, 1, 33), (R2, 1, 2, 3, 4, 0, 34),
      (R2, 0, 1, 2, 3, 4, 35), (R2, 4, 0, 1, 2, 3, 36), (R2, 3, 4, 0, 1, 2, 37), (R2, 2, 3, 4, 0, 1, 38), (R2, 1, 2, 3, 4, 0, 39),
      (R3, 0, 1, 2, 3, 4, 40), (R3, 4, 0, 1, 2, 3, 41), (R3, 3, 4, 0, 1, 2, 42), (R3, 2, 3, 4, 0, 1, 43), (R3, 1, 2, 3, 4, 0, 44),
      (R3, 0, 1, 2, 3, 4, 45), (R3, 4, 0, 1, 2, 3, 46), (R3, 3, 4, 0, 1, 2, 47), (R3, 2, 3, 4, 0, 1, 48), (R3, 1, 2, 3, 4, 0, 49),
      (R3, 0, 1, 2, 3, 4, 50), (R3, 4, 0, 1, 2, 3, 51), (R3, 3, 4, 0, 1, 2, 52), (R3, 2, 3, 4, 0, 1, 53), (R3, 1, 2, 3, 4, 0, 54),
      (R3, 0, 1, 2, 3, 4, 55), (R3, 4, 0, 1, 2, 3, 56), (R3, 3, 4, 0, 1, 2, 57), (R3, 2, 3, 4, 0, 1, 58), (R3, 1, 2, 3, 4, 0, 59),
      (R4, 0, 1, 2, 3, 4, 60), (R4, 4, 0, 1, 2, 3, 61), (R4, 3, 4, 0, 1, 2, 62), (R4, 2, 3, 4, 0, 1, 63), (R4, 1, 2, 3, 4, 0, 64),
      (R4, 0, 1, 2, 3, 4, 65), (R4, 4, 0, 1, 2, 3, 66), (R4, 3, 4, 0, 1, 2, 67), (R4, 2, 3, 4, 0, 1, 68), (R4, 1, 2, 3, 4, 0, 69),
      (R4, 0, 1, 2, 3, 4, 70), (R4, 4, 0, 1, 2, 3, 71), (R4, 3, 4, 0, 1, 2, 72), (R4, 2, 3, 4, 0, 1, 73), (R4, 1, 2, 3, 4, 0, 74),
      (R4, 0, 1, 2, 3, 4, 75), (R4, 4, 0, 1, 2, 3, 76), (R4, 3, 4, 0, 1, 2, 77), (R4, 2, 3, 4, 0, 1, 78), (R4, 1, 2, 3, 4, 0, 79)]"

definition SHA1_transform :: "u32 list \<Rightarrow> bytes \<Rightarrow> u32 list" where
  "SHA1_transform state buffer =
     (case fold sha1_round sha1_rounds (state, block_words (take 64 buffer)) of
        (vars, l) \<Rightarrow> map2 (+) state vars)"

section \<open>Contexts\<close>

record SHA1_CTX =
  ctx_state :: "u32 list"
  ctx_count0 :: u32
  ctx_count1 :: u32
  ctx_buffer :: bytes

definition SHA1_init :: "SHA1_CTX \<Rightarrow> SHA1_CTX" where
  "SHA1_init context =
     context\<lparr>ctx_state := [0x67452301, 0xEFCDAB89, 0x98BADCFE, 0x10325476, 0xC3D2E1F0],
             ctx_count0 := 0, ctx_count1 := 0\<rparr>"

function SHA1_update_blocks :: "bytes \<Rightarrow> nat \<Rightarrow> u32 list \<Rightarrow> u32 list \<times> nat" where
  "SHA1_update_blocks data i state =
     (if i + 63 < length data then SHA1_update_blocks data (i + 64) (SHA1_transform state (drop i data))
      else (state, i))"
  by pat_completeness auto
termination by (relation "measure (\<lambda>(data, i, _). length data - i)") auto

declare SHA1_update_blocks.simps [simp del]

definition SHA1_update :: "bytes \<Rightarrow> SHA1_CTX \<Rightarrow> SHA1_CTX" where
  "SHA1_update data context =
     (let input_len = (of_nat (length data) :: u64);
          index = unat (drop_bit 3 (ctx_count0 context) AND 63);
          lo = (ucast (push_bit 3 input_len) :: u32);
          count0 = ctx_count0 context + lo;
          count1 = (if count0 < lo then ctx_count1 context + 1 else ctx_count1 context) + ucast (drop_bit 29 input_len);
          context = context\<lparr>ctx_count0 := count0, ctx_count1 := count1\<rparr>
      in if index + length data > 63 then
           (let i = 64 - index;
                buffer = memcpy (ctx_buffer context) index (take i data);
                state = SHA1_transform (ctx_state context) buffer
            in case SHA1_update_blocks data i state of (state, i) \<Rightarrow>
                 context\<lparr>ctx_state := state, ctx_buffer := memcpy buffer 0 (drop i data)\<rparr>)
         else context\<lparr>ctx_buffer := memcpy (ctx_buffer context) index data\<rparr>)"

lemma take_bit_56: "take_bit 6 (56 :: u32) = 56"
  by simp

lemma and_504: "(c AND 504 :: u32) = 448 \<longleftrightarrow> unat c div 8 mod 64 = 56"
proof -
  have m: "(504 :: u32) = push_bit 3 (mask 6)" by (simp add: mask_eq_exp_minus_1 push_bit_eq_mult)
  have "c AND 504 = push_bit 3 (take_bit 6 (drop_bit 3 c))"
    unfolding m by (rule bit_word_eqI)
      (auto simp: bit_and_iff bit_push_bit_iff bit_mask_iff bit_take_bit_iff bit_drop_bit_eq)
  moreover have "drop_bit 3 (push_bit 3 (take_bit 6 w)) = take_bit 6 w" for w :: u32
    by (rule bit_word_eqI) (auto simp: bit_drop_bit_eq bit_push_bit_iff bit_take_bit_iff)
  then have "push_bit 3 (take_bit 6 (drop_bit 3 c)) = push_bit 3 56 \<longleftrightarrow> take_bit 6 (drop_bit 3 c) = 56"
    by (metis take_bit_56)
  moreover have "take_bit 6 (drop_bit 3 c) = 56 \<longleftrightarrow> unat (take_bit 6 (drop_bit 3 c)) = unat (56 :: u32)"
    by (rule word_unat_eq_iff)
  ultimately show ?thesis
    using ctx_index [of c] unfolding and_63 by (simp add: push_bit_eq_mult)
qed

lemma pad_step:
  fixes q :: nat
  assumes "q < 64" "q \<noteq> 56"
  shows "(120 - q) mod 64 = Suc ((120 - (q + 1) mod 64) mod 64)"
proof (cases "q = 63")
  case False
  then have l: "(q + 1) mod 64 = q + 1" "q + 1 < 64" using assms by simp_all
  show ?thesis
    unfolding l(1) pad_distance [OF assms(1)] pad_distance [OF l(2)] using assms False by (cases "q \<le> 55") simp_all
qed simp

lemma count_step: "unat (c + 8) div 8 mod 64 = (unat c div 8 mod 64 + 1) mod 64" for c :: u32
proof -
  have "unat (c + 8) = (unat c + 8) mod (8 * 2 ^ 29)" by (simp add: unat_word_ariths)
  then have "unat (c + 8) div 8 = (unat c div 8 + 1) mod 2 ^ 29"
    by (simp only: mod_mult2_eq) (simp add: div_add_self2)
  then show ?thesis by (simp add: mod_mod_cancel mod_simps)
qed

lemma SHA1_update_zero_count: "ctx_count0 (SHA1_update [b] context) = ctx_count0 context + 8"
  by (simp add: SHA1_update_def Let_def split: prod.split)

text \<open>
  The loop of \<open>SHA1_final\<close> that appends zero bytes ends because every byte advances the low counter by eight:
  the distance of the fill index to 56 modulo 64 decreases.
\<close>

function SHA1_pad :: "SHA1_CTX \<Rightarrow> SHA1_CTX" where
  "SHA1_pad context = (if ctx_count0 context AND 504 \<noteq> 448 then SHA1_pad (SHA1_update [0] context) else context)"
  by pat_completeness auto
termination
proof (relation "measure (\<lambda>ctx. (120 - unat (ctx_count0 ctx) div 8 mod 64) mod 64)")
  fix ctx :: SHA1_CTX
  assume c: "ctx_count0 ctx AND 504 \<noteq> 448"
  define q where "q = unat (ctx_count0 ctx) div 8 mod 64"
  have "unat (ctx_count0 ctx + 8) div 8 mod 64 = (q + 1) mod 64" unfolding q_def by (rule count_step)
  moreover have "q \<noteq> 56" "q < 64" using c and_504 [of "ctx_count0 ctx"] by (simp_all add: q_def)
  then have "(120 - (q + 1) mod 64) mod 64 < (120 - q) mod 64"
    using pad_step [of q] by simp
  ultimately show "(SHA1_update [0] ctx, ctx) \<in> measure (\<lambda>ctx. (120 - unat (ctx_count0 ctx) div 8 mod 64) mod 64)"
    by (simp add: SHA1_update_zero_count q_def)
qed simp

declare SHA1_pad.simps [simp del]

definition finalcount :: "SHA1_CTX \<Rightarrow> bytes" where
  "finalcount context = map (\<lambda>i. ucast (drop_bit ((3 - (i mod 4)) * 8)
     (if i \<ge> 4 then ctx_count0 context else ctx_count1 context) AND 255)) [0..<8]"

definition SHA1_digest_bytes :: "u32 list \<Rightarrow> bytes" where
  "SHA1_digest_bytes state = map (\<lambda>i. ucast (drop_bit ((3 - (i mod 4)) * 8) (state ! (i div 4)) AND 255)) [0..<20]"

text \<open>After the digest the context is wiped and transformed once more.\<close>

definition SHA1_final :: "SHA1_CTX \<Rightarrow> bytes \<times> SHA1_CTX" where
  "SHA1_final context =
     (let context' = SHA1_update (finalcount context) (SHA1_pad (SHA1_update [0x80] context))
      in (SHA1_digest_bytes (ctx_state context'),
          context'\<lparr>ctx_buffer := replicate 64 0, ctx_count0 := 0, ctx_count1 := 0,
                   ctx_state := SHA1_transform (replicate 5 0) (replicate 64 0)\<rparr>))"

section \<open>Streaming\<close>

abbreviation sha1_iv :: "u32 list" where
  "sha1_iv \<equiv> [0x67452301, 0xEFCDAB89, 0x98BADCFE, 0x10325476, 0xC3D2E1F0]"

abbreviation sha1_repr :: "SHA1_CTX \<Rightarrow> bytes \<Rightarrow> bool" where
  "sha1_repr \<equiv> stream_repr SHA1_transform sha1_iv ctx_state (\<lambda>c. count_words (ctx_count0 c) (ctx_count1 c)) ctx_buffer"

lemma SHA1_transform_take: "SHA1_transform st (take 64 b) = SHA1_transform st b"
  by (simp add: SHA1_transform_def)

lemma SHA1_update_blocks_absorb:
  "SHA1_update_blocks data i st =
     (absorb SHA1_transform st (drop i data), i + 64 * ((length data - i) div 64))"
proof (induction data i st rule: SHA1_update_blocks.induct)
  case (1 data i st)
  show ?case
  proof (cases "i + 63 < length data")
    case True
    then have "drop i data = take 64 (drop i data) @ drop (i + 64) data" "length (take 64 (drop i data)) = 64"
      using append_take_drop_id [of 64 "drop i data"] by (simp_all add: add.commute)
    then have "absorb SHA1_transform st (drop i data) =
        absorb SHA1_transform (SHA1_transform st (take 64 (drop i data))) (drop (i + 64) data)"
      by (metis absorb_block)
    moreover have "(length data - i) div 64 = Suc ((length data - (i + 64)) div 64)"
      using True by (simp add: le_div_geq)
    ultimately show ?thesis
      using 1 True by (subst SHA1_update_blocks.simps) (simp add: SHA1_transform_take)
  next
    case False
    then show ?thesis by (subst SHA1_update_blocks.simps) simp
  qed
qed

lemma SHA1_update_count:
  "count_words (ctx_count0 (SHA1_update d c)) (ctx_count1 (SHA1_update d c)) =
     count_words (ctx_count0 c) (ctx_count1 c) + of_nat (8 * length d)"
proof -
  have "(ctx_count0 c + of_nat (8 * length d) < of_nat (8 * length d)) \<longleftrightarrow>
      2 ^ 32 \<le> unat (ctx_count0 c) + (8 * length d) mod 2 ^ 32"
    using add_carry(1) [of "ctx_count0 c" "of_nat (8 * length d)"] unfolding unat_of_nat by simp
  note add = count_words_add [OF this, of "ctx_count1 c"]
  have "ctx_count0 (SHA1_update d c) = ctx_count0 c + of_nat (8 * length d)"
    "ctx_count1 (SHA1_update d c) =
      (if ctx_count0 c + of_nat (8 * length d) < of_nat (8 * length d) then ctx_count1 c + 1 else ctx_count1 c) +
      of_nat (8 * length d div 2 ^ 32)"
    unfolding SHA1_update_def Let_def bit_count_words by (simp_all split: prod.split)
  then show ?thesis by (simp only: add)
qed

lemma SHA1_update_state:
  assumes "unat (drop_bit 3 (ctx_count0 c) AND 63) = k"
  shows "ctx_state (SHA1_update d c) =
      (if k + length d > 63
       then absorb SHA1_transform (SHA1_transform (ctx_state c) (memcpy (ctx_buffer c) k (take (64 - k) d))) (drop (64 - k) d)
       else ctx_state c)"
    "ctx_buffer (SHA1_update d c) =
      (if k + length d > 63
       then memcpy (memcpy (ctx_buffer c) k (take (64 - k) d)) 0 (drop (64 - k + 64 * ((length d - (64 - k)) div 64)) d)
       else memcpy (ctx_buffer c) k d)"
  unfolding SHA1_update_def Let_def SHA1_update_blocks_absorb assms prod.case by simp_all

lemma SHA1_update_repr:
  assumes "sha1_repr c m"
  shows "sha1_repr (SHA1_update d c) (m @ d)"
proof -
  define k where "k = length m mod 64"
  define r where "r = unabsorbed m"
  have c: "ctx_state c = absorb SHA1_transform sha1_iv m" "length (ctx_buffer c) = 64"
    "take k (ctx_buffer c) = r" "count_words (ctx_count0 c) (ctx_count1 c) = of_nat (8 * length m)"
    using assms by (simp_all add: stream_repr_def k_def r_def)
  have r: "length r = k" "k < 64" by (simp_all add: r_def k_def)
  have index: "unat (drop_bit 3 (ctx_count0 c) AND 63) = k"
    using count_words_index [OF c(4)] by (simp add: ctx_index k_def)
  have "count_words (ctx_count0 (SHA1_update d c)) (ctx_count1 (SHA1_update d c)) = of_nat (8 * length (m @ d))"
    unfolding SHA1_update_count c(4) by (simp add: distrib_left)
  moreover have "ctx_state (SHA1_update d c) = absorb SHA1_transform sha1_iv (m @ d) \<and>
      length (ctx_buffer (SHA1_update d c)) = 64 \<and>
      take (length (m @ d) mod 64) (ctx_buffer (SHA1_update d c)) = unabsorbed (m @ d)"
  proof (cases "k + length d > 63")
    case True
    define i where "i = 64 - k"
    define b where "b = memcpy (ctx_buffer c) k (take i d)"
    define t where "t = drop i d"
    have rd: "r @ d = (r @ take i d) @ t" "length (r @ take i d) = 64" using True r by (simp_all add: i_def t_def)
    have "take 64 b = r @ take i d" "length b = 64"
      using take_memcpy [of k "take i d" "ctx_buffer c"] c(2,3) True r by (simp_all add: b_def i_def)
    then have "SHA1_transform (ctx_state c) b = SHA1_transform (ctx_state c) (r @ take i d)"
      by (metis SHA1_transform_take)
    then have st: "absorb SHA1_transform (SHA1_transform (ctx_state c) b) t = absorb SHA1_transform sha1_iv (m @ d)"
      unfolding absorb_append [of _ _ m d] r_def [symmetric] rd(1) using absorb_block [OF rd(2), of SHA1_transform] c(1) by simp
    have un: "drop (i + 64 * ((length d - i) div 64)) d = unabsorbed (m @ d)"
      unfolding unabsorbed_append [of m d] r_def [symmetric] rd(1) unabsorbed_block [OF rd(2)]
      by (simp add: unabsorbed_def t_def add.commute)
    have "ctx_state (SHA1_update d c) = absorb SHA1_transform sha1_iv (m @ d)"
      "ctx_buffer (SHA1_update d c) = memcpy b 0 (unabsorbed (m @ d))"
      unfolding SHA1_update_state [OF index] i_def [symmetric] b_def [symmetric] t_def [symmetric] st un
      using True by (simp_all only: if_True)
    moreover have "take (length (m @ d) mod 64) (memcpy b 0 (unabsorbed (m @ d))) = unabsorbed (m @ d)"
      "length (memcpy b 0 (unabsorbed (m @ d))) = 64"
      using take_memcpy [of 0 "unabsorbed (m @ d)" b] length_memcpy [of 0 "unabsorbed (m @ d)" b] \<open>length b = 64\<close>
      by simp_all
    ultimately show ?thesis by (simp only: simp_thms)
  next
    case False
    have "length (m @ d) mod 64 = (k + length d) mod 64" unfolding k_def by (simp add: mod_add_left_eq)
    with False have s: "length (r @ d) < 64" "length (m @ d) mod 64 = k + length d" using r by simp_all
    have "absorb SHA1_transform sha1_iv (m @ d) = ctx_state c" "unabsorbed (m @ d) = r @ d"
      unfolding absorb_append [of _ _ m d] unabsorbed_append [of m d] r_def [symmetric] using s(1) c(1) by simp_all
    moreover have "k + length d \<le> length (ctx_buffer c)" using False c(2) by simp
    ultimately show ?thesis
      using False c(2,3) take_memcpy [of k d "ctx_buffer c"]
      unfolding s(2) SHA1_update_state [OF index] by simp
  qed
  ultimately show ?thesis by (simp add: stream_repr_def)
qed

interpretation sha1_stream: hash_stream SHA1_transform sha1_iv ctx_state
  "\<lambda>c. count_words (ctx_count0 c) (ctx_count1 c)" ctx_buffer SHA1_init SHA1_update
proof
  show "sha1_repr (SHA1_init c) []" if "length (ctx_buffer c) = 64" for c
    using that by (simp add: stream_repr_def SHA1_init_def count_words_def unabsorbed_def)
qed (rule SHA1_update_repr)

section \<open>Padding and digest\<close>

text \<open>One bit, zeros up to 56 modulo 64 bytes, and the length in bits, most significant byte first.\<close>

definition sha1_zeros :: "nat \<Rightarrow> nat" where
  "sha1_zeros n = (119 - n mod 64) mod 64"

definition sha1_padding :: "nat \<Rightarrow> bytes" where
  "sha1_padding n = 0x80 # replicate (sha1_zeros n) 0 @ be_bytes 8 (of_nat (8 * n) :: u64)"

definition sha1_print :: "u32 list \<Rightarrow> bytes" where
  "sha1_print st = concat (map (be_bytes 4) st)"

lemma SHA1_pad_zeros:
  "sha1_repr c m \<Longrightarrow> sha1_repr (SHA1_pad c) (m @ replicate ((120 - length m mod 64) mod 64) 0)"
proof (induction c arbitrary: m rule: SHA1_pad.induct)
  case (1 c)
  define q where "q = length m mod 64"
  have c: "count_words (ctx_count0 c) (ctx_count1 c) = of_nat (8 * length m)"
    using 1(2) by (simp add: stream_repr_def)
  have q: "ctx_count0 c AND 504 = 448 \<longleftrightarrow> q = 56" "q < 64"
    using count_words_index [OF c] and_504 [of "ctx_count0 c"] by (simp_all add: q_def)
  show ?case
  proof (cases "q = 56")
    case True
    then show ?thesis using q(1) 1(2) by (subst SHA1_pad.simps) (simp add: q_def)
  next
    case False
    have "(120 - q) mod 64 = Suc ((120 - (q + 1) mod 64) mod 64)"
      using False q(2) by (rule pad_step [rotated])
    moreover have "length (m @ [0]) mod 64 = (q + 1) mod 64" by (simp add: q_def mod_simps)
    moreover have "sha1_repr (SHA1_pad (SHA1_update [0] c)) ((m @ [0]) @ replicate ((120 - length (m @ [0]) mod 64) mod 64) 0)"
      using False q(1) by (intro 1(1) SHA1_update_repr 1(2)) simp
    moreover have "SHA1_pad c = SHA1_pad (SHA1_update [0] c)" using False q(1) by (subst SHA1_pad.simps) simp
    ultimately show ?thesis by (simp only: q_def replicate_Suc append.assoc append_Cons append_Nil)
  qed
qed

lemma sha1_zeros_pad: "sha1_zeros n = (120 - (n + 1) mod 64) mod 64"
proof (cases "n mod 64 = 63")
  case True
  then have "(n + 1) mod 64 = 0" by (simp add: mod_Suc)
  with True show ?thesis by (simp add: sha1_zeros_def)
next
  case False
  then have "(n + 1) mod 64 = n mod 64 + 1" by (simp add: mod_Suc)
  then show ?thesis by (simp add: sha1_zeros_def)
qed

lemma SHA1_digest_bytes_eq:
  assumes "length st = 5"
  shows "SHA1_digest_bytes st = sha1_print st"
proof -
  have "map (be_bytes 4) st = map (\<lambda>j. be_bytes 4 (st ! j)) [0..<5]"
    using assms by (intro nth_equalityI) simp_all
  then show ?thesis
    using bytes_of_words [of "(!) st" 5] by (simp add: SHA1_digest_bytes_def sha1_print_def)
qed

lemma finalcount_eq: "finalcount c = be_bytes 8 (count_words (ctx_count0 c) (ctx_count1 c))"
proof -
  have "(if i \<ge> 4 then ctx_count0 c else ctx_count1 c) = [ctx_count1 c, ctx_count0 c] ! (i div 4)" if "i < 8" for i
  proof -
    have "i div 4 = (if i \<ge> 4 then 1 else 0)" using that by (auto simp: div_nat_eqI)
    then show ?thesis by simp
  qed
  then have "finalcount c = concat (map (\<lambda>j. be_bytes 4 ([ctx_count1 c, ctx_count0 c] ! j)) [0..<2])"
    unfolding bytes_of_words [symmetric] finalcount_def by (intro map_cong) simp_all
  also have "\<dots> = be_bytes 4 (ctx_count1 c) @ be_bytes 4 (ctx_count0 c)" by (simp add: upt_rec)
  finally show ?thesis by (simp add: be_bytes_def le_bytes_count_words)
qed

lemma length_SHA1_transform [simp]: "length st = 5 \<Longrightarrow> length (SHA1_transform st b) = 5"
proof -
  assume "length st = 5"
  moreover have "length (fst (fold sha1_round rs s)) = length (fst s)" for rs s
    by (induction rs arbitrary: s) (simp_all add: sha1_round_def Let_def split: prod.split)
  ultimately show ?thesis
    by (simp add: SHA1_transform_def split: prod.split) (metis fst_conv min.idem)
qed

lemma length_absorb_sha1 [simp]: "length st = 5 \<Longrightarrow> length (absorb SHA1_transform st m) = 5"
  by (induction SHA1_transform st m rule: absorb.induct) (subst absorb.simps, simp)

lemma SHA1_final_digest:
  assumes "sha1_repr c m"
  shows "fst (SHA1_final c) = sha1_print (absorb SHA1_transform sha1_iv (m @ sha1_padding (length m)))"
proof -
  have "sha1_repr (SHA1_pad (SHA1_update [0x80] c)) ((m @ [0x80]) @ replicate (sha1_zeros (length m)) 0)"
    using SHA1_pad_zeros [OF SHA1_update_repr [OF assms], of "[0x80]"] by (simp add: sha1_zeros_pad)
  from SHA1_update_repr [OF this, of "finalcount c"]
  have "sha1_repr (SHA1_update (finalcount c) (SHA1_pad (SHA1_update [0x80] c))) (m @ sha1_padding (length m))"
    using assms by (simp add: finalcount_eq sha1_padding_def stream_repr_def [of _ _ _ _ _ c])
  then show ?thesis
    by (simp add: SHA1_final_def Let_def SHA1_digest_bytes_eq stream_repr_def)
qed

interpretation sha1_digest: hash_digest SHA1_transform sha1_iv ctx_state
  "\<lambda>c. count_words (ctx_count0 c) (ctx_count1 c)" ctx_buffer SHA1_init SHA1_update SHA1_final sha1_padding sha1_print
  by unfold_locales (simp_all add: SHA1_final_digest, simp add: SHA1_final_def Let_def)

section \<open>The transform is the standard's\<close>

definition sha1_f :: "nat \<Rightarrow> u32 \<Rightarrow> u32 \<Rightarrow> u32 \<Rightarrow> u32" where
  "sha1_f t x y z =
     (if t < 20 then (x AND y) XOR (NOT x AND z)
      else if t < 40 then x XOR y XOR z
      else if t < 60 then (x AND y) XOR (x AND z) XOR (y AND z)
      else x XOR y XOR z)"

definition sha1_K :: "nat \<Rightarrow> u32" where
  "sha1_K t = (if t < 20 then 0x5A827999 else if t < 40 then 0x6ED9EBA1 else if t < 60 then 0x8F1BBCDC else 0xCA62C1D6)"

fun sha1_W :: "u32 list \<Rightarrow> nat \<Rightarrow> u32" where
  "sha1_W M t =
     (if t < 16 then M ! t
      else word_rotl 1 (sha1_W M (t - 3) XOR sha1_W M (t - 8) XOR sha1_W M (t - 14) XOR sha1_W M (t - 16)))"

declare sha1_W.simps [simp del]

definition sha1_step :: "u32 list \<Rightarrow> nat \<Rightarrow> u32 list \<Rightarrow> u32 list" where
  "sha1_step M t v =
     [word_rotl 5 (v ! 0) + sha1_f t (v ! 1) (v ! 2) (v ! 3) + v ! 4 + sha1_K t + sha1_W M t,
      v ! 0, word_rotl 30 (v ! 1), v ! 2, v ! 3]"

definition sha1_compress :: "u32 list \<Rightarrow> bytes \<Rightarrow> u32 list" where
  "sha1_compress st block =
     map2 (+) st (fold (sha1_step (map (\<lambda>i. be_load (take 4 (drop (4 * i) block))) [0..<16])) [0..<80] st)"

lemma rol_rotl: "0 < n \<Longrightarrow> n < 32 \<Longrightarrow> rol w n = word_rotl n w"
  by (simp add: rol_def word_rotl_shifts)

lemma sha1_mix_f:
  "sha1_mix R0 w x y = (w AND x) XOR (NOT w AND y)" "sha1_mix R1 w x y = (w AND x) XOR (NOT w AND y)"
  "sha1_mix R3 w x y = (w AND x) XOR (w AND y) XOR (x AND y)"
  by (rule bit_word_eqI, auto simp: bit_simps)+

definition sha1_call :: "nat \<Rightarrow> sha1_op \<times> nat \<times> nat \<times> nat \<times> nat \<times> nat \<times> nat" where
  "sha1_call t =
     (if t < 16 then R0 else if t < 20 then R1 else if t < 40 then R2 else if t < 60 then R3 else R4,
      4 * t mod 5, (1 + 4 * t) mod 5, (2 + 4 * t) mod 5, (3 + 4 * t) mod 5, (4 + 4 * t) mod 5, t)"

lemma sha1_rounds_calls: "sha1_rounds = map sha1_call [0..<80]"
  unfolding sha1_rounds_def by (simp add: sha1_call_def upt_rec)

text \<open>The registers rotate through the five variables, the schedule through the sixteen block words.\<close>

definition sha1_sim :: "u32 list \<Rightarrow> u32 list \<Rightarrow> nat \<Rightarrow> u32 list \<Rightarrow> u32 list \<times> u32 list \<Rightarrow> bool" where
  "sha1_sim M raw t v s \<longleftrightarrow>
     (case s of (vars, l) \<Rightarrow>
        length v = 5 \<and> length vars = 5 \<and> length l = 16 \<and>
        (\<forall>k<5. vars ! ((k + 4 * t) mod 5) = v ! k) \<and>
        (\<forall>j<t. t \<le> j + 16 \<longrightarrow> l ! (j mod 16) = sha1_W M j) \<and>
        (\<forall>j<16. t \<le> j \<longrightarrow> l ! j = raw ! j))"

lemma bit_byte_masks:
  "bit (0xFF00FF00 :: u32) n \<longleftrightarrow> (8 \<le> n \<and> n < 16) \<or> (24 \<le> n \<and> n < 32)"
  "bit (0x00FF00FF :: u32) n \<longleftrightarrow> n < 8 \<or> (16 \<le> n \<and> n < 24)"
proof -
  have m: "(0xFF00FF00 :: u32) = push_bit 8 0xFF OR push_bit 24 0xFF" "(0x00FF00FF :: u32) = 0xFF OR push_bit 16 0xFF"
    by simp_all
  show "bit (0xFF00FF00 :: u32) n \<longleftrightarrow> (8 \<le> n \<and> n < 16) \<or> (24 \<le> n \<and> n < 32)"
    "bit (0x00FF00FF :: u32) n \<longleftrightarrow> n < 8 \<or> (16 \<le> n \<and> n < 24)"
    unfolding m bit_or_iff bit_push_bit_iff bit_0xFF by auto
qed

lemma bit_rol: "n < 32 \<Longrightarrow> 0 < k \<Longrightarrow> k < 32 \<Longrightarrow> bit (rol x k) n = bit x (if n < k then 32 - k + n else n - k)"
  by (auto simp: rol_def bit_or_iff bit_push_bit_iff bit_drop_bit_eq dest: bit_imp_le_length)

lemma bit_bswap_4: "q < 4 \<Longrightarrow> r < 8 \<Longrightarrow> bit (bswap 4 (x :: u32)) (8 * q + r) = bit x (8 * (3 - q) + r)"
proof -
  assume "q < 4" "r < 8"
  moreover from this have "rev (le_bytes 4 x) ! q = ucast (drop_bit (8 * (3 - q)) x)"
    using nth_upt [of 0 "3 - q" 4] by (simp add: rev_nth le_bytes_def)
  ultimately show ?thesis by (simp add: bswap_def bit_le_load bit_unsigned_iff bit_drop_bit_eq)
qed

lemma swap_blk0: "(rol x 24 AND 0xFF00FF00) OR (rol x 8 AND 0x00FF00FF) = bswap 4 x" for x :: u32
proof (rule bit_word_eqI)
  fix n
  assume "n < LENGTH(32)"
  define q r where "q = n div 8" and "r = n mod 8"
  have n: "n = 8 * q + r" "q < 4" "r < 8" using \<open>n < LENGTH(32)\<close> by (auto simp: q_def r_def)
  then have "q = 0 \<or> q = 1 \<or> q = 2 \<or> q = 3" by auto
  then show "bit ((rol x 24 AND 0xFF00FF00) OR (rol x 8 AND 0x00FF00FF)) n = bit (bswap 4 x) n"
    unfolding n(1) bit_bswap_4 [OF n(2,3)] bit_or_iff bit_and_iff bit_byte_masks using n(3)
    by (elim disjE) (simp_all add: bit_rol)
qed

lemma sha1_expand_sim:
  assumes "sha1_sim M raw t v (vars, l)" "length raw = 16" "M = map (bswap 4) raw"
  shows "length (sha1_expand (fst (sha1_call t)) l t) = 16"
    "\<forall>j<Suc t. Suc t \<le> j + 16 \<longrightarrow> sha1_expand (fst (sha1_call t)) l t ! (j mod 16) = sha1_W M j"
    "\<forall>j<16. Suc t \<le> j \<longrightarrow> sha1_expand (fst (sha1_call t)) l t ! j = raw ! j"
proof -
  define l' where "l' = sha1_expand (fst (sha1_call t)) l t"
  have l: "length l = 16" "\<And>j. j < t \<Longrightarrow> t \<le> j + 16 \<Longrightarrow> l ! (j mod 16) = sha1_W M j"
    "\<And>j. j < 16 \<Longrightarrow> t \<le> j \<Longrightarrow> l ! j = raw ! j"
    using assms(1) by (auto simp: sha1_sim_def)
  have e: "l' = l[t mod 16 := sha1_W M t]"
  proof (cases "t < 16")
    case True
    then have "l' = blk0 l t" "l ! t = raw ! t" using l(3) by (simp_all add: l'_def sha1_call_def)
    then show ?thesis using True assms(2,3) by (simp add: blk0_def swap_blk0 sha1_W.simps [of "map (bswap 4) raw" t])
  next
    case False
    have m: "(t + 13) mod 16 = (t - 3) mod 16" "(t + 8) mod 16 = (t - 8) mod 16" "(t + 2) mod 16 = (t - 14) mod 16"
      "t mod 16 = (t - 16) mod 16"
      using False mod_add_self2 [of "t - 3" 16] mod_add_self2 [of "t - 8" 16] mod_add_self2 [of "t - 14" 16]
        mod_add_self2 [of "t - 16" 16] by (simp_all add: add.commute [of t])
    have "l' = blk l t" using False by (simp add: l'_def sha1_call_def)
    moreover have "l ! ((t - 3) mod 16) = sha1_W M (t - 3)" "l ! ((t - 8) mod 16) = sha1_W M (t - 8)"
      "l ! ((t - 14) mod 16) = sha1_W M (t - 14)" "l ! ((t - 16) mod 16) = sha1_W M (t - 16)"
      using False by (auto intro!: l(2))
    ultimately show ?thesis
      using False by (simp only: blk_def m(1-3)) (simp add: m(4) [symmetric] rol_rotl sha1_W.simps [of M t])
  qed
  show "length (sha1_expand (fst (sha1_call t)) l t) = 16" using e l(1) by (simp add: l'_def)
  show "\<forall>j<Suc t. Suc t \<le> j + 16 \<longrightarrow> sha1_expand (fst (sha1_call t)) l t ! (j mod 16) = sha1_W M j"
  proof (intro allI impI)
    fix j
    assume j: "j < Suc t" "Suc t \<le> j + 16"
    show "sha1_expand (fst (sha1_call t)) l t ! (j mod 16) = sha1_W M j"
    proof (cases "j = t")
      case False
      then have "\<not> 16 dvd t - j" using j by (intro nat_dvd_not_less) simp_all
      then have "j mod 16 \<noteq> t mod 16" using j mod_eq_dvd_iff_nat [of j t 16] by simp
      then show ?thesis using e j False l(2) by (simp add: l'_def)
    qed (use e l(1) in \<open>simp add: l'_def\<close>)
  qed
  show "\<forall>j<16. Suc t \<le> j \<longrightarrow> sha1_expand (fst (sha1_call t)) l t ! j = raw ! j"
    using e l(3) by (auto simp: l'_def nth_list_update)
qed

lemma all_less_5: "(\<forall>k<5. P k) \<longleftrightarrow> P 0 \<and> P 1 \<and> P 2 \<and> P 3 \<and> P (4 :: nat)"
proof -
  have "k < 5 \<longleftrightarrow> k = 0 \<or> k = 1 \<or> k = 2 \<or> k = 3 \<or> k = 4" for k :: nat by linarith
  then show ?thesis by auto
qed

lemma sha1_vars_sim:
  fixes T :: u32
  assumes "\<forall>k<5. vars ! ((k + 4 * t) mod 5) = v ! k" "length vars = 5" "length v = 5"
  defines "vars' \<equiv> vars[(4 + 4 * t) mod 5 := T]"
  defines "vars'' \<equiv> vars'[(1 + 4 * t) mod 5 := word_rotl 30 (vars' ! ((1 + 4 * t) mod 5))]"
  shows "\<forall>k<5. vars'' ! ((k + 4 * Suc t) mod 5) = [T, v ! 0, word_rotl 30 (v ! 1), v ! 2, v ! 3] ! k"
proof -
  define u where "u = 4 * t mod 5"
  have i: "(k + 4 * t) mod 5 = (k + u) mod 5" "(k + 4 * Suc t) mod 5 = (k + (4 + u)) mod 5" for k
    unfolding u_def by (simp_all add: mod_add_right_eq add.assoc [symmetric])
  have v: "vars ! ((0 + u) mod 5) = v ! 0" "vars ! ((1 + u) mod 5) = v ! 1" "vars ! ((2 + u) mod 5) = v ! 2"
    "vars ! ((3 + u) mod 5) = v ! 3"
    by (rule assms(1) [rule_format, unfolded i], simp)+
  obtain p0 p1 p2 p3 p4 where p: "vars = [p0, p1, p2, p3, p4]"
    using assms(2) by (auto simp: length_Suc_conv numeral_eq_Suc)
  have "u = 0 \<or> u = 1 \<or> u = 2 \<or> u = 3 \<or> u = 4" unfolding u_def by linarith
  then show ?thesis
    using v unfolding vars''_def vars'_def i all_less_5 p by (elim disjE) (simp_all only:, simp_all)
qed

lemma sha1_round_sim:
  assumes "sha1_sim M raw t v s" "length raw = 16" "M = map (bswap 4) raw"
  shows "sha1_sim M raw (Suc t) (sha1_step M t v) (sha1_round (sha1_call t) s)"
proof -
  obtain vars l where s: "s = (vars, l)" by fastforce
  define rnd where "rnd = fst (sha1_call t)"
  define l' where "l' = sha1_expand rnd l t"
  note l' = sha1_expand_sim [OF assms(1) [unfolded s] assms(2,3), folded rnd_def, folded l'_def]
  have v: "length v = 5" "length vars = 5" "\<And>k. k < 5 \<Longrightarrow> vars ! ((k + 4 * t) mod 5) = v ! k"
    using assms(1) by (auto simp: s sha1_sim_def)
  have ix: "vars ! (4 * t mod 5) = v ! 0" "vars ! ((1 + 4 * t) mod 5) = v ! 1" "vars ! ((2 + 4 * t) mod 5) = v ! 2"
    "vars ! ((3 + 4 * t) mod 5) = v ! 3" "vars ! ((4 + 4 * t) mod 5) = v ! 4"
    using v(3) [of 0] v(3) [of 1] v(3) [of 2] v(3) [of 3] v(3) [of 4] by simp_all
  have mix: "sha1_mix rnd x y z = sha1_f t x y z" "sha1_constant rnd = sha1_K t" for x y z
    by (simp_all add: rnd_def sha1_call_def sha1_f_def sha1_K_def sha1_mix_f del: sha1_mix.simps(1,2,4))
  define T where "T = word_rotl 5 (v ! 0) + sha1_f t (v ! 1) (v ! 2) (v ! 3) + v ! 4 + sha1_K t + sha1_W M t"
  have W: "l' ! (t mod 16) = sha1_W M t" using l'(2) by simp
  define vars' where "vars' = vars[(4 + 4 * t) mod 5 := T]"
  have "v ! 4 + (sha1_f t (v ! 1) (v ! 2) (v ! 3) + sha1_W M t + sha1_K t + word_rotl 5 (v ! 0)) = T"
    by (simp add: T_def algebra_simps)
  moreover have call: "sha1_call t = (rnd, 4 * t mod 5, (1 + 4 * t) mod 5, (2 + 4 * t) mod 5, (3 + 4 * t) mod 5, (4 + 4 * t) mod 5, t)"
    by (simp add: sha1_call_def rnd_def)
  ultimately have "sha1_round (sha1_call t) s =
      (vars'[(1 + 4 * t) mod 5 := word_rotl 30 (vars' ! ((1 + 4 * t) mod 5))], l')"
    using rol_rotl [of 5] rol_rotl [of 30]
    by (simp only: s sha1_round_def Let_def call prod.case ix mix l'_def [symmetric] W vars'_def [symmetric])
  moreover have "\<forall>k<5. vars'[(1 + 4 * t) mod 5 := word_rotl 30 (vars' ! ((1 + 4 * t) mod 5))] ! ((k + 4 * Suc t) mod 5) =
      sha1_step M t v ! k"
    unfolding sha1_step_def T_def [symmetric] vars'_def by (rule sha1_vars_sim) (use v in simp_all)
  ultimately show ?thesis
    using l' v(2) by (simp add: sha1_sim_def sha1_step_def vars'_def)
qed

lemma sha1_rounds_sim:
  assumes "length st = 5" "length raw = 16" "M = map (bswap 4) raw"
  shows "sha1_sim M raw t (fold (sha1_step M) [0..<t] st) (fold sha1_round (map sha1_call [0..<t]) (st, raw))"
proof (induction t)
  case 0
  show ?case using assms by (simp add: sha1_sim_def)
next
  case (Suc t)
  from sha1_round_sim [OF this assms(2,3)] show ?case by simp
qed

lemma block_words_swap: "map (bswap 4) (block_words (take 64 b)) = map (\<lambda>i. be_load (take 4 (drop (4 * i) b)) :: u32) [0..<16]" if "64 \<le> length b"
proof -
  have "bswap 4 (obj_load (take 4 (drop (4 * i) (take 64 b)))) = (be_load (take 4 (drop (4 * i) b)) :: u32)" if "i < 16" for i
  proof -
    have "take 4 (drop (4 * i) (take 64 b)) = take 4 (drop (4 * i) b)" "length (take 4 (drop (4 * i) b)) = 4"
      using that \<open>64 \<le> length b\<close> by (simp_all add: drop_take)
    then show ?thesis
      using htobe_obj_load(2) [of "take 4 (drop (4 * i) b)"] by (simp add: htobe32_def host_big_endian_def)
  qed
  then show ?thesis unfolding block_words_def map_map by (intro map_cong) simp_all
qed

lemma sha1_transform_standard:
  assumes "length st = 5" "64 \<le> length b"
  shows "SHA1_transform st b = sha1_compress st b"
proof -
  define raw where "raw = block_words (take 64 b)"
  define M where "M = map (bswap 4) raw"
  have raw: "length raw = 16" by (simp add: raw_def block_words_def)
  obtain vars l where f: "fold sha1_round sha1_rounds (st, raw) = (vars, l)" by fastforce
  then have "sha1_sim M raw 80 (fold (sha1_step M) [0..<80] st) (vars, l)"
    using sha1_rounds_sim [OF assms(1) raw M_def, of 80] by (simp only: sha1_rounds_calls)
  then have v: "length vars = 5" "length (fold (sha1_step M) [0..<80] st) = 5"
    "\<And>k. k < 5 \<Longrightarrow> vars ! ((k + 4 * 80) mod 5) = fold (sha1_step M) [0..<80] st ! k"
    by (auto simp: sha1_sim_def)
  have "vars = fold (sha1_step M) [0..<80] st"
  proof (rule nth_equalityI)
    fix k
    assume "k < length vars"
    then have "(k + 4 * 80) mod 5 = k" "k < 5" using v(1) mod_mult_self2 [of k 5 64] by simp_all
    then show "vars ! k = fold (sha1_step M) [0..<80] st ! k" using v(3) by metis
  qed (simp only: v)
  then show ?thesis
    using f block_words_swap [OF assms(2)]
    by (simp only: SHA1_transform_def sha1_compress_def raw_def M_def prod.case)
qed

lemma length_sha1_compress [simp]: "length st = 5 \<Longrightarrow> 64 \<le> length b \<Longrightarrow> length (sha1_compress st b) = 5"
  using sha1_transform_standard [of st b] length_SHA1_transform [of st b] by simp

lemma absorb_sha1_standard: "length st = 5 \<Longrightarrow> absorb SHA1_transform st m = absorb sha1_compress st m"
proof (induction sha1_compress st m rule: absorb.induct)
  case (1 st m)
  then show ?case
    by (subst (1 2) absorb.simps) (simp add: sha1_transform_standard)
qed

section \<open>Properties\<close>

text \<open>C10. Feeding a message to SHA-1 in any pieces and finishing gives the digest of the standard: the
  compression function of the standard absorbs the whole message with its padding, and the digest is the
  chaining state in big-endian order.\<close>

theorem sha1_digest_standard:
  assumes "length (ctx_buffer c) = 64"
  shows "fst (SHA1_final (fold SHA1_update ds (SHA1_init c))) =
    sha1_print (absorb sha1_compress sha1_iv (concat ds @ sha1_padding (length (concat ds))))"
  using sha1_digest.digest_of_pieces [OF assms, of ds] by (simp add: absorb_sha1_standard)

theorem sha1_digest_standard_witness:
  "fst (SHA1_final (fold SHA1_update [[0x61], [], [0x62, 0x63]]
      (SHA1_init \<lparr>ctx_state = [], ctx_count0 = 7, ctx_count1 = 9, ctx_buffer = replicate 64 0xAA\<rparr>))) =
    sha1_print (sha1_compress sha1_iv ([0x61, 0x62, 0x63, 0x80] @ replicate 52 0 @ [0, 0, 0, 0, 0, 0, 0, 0x18]))"
proof -
  have pad: "sha1_padding (Suc (Suc (Suc 0))) = 0x80 # replicate 52 0 @ [0, 0, 0, 0, 0, 0, 0, 0x18]"
    by (simp add: sha1_padding_def sha1_zeros_def be_bytes_def le_bytes_def upt_rec)
  show ?thesis
    using sha1_digest_standard
      [of "\<lparr>ctx_state = [], ctx_count0 = 7, ctx_count1 = 9, ctx_buffer = replicate 64 0xAA\<rparr>" "[[0x61], [], [0x62, 0x63]]"]
    by (simp add: pad)
qed

text \<open>C11. The padding loop of SHA-1 ends from every context after fewer than 64 zero bytes, with the fill index
  at 56.\<close>

theorem sha1_padding_terminates:
  "\<exists>n<64. SHA1_pad c = (SHA1_update [0] ^^ n) c \<and> ctx_count0 (SHA1_pad c) AND 504 = 448"
proof -
  have "SHA1_pad c = (SHA1_update [0] ^^ ((120 - unat (ctx_count0 c) div 8 mod 64) mod 64)) c \<and>
      ctx_count0 (SHA1_pad c) AND 504 = 448"
  proof (induction c rule: SHA1_pad.induct)
    case (1 c)
    define q where "q = unat (ctx_count0 c) div 8 mod 64"
    show ?case
    proof (cases "ctx_count0 c AND 504 = 448")
      case True
      then have "q = 56" using and_504 [of "ctx_count0 c"] by (simp add: q_def)
      then show ?thesis using True unfolding q_def [symmetric] by (subst (1 2) SHA1_pad.simps) simp
    next
      case False
      then have "q < 64" "q \<noteq> 56" using and_504 [of "ctx_count0 c"] by (simp_all add: q_def)
      moreover have "unat (ctx_count0 (SHA1_update [0] c)) div 8 mod 64 = (q + 1) mod 64"
        unfolding q_def SHA1_update_zero_count by (rule count_step)
      moreover have pad: "SHA1_pad c = SHA1_pad (SHA1_update [0] c)" using False by (subst SHA1_pad.simps) simp
      ultimately have "SHA1_pad c = (SHA1_update [0] ^^ ((120 - q) mod 64)) c"
        using 1 [OF False] pad_step [of q] by (simp add: funpow_swap1)
      then show ?thesis using 1 [OF False] pad unfolding q_def by metis
    qed
  qed
  moreover have "(120 - unat (ctx_count0 c) div 8 mod 64) mod 64 < 64" by simp
  ultimately show ?thesis by blast
qed

end
