(* ===== verification/String_Encode.thy ===== *)
theory String_Encode
  imports Prelude
begin

text \<open>
  Hexadecimal encoding and field splitting (\<open>string_encode.cc\<close>). Binary data is a byte list, text a
  character list; a delimiter of \<open>None\<close> is the null character that the code passes for no delimiter. The
  decoder returns the bytes it has written, the empty list standing for its result 0.
\<close>

section \<open>Hexadecimal\<close>

definition HEX :: string where
  "HEX = ''0123456789abcdef''"

definition hex_encode_digit :: "u8 \<Rightarrow> char option" where
  "hex_encode_digit val = (if val < 16 then Some (HEX ! unat val) else None)"

definition char_less_eq :: "char \<Rightarrow> char \<Rightarrow> bool" where
  "char_less_eq a b \<longleftrightarrow> (of_char a :: nat) \<le> of_char b"

definition hex_decode_digit :: "char \<Rightarrow> u8 option" where
  "hex_decode_digit ch =
     (if char_less_eq CHR ''0'' ch \<and> char_less_eq ch CHR ''9'' then Some (of_nat (of_char ch - of_char CHR ''0''))
      else if char_less_eq CHR ''A'' ch \<and> char_less_eq ch CHR ''F'' then Some (of_nat (of_char ch - of_char CHR ''A'') + 10)
      else if char_less_eq CHR ''a'' ch \<and> char_less_eq ch CHR ''f'' then Some (of_nat (of_char ch - of_char CHR ''a'') + 10)
      else None)"

definition hex_encode_output_length :: "nat \<Rightarrow> char option \<Rightarrow> nat" where
  "hex_encode_output_length srclen delimiter =
     (if delimiter \<noteq> None \<and> srclen > 0 then srclen * 3 - 1 else srclen * 2)"

fun hex_encode_with_delimiter :: "bytes \<Rightarrow> char option \<Rightarrow> string option" where
  "hex_encode_with_delimiter [] delimiter = Some []"
| "hex_encode_with_delimiter (ch # rest) delimiter =
     (case (hex_encode_digit (drop_bit 4 ch AND 0xF), hex_encode_digit (ch AND 0xF), hex_encode_with_delimiter rest delimiter) of
        (Some h1, Some h2, Some tail) \<Rightarrow>
          Some (h1 # h2 # (case delimiter of Some d \<Rightarrow> if rest \<noteq> [] then [d] else [] | None \<Rightarrow> []) @ tail)
      | _ \<Rightarrow> None)"

definition hex_encode :: "bytes \<Rightarrow> string option" where
  "hex_encode source = hex_encode_with_delimiter source None"

definition hex_skip :: "char option \<Rightarrow> string \<Rightarrow> string option" where
  "hex_skip delimiter rest =
     (case delimiter of
        Some d \<Rightarrow> if length rest > 1 then (if hd rest \<noteq> d then None else Some (tl rest)) else Some rest
      | None \<Rightarrow> Some rest)"

lemma hex_skip_length: "hex_skip delimiter rest = Some r \<Longrightarrow> length r \<le> length rest"
  by (auto simp: hex_skip_def split: option.splits if_splits)

text \<open>The loop of the decoder; \<open>None\<close> is one of its returns of 0.\<close>

function hex_decode_loop :: "string \<Rightarrow> char option \<Rightarrow> bytes option" where
  "hex_decode_loop [] delimiter = Some []"
| "hex_decode_loop [c] delimiter = None"
| "hex_decode_loop (c1 # c2 # rest) delimiter =
     (case (hex_decode_digit c1, hex_decode_digit c2) of
        (Some h1, Some h2) \<Rightarrow>
          (case hex_skip delimiter rest of
             None \<Rightarrow> None
           | Some r \<Rightarrow>
               (case hex_decode_loop r delimiter of None \<Rightarrow> None | Some bs \<Rightarrow> Some ((push_bit 4 h1 OR h2) # bs)))
      | _ \<Rightarrow> None)"
  by pat_completeness auto
termination
  by (relation "measure (\<lambda>(s, _). length s)") (auto dest: hex_skip_length)

definition hex_decode_with_delimiter :: "nat \<Rightarrow> string \<Rightarrow> char option \<Rightarrow> bytes" where
  "hex_decode_with_delimiter buflen source delimiter =
     (if buflen = 0 then []
      else
        (let srclen = length source;
             needed = (if delimiter \<noteq> None then (srclen + 1) div 3 else srclen div 2)
         in if buflen < needed then []
            else (case hex_decode_loop source delimiter of None \<Rightarrow> [] | Some bs \<Rightarrow> bs)))"

definition hex_decode :: "nat \<Rightarrow> string \<Rightarrow> bytes" where
  "hex_decode buflen source = hex_decode_with_delimiter buflen source None"

section \<open>Fields\<close>

text \<open>In the scanning loops \<open>field\<close> is the text between the last delimiter and the current position.\<close>

fun split_loop :: "char \<Rightarrow> string \<Rightarrow> string \<Rightarrow> string list" where
  "split_loop delimiter field [] = [field]"
| "split_loop delimiter field (c # cs) =
     (if c = delimiter then field # split_loop delimiter [] cs else split_loop delimiter (field @ [c]) cs)"

definition split_fields :: "string \<Rightarrow> char \<Rightarrow> string list" where
  "split_fields source delimiter = split_loop delimiter [] source"

definition tokenize_with_empty_tokens :: "string \<Rightarrow> char \<Rightarrow> string list" where
  "tokenize_with_empty_tokens source delimiter = split_loop delimiter [] source"

fun tokenize_loop :: "char \<Rightarrow> string \<Rightarrow> string \<Rightarrow> string list" where
  "tokenize_loop delimiter field [] = (if field \<noteq> [] then [field] else [])"
| "tokenize_loop delimiter field (c # cs) =
     (if c = delimiter then (if field \<noteq> [] then [field] else []) @ tokenize_loop delimiter [] cs
      else tokenize_loop delimiter (field @ [c]) cs)"

definition tokenize :: "string \<Rightarrow> char \<Rightarrow> string list" where
  "tokenize source delimiter = tokenize_loop delimiter [] source"

definition tokenize_append :: "string \<Rightarrow> char \<Rightarrow> string list \<Rightarrow> string list" where
  "tokenize_append source delimiter fields = fields @ tokenize source delimiter"

text \<open>
  Marked fields: the character before a start mark is dropped with the mark. \<open>takeWhile\<close> and \<open>dropWhile\<close> are the
  searches for the marks.
\<close>

function tokenize_marked :: "string \<Rightarrow> char \<Rightarrow> char \<Rightarrow> char \<Rightarrow> string list \<Rightarrow> string list" where
  "tokenize_marked remain delimiter start_mark end_mark fields =
     (if remain = [] \<or> start_mark \<notin> set remain then tokenize_append remain delimiter fields
      else
        (let before = takeWhile (\<lambda>c. c \<noteq> start_mark) remain;
             pre_mark = butlast before;
             after = drop (length before + 1) remain
         in if end_mark \<notin> set after then tokenize_append remain delimiter fields
            else
              (let marked = takeWhile (\<lambda>c. c \<noteq> end_mark) after
               in tokenize_marked (drop (length marked + 1) after) delimiter start_mark end_mark
                    (tokenize_append pre_mark delimiter fields @ [marked]))))"
  by pat_completeness auto
termination by (relation "measure (\<lambda>(remain, _). length remain)") auto

declare tokenize_marked.simps [simp del]

text \<open>
  Reading at the end of a \<open>std::string\<close> gives the null character, so the scan for further delimiters stops
  there, except when the delimiter is itself null: then it runs past the end, \<open>None\<close>.
\<close>

definition tokenize_first :: "string \<Rightarrow> char \<Rightarrow> (string \<times> string) option option" where
  "tokenize_first source delimiter =
     (if delimiter \<notin> set source then Some None
      else
        (let token = takeWhile (\<lambda>c. c \<noteq> delimiter) source;
             rest = dropWhile (\<lambda>c. c = delimiter) (drop (length token + 1) source)
         in if rest = [] \<and> delimiter = CHR 0x00 then None else Some (Some (token, rest))))"

fun join :: "string list \<Rightarrow> char \<Rightarrow> string" where
  "join [] delimiter = []"
| "join [f] delimiter = f"
| "join (f # fs) delimiter = f @ [delimiter] @ join fs delimiter"

definition ToString_bool :: "bool \<Rightarrow> string" where
  "ToString_bool b = (if b then ''true'' else ''false'')"

definition FromString_bool :: "string \<Rightarrow> bool option" where
  "FromString_bool s = (if s = ''false'' then Some False else if s = ''true'' then Some True else None)"

section \<open>Lemmas\<close>

lemma hex_digit_round_trip: "h < 16 \<Longrightarrow> \<exists>c. hex_encode_digit h = Some c \<and> hex_decode_digit c = Some h"
proof -
  assume h: "h < 16"
  then have "unat h < 16" by (simp add: word_less_nat_alt)
  then have "unat h \<in> set [0..<16]" by simp
  moreover have "\<forall>n \<in> set [0..<16]. hex_decode_digit (HEX ! n) = Some (of_nat n)"
    by (simp add: upt_rec HEX_def hex_decode_digit_def char_less_eq_def)
  ultimately have "hex_decode_digit (HEX ! unat h) = Some (of_nat (unat h))" by blast
  then show ?thesis using h by (simp add: hex_encode_digit_def)
qed

lemma nibbles: "drop_bit 4 (b :: u8) AND 0xF < 16" "b AND 0xF < 16" "push_bit 4 (drop_bit 4 b AND 0xF) OR (b AND 0xF) = b"
proof -
  have m: "(0xF :: u8) = mask 4" by (simp add: mask_eq_exp_minus_1)
  show "drop_bit 4 b AND 0xF < 16" "b AND 0xF < 16"
    unfolding m using word_take_bit_less [where 'a = 8 and n = 4] by (simp_all add: take_bit_eq_mask [symmetric])
  show "push_bit 4 (drop_bit 4 b AND 0xF) OR (b AND 0xF) = b"
    unfolding m by (rule bit_word_eqI) (auto simp: bit_or_iff bit_push_bit_iff bit_and_iff bit_drop_bit_eq bit_mask_iff)
qed

lemma hex_loop_round_trip:
  "\<exists>s. hex_encode_with_delimiter src d = Some s \<and> hex_decode_loop s d = Some src \<and>
     length s = hex_encode_output_length (length src) d"
proof (induction src)
  case Nil
  then show ?case by (simp add: hex_encode_output_length_def)
next
  case (Cons b src)
  then obtain s where s: "hex_encode_with_delimiter src d = Some s" "hex_decode_loop s d = Some src"
    "length s = hex_encode_output_length (length src) d" by blast
  obtain h1 h2 where h: "hex_encode_digit (drop_bit 4 b AND 0xF) = Some h1" "hex_decode_digit h1 = Some (drop_bit 4 b AND 0xF)"
    "hex_encode_digit (b AND 0xF) = Some h2" "hex_decode_digit h2 = Some (b AND 0xF)"
    using hex_digit_round_trip nibbles(1,2) by meson
  define sep where "sep = (case d of Some c \<Rightarrow> if src \<noteq> [] then [c] else [] | None \<Rightarrow> [])"
  have e: "hex_encode_with_delimiter (b # src) d = Some (h1 # h2 # sep @ s)"
    using s(1) h by (simp add: sep_def)
  have "s = [] \<longleftrightarrow> src = []" "src \<noteq> [] \<Longrightarrow> length s \<ge> 2"
    using s(3) by (cases src; simp add: hex_encode_output_length_def split: if_splits; auto)+
  then have "hex_skip d (sep @ s) = Some s" by (auto simp: hex_skip_def sep_def split: option.split)
  then have "hex_decode_loop (h1 # h2 # sep @ s) d = Some (b # src)"
    using h s(2) nibbles(3) [of b] by simp
  moreover have "length (h1 # h2 # sep @ s) = hex_encode_output_length (length (b # src)) d"
    using s(3) by (cases src) (auto simp: sep_def hex_encode_output_length_def split: option.split)
  ultimately show ?case using e by blast
qed

lemma split_loop_field: "delimiter \<notin> set f \<Longrightarrow> split_loop delimiter acc f = [acc @ f]"
  by (induction f arbitrary: acc) auto

lemma split_loop_append:
  "delimiter \<notin> set f \<Longrightarrow> split_loop delimiter acc (f @ delimiter # rest) = (acc @ f) # split_loop delimiter [] rest"
  by (induction f arbitrary: acc) auto

lemma split_loop_nonempty [simp]: "split_loop delimiter acc s \<noteq> []"
  by (induction s arbitrary: acc) simp_all

lemma join_split_loop: "join (split_loop delimiter acc s) delimiter = acc @ s"
proof (induction s arbitrary: acc)
  case (Cons c s)
  obtain f fs where "split_loop delimiter [] s = f # fs" by (cases "split_loop delimiter [] s") auto
  with Cons [of "[]"] Cons [of "acc @ [c]"] show ?case by simp
qed simp

lemma split_join: "fs \<noteq> [] \<Longrightarrow> \<forall>f \<in> set fs. delimiter \<notin> set f \<Longrightarrow> split_fields (join fs delimiter) delimiter = fs"
  by (induction fs delimiter rule: join.induct) (simp_all add: split_fields_def split_loop_field split_loop_append)

lemma tokenize_loop_filter: "tokenize_loop delimiter acc s = filter (\<lambda>f. f \<noteq> []) (split_loop delimiter acc s)"
  by (induction s arbitrary: acc) auto

section \<open>Properties\<close>

text \<open>C18. Bytes encoded in hexadecimal, with or without a delimiter, have the announced length and are decoded
  to the same bytes whenever the output buffer has room for them.\<close>

theorem hex_round_trip:
  assumes "length src \<le> buflen" "0 < buflen"
  shows "\<exists>s. hex_encode_with_delimiter src d = Some s \<and> length s = hex_encode_output_length (length src) d \<and>
    hex_decode_with_delimiter buflen s d = src"
proof -
  obtain s where s: "hex_encode_with_delimiter src d = Some s" "hex_decode_loop s d = Some src"
    "length s = hex_encode_output_length (length src) d" using hex_loop_round_trip by blast
  moreover have "(if d \<noteq> None then (length s + 1) div 3 else length s div 2) \<le> buflen"
    using s(3) assms by (auto simp: hex_encode_output_length_def)
  ultimately show ?thesis using assms by (auto simp: hex_decode_with_delimiter_def Let_def)
qed

theorem hex_round_trip_witness:
  "hex_encode_with_delimiter [0x0F, 0xA0] (Some CHR '':'') = Some ''0f:a0'' \<and>
   hex_decode_with_delimiter 2 ''0f:a0'' (Some CHR '':'') = [0x0F, 0xA0]"
proof -
  have "hex_encode_with_delimiter [0x0F, 0xA0] (Some CHR '':'') = Some ''0f:a0''"
    by (simp add: hex_encode_digit_def HEX_def)
  then show ?thesis using hex_round_trip [of "[0x0F, 0xA0]" 2 "Some CHR '':''"] by simp
qed

text \<open>C19. Splitting text at a delimiter and joining the fields gives the text back, splitting a joined list of
  fields without delimiters gives the list back, and tokenizing keeps exactly the fields that are not empty.\<close>

theorem split_join_round_trip:
  assumes "fs \<noteq> []" "\<forall>f \<in> set fs. delimiter \<notin> set f"
  shows "join (split_fields s delimiter) delimiter = s \<and> split_fields (join fs delimiter) delimiter = fs \<and>
    tokenize s delimiter = filter (\<lambda>f. f \<noteq> []) (split_fields s delimiter)"
  using split_join [OF assms] join_split_loop [of delimiter "[]" s] tokenize_loop_filter [of delimiter "[]" s]
  by (simp add: split_fields_def tokenize_def)

theorem split_join_round_trip_witness:
  "split_fields ''a,,bc'' CHR '','' = [''a'', [], ''bc''] \<and> tokenize ''a,,bc'' CHR '','' = [''a'', ''bc'']"
  using split_join_round_trip [of "[''a'', [], ''bc'']" "CHR '',''" "''a,,bc''"] by simp

end
