(* ===== verification/Message_Digest.thy ===== *)
theory Message_Digest
  imports Md5 Sha1 String_Encode
begin

text \<open>
  Message digests and keyed digests (\<open>message_digest.cc\<close>, \<open>md5_digest.cc\<close>, \<open>sha1_digest.cc\<close>), built without
  OpenSSL. The virtual class \<open>MessageDigest\<close> is a datatype with its two implementations; a finished digest is
  the list of bytes written, whose length is the returned count. New objects start from arbitrary memory, an
  argument of \<open>MessageDigestFactory_Create\<close>.
\<close>

section \<open>Digest objects\<close>

datatype MessageDigest = Md5Digest MD5Context | Sha1Digest SHA1_CTX

fun Digest_Size :: "MessageDigest \<Rightarrow> nat" where
  "Digest_Size (Md5Digest c) = 16"
| "Digest_Size (Sha1Digest c) = 20"

fun Digest_Update :: "bytes \<Rightarrow> MessageDigest \<Rightarrow> MessageDigest" where
  "Digest_Update buf (Md5Digest c) = Md5Digest (MD5_update buf c)"
| "Digest_Update buf (Sha1Digest c) = Sha1Digest (SHA1_update buf c)"

fun Digest_Finish :: "nat \<Rightarrow> MessageDigest \<Rightarrow> bytes \<times> MessageDigest" where
  "Digest_Finish len (Md5Digest c) =
     (if len < 16 then ([], Md5Digest c)
      else (case MD5_final c of (digest, c') \<Rightarrow> (digest, Md5Digest (MD5_init c'))))"
| "Digest_Finish len (Sha1Digest c) =
     (if len < 20 then ([], Sha1Digest c)
      else (case SHA1_final c of (digest, c') \<Rightarrow> (digest, Sha1Digest (SHA1_init c'))))"

definition DIGEST_MD5 :: string where "DIGEST_MD5 = ''md5''"

definition DIGEST_SHA_1 :: string where "DIGEST_SHA_1 = ''sha-1''"

definition MessageDigestFactory_Create :: "MD5Context \<Rightarrow> SHA1_CTX \<Rightarrow> string \<Rightarrow> MessageDigest option" where
  "MessageDigestFactory_Create md5_mem sha1_mem alg =
     (if alg = DIGEST_MD5 then Some (Md5Digest (MD5_init md5_mem))
      else if alg = DIGEST_SHA_1 then Some (Sha1Digest (SHA1_init sha1_mem))
      else None)"

definition IsFips180DigestAlgorithm :: "string \<Rightarrow> bool" where
  "IsFips180DigestAlgorithm alg \<longleftrightarrow>
     alg = DIGEST_SHA_1 \<or> alg = ''sha-224'' \<or> alg = ''sha-256'' \<or> alg = ''sha-384'' \<or> alg = ''sha-512''"

section \<open>Digests and keyed digests\<close>

definition ComputeDigest :: "MessageDigest \<Rightarrow> bytes \<Rightarrow> nat \<Rightarrow> bytes \<times> MessageDigest" where
  "ComputeDigest digest input out_len = Digest_Finish out_len (Digest_Update input digest)"

definition ComputeDigest_alg :: "MD5Context \<Rightarrow> SHA1_CTX \<Rightarrow> string \<Rightarrow> bytes \<Rightarrow> nat \<Rightarrow> bytes" where
  "ComputeDigest_alg md5_mem sha1_mem alg input out_len =
     (case MessageDigestFactory_Create md5_mem sha1_mem alg of
        None \<Rightarrow> []
      | Some digest \<Rightarrow> fst (ComputeDigest digest input out_len))"

definition ComputeDigest_hex :: "MessageDigest \<Rightarrow> bytes \<Rightarrow> string option" where
  "ComputeDigest_hex digest input = hex_encode (fst (ComputeDigest digest input (Digest_Size digest)))"

definition ComputeDigest_alg_hex :: "MD5Context \<Rightarrow> SHA1_CTX \<Rightarrow> string \<Rightarrow> bytes \<Rightarrow> string option option" where
  "ComputeDigest_alg_hex md5_mem sha1_mem alg input =
     (case MessageDigestFactory_Create md5_mem sha1_mem alg of
        None \<Rightarrow> Some None
      | Some digest \<Rightarrow> map_option Some (ComputeDigest_hex digest input))"

definition kBlockSize :: nat where "kBlockSize = 64"

definition ComputeHmac :: "MessageDigest \<Rightarrow> bytes \<Rightarrow> bytes \<Rightarrow> nat \<Rightarrow> bytes \<times> MessageDigest" where
  "ComputeHmac digest key input out_len =
     (let block_len = kBlockSize in
      if Digest_Size digest > 32 then ([], digest)
      else
        (let (new_key, digest) =
               (if length key > block_len then
                  (case ComputeDigest digest key block_len of
                     (hashed, digest) \<Rightarrow> (hashed @ replicate (block_len - Digest_Size digest) 0, digest))
                else (key @ replicate (block_len - length key) 0, digest));
             o_pad = map (\<lambda>b. 0x5c XOR b) new_key;
             i_pad = map (\<lambda>b. 0x36 XOR b) new_key;
             (inner, digest) = Digest_Finish (Digest_Size digest) (Digest_Update input (Digest_Update i_pad digest))
         in Digest_Finish out_len (Digest_Update inner (Digest_Update o_pad digest))))"

definition ComputeHmac_alg :: "MD5Context \<Rightarrow> SHA1_CTX \<Rightarrow> string \<Rightarrow> bytes \<Rightarrow> bytes \<Rightarrow> nat \<Rightarrow> bytes" where
  "ComputeHmac_alg md5_mem sha1_mem alg key input out_len =
     (case MessageDigestFactory_Create md5_mem sha1_mem alg of
        None \<Rightarrow> []
      | Some digest \<Rightarrow> fst (ComputeHmac digest key input out_len))"

definition ComputeHmac_hex :: "MessageDigest \<Rightarrow> bytes \<Rightarrow> bytes \<Rightarrow> string option" where
  "ComputeHmac_hex digest key input = hex_encode (fst (ComputeHmac digest key input (Digest_Size digest)))"

definition ComputeHmac_alg_hex :: "MD5Context \<Rightarrow> SHA1_CTX \<Rightarrow> string \<Rightarrow> bytes \<Rightarrow> bytes \<Rightarrow> string option option" where
  "ComputeHmac_alg_hex md5_mem sha1_mem alg key input =
     (case MessageDigestFactory_Create md5_mem sha1_mem alg of
        None \<Rightarrow> Some None
      | Some digest \<Rightarrow> map_option Some (ComputeHmac_hex digest key input))"

section \<open>The contract of a digest object\<close>

definition md5_hash :: "bytes \<Rightarrow> bytes" where
  "md5_hash m = md5_print (absorb md5_compress md5_iv (m @ md5_padding (length m)))"

definition sha1_hash :: "bytes \<Rightarrow> bytes" where
  "sha1_hash m = sha1_print (absorb sha1_compress sha1_iv (m @ sha1_padding (length m)))"

text \<open>
  A digest object stands for the bytes fed since it was created or finished; finishing writes their hash and
  starts over.
\<close>

locale digest_object =
  fixes digest_size :: "'d \<Rightarrow> nat"
    and digest_update :: "bytes \<Rightarrow> 'd \<Rightarrow> 'd"
    and digest_finish :: "nat \<Rightarrow> 'd \<Rightarrow> bytes \<times> 'd"
    and stands_for :: "'d \<Rightarrow> bytes \<Rightarrow> bool"
    and hash :: "'d \<Rightarrow> bytes \<Rightarrow> bytes"
  assumes update: "stands_for d m \<Longrightarrow> stands_for (digest_update b d) (m @ b)"
    and update_kind: "digest_size (digest_update b d) = digest_size d" "hash (digest_update b d) = hash d"
    and finish: "stands_for d m \<Longrightarrow> digest_size d \<le> len \<Longrightarrow>
      fst (digest_finish len d) = hash d m \<and> stands_for (snd (digest_finish len d)) []"
    and finish_kind: "digest_size (snd (digest_finish len d)) = digest_size d" "hash (snd (digest_finish len d)) = hash d"
    and hash_length: "length (hash d m) = digest_size d"
begin

lemma one_part:
  assumes "stands_for d []" "digest_size d \<le> len"
  shows "\<exists>d'. digest_finish len (digest_update a d) = (hash d a, d') \<and> stands_for d' [] \<and>
    digest_size d' = digest_size d \<and> hash d' = hash d"
  using finish [of "digest_update a d" a len] update [OF assms(1), of a] assms(2)
    finish_kind [of len "digest_update a d"] update_kind [of a d]
  by (cases "digest_finish len (digest_update a d)") simp

lemma two_parts:
  assumes "stands_for d []" "digest_size d \<le> len"
  shows "\<exists>d'. digest_finish len (digest_update b (digest_update a d)) = (hash d (a @ b), d') \<and> stands_for d' [] \<and>
    digest_size d' = digest_size d \<and> hash d' = hash d"
  using finish [of "digest_update b (digest_update a d)" "a @ b" len] update [OF update [OF assms(1)], of b a] assms(2)
    finish_kind [of len "digest_update b (digest_update a d)"] update_kind [of b "digest_update a d"] update_kind [of a d]
  by (cases "digest_finish len (digest_update b (digest_update a d))") simp

end

fun digest_stands_for :: "MessageDigest \<Rightarrow> bytes \<Rightarrow> bool" where
  "digest_stands_for (Md5Digest c) m = md5_repr c m"
| "digest_stands_for (Sha1Digest c) m = sha1_repr c m"

fun digest_hash :: "MessageDigest \<Rightarrow> bytes \<Rightarrow> bytes" where
  "digest_hash (Md5Digest c) = md5_hash"
| "digest_hash (Sha1Digest c) = sha1_hash"

lemma length_print: "length (md5_print st) = 4 * length st" "length (sha1_print st) = 4 * length st"
  by (induction st) (simp_all add: md5_print_def sha1_print_def)

lemma length_hashes [simp]: "length (md5_hash m) = 16" "length (sha1_hash m) = 20"
proof -
  have "length (absorb MD5_transform st b) = 4" if "length st = 4" for st b
    using that by (induction MD5_transform st b rule: absorb.induct) (subst absorb.simps, simp)
  then show "length (md5_hash m) = 16"
    by (simp add: md5_hash_def length_print flip: absorb_md5_rfc)
  show "length (sha1_hash m) = 20"
    by (simp add: sha1_hash_def length_print flip: absorb_sha1_standard)
qed

interpretation msf_digest: digest_object Digest_Size Digest_Update Digest_Finish digest_stands_for digest_hash
proof
  fix d m b len
  show "digest_stands_for d m \<Longrightarrow> digest_stands_for (Digest_Update b d) (m @ b)"
    by (cases d) (simp_all add: MD5_update_repr SHA1_update_repr)
  show "Digest_Size (Digest_Update b d) = Digest_Size d" "digest_hash (Digest_Update b d) = digest_hash d"
    "Digest_Size (snd (Digest_Finish len d)) = Digest_Size d" "digest_hash (snd (Digest_Finish len d)) = digest_hash d"
    by (cases d; simp split: prod.split)+
  show "length (digest_hash d m) = Digest_Size d" by (cases d) simp_all
  show "fst (Digest_Finish len d) = digest_hash d m \<and> digest_stands_for (snd (Digest_Finish len d)) []"
    if "digest_stands_for d m" "Digest_Size d \<le> len"
  proof (cases d)
    case (Md5Digest c)
    then have "fst (MD5_final c) = md5_hash m" "length (md5_in (snd (MD5_final c))) = 64"
      using that MD5_final_digest [of c m] md5_digest.final_buffer [of c]
      by (simp_all add: md5_hash_def absorb_md5_rfc stream_repr_def)
    with Md5Digest that(2) md5_stream.init [of "snd (MD5_final c)"] show ?thesis by (simp split: prod.split) fastforce
  next
    case (Sha1Digest c)
    then have "fst (SHA1_final c) = sha1_hash m" "length (ctx_buffer (snd (SHA1_final c))) = 64"
      using that SHA1_final_digest [of c m] sha1_digest.final_buffer [of c]
      by (simp_all add: sha1_hash_def absorb_sha1_standard stream_repr_def)
    with Sha1Digest that(2) sha1_stream.init [of "snd (SHA1_final c)"] show ?thesis by (simp split: prod.split) fastforce
  qed
qed

section \<open>Properties\<close>

text \<open>The construction of RFC 2104 over a hash with 64-byte blocks.\<close>

definition hmac_key :: "(bytes \<Rightarrow> bytes) \<Rightarrow> bytes \<Rightarrow> bytes" where
  "hmac_key H key = (let k = (if length key > 64 then H key else key) in k @ replicate (64 - length k) 0)"

definition rfc2104_hmac :: "(bytes \<Rightarrow> bytes) \<Rightarrow> bytes \<Rightarrow> bytes \<Rightarrow> bytes" where
  "rfc2104_hmac H key m =
     H (map (\<lambda>b. b XOR 0x5c) (hmac_key H key) @ H (map (\<lambda>b. b XOR 0x36) (hmac_key H key) @ m))"

lemma ComputeHmac_outer:
  assumes "digest_stands_for d []" "Digest_Size d \<le> 20"
  shows "\<exists>d'. ComputeHmac d key input out_len =
      Digest_Finish out_len
        (Digest_Update (digest_hash d (map (\<lambda>b. b XOR 0x36) (hmac_key (digest_hash d) key) @ input))
          (Digest_Update (map (\<lambda>b. b XOR 0x5c) (hmac_key (digest_hash d) key)) d')) \<and>
    digest_stands_for d' [] \<and> Digest_Size d' = Digest_Size d \<and> digest_hash d' = digest_hash d"
proof -
  define k where "k = (if length key > 64 then digest_hash d key else key)"
  define k0 where "k0 = k @ replicate (64 - length k) 0"
  have key: "hmac_key (digest_hash d) key = k0" by (simp add: hmac_key_def k0_def k_def Let_def)
  obtain d1 where d1: "digest_stands_for d1 []" "Digest_Size d1 = Digest_Size d" "digest_hash d1 = digest_hash d"
    "(if length key > kBlockSize then
        (case ComputeDigest d key kBlockSize of
           (hashed, digest) \<Rightarrow> (hashed @ replicate (kBlockSize - Digest_Size digest) 0, digest))
      else (key @ replicate (kBlockSize - length key) 0, d)) = (k0, d1)"
  proof (cases "length key > 64")
    case True
    obtain d' where "Digest_Finish 64 (Digest_Update key d) = (digest_hash d key, d')" "digest_stands_for d' []"
      "Digest_Size d' = Digest_Size d" "digest_hash d' = digest_hash d"
      using msf_digest.one_part [OF assms(1), of 64 key] assms(2) by auto
    with True that show ?thesis
      by (simp add: ComputeDigest_def kBlockSize_def k0_def k_def msf_digest.hash_length)
  next
    case False
    with that assms(1) show ?thesis by (simp add: kBlockSize_def k0_def k_def)
  qed
  define ip op where "ip = map (\<lambda>b. 0x36 XOR b) k0" and "op = map (\<lambda>b. 0x5c XOR b) k0"
  obtain d2 where d2: "Digest_Finish (Digest_Size d1) (Digest_Update input (Digest_Update ip d1)) = (digest_hash d (ip @ input), d2)"
    "digest_stands_for d2 []" "Digest_Size d2 = Digest_Size d" "digest_hash d2 = digest_hash d"
    using msf_digest.two_parts [OF d1(1), of "Digest_Size d1" input ip] d1(2,3) by auto
  have "ComputeHmac d key input out_len = Digest_Finish out_len (Digest_Update (digest_hash d (ip @ input)) (Digest_Update op d2))"
    using assms(2) unfolding ComputeHmac_def Let_def d1(4) prod.case
    by (simp add: d2(1) [unfolded ip_def op_def] ip_def op_def)
  with d2 show ?thesis unfolding key by (auto simp: ip_def op_def xor.commute)
qed

lemma ComputeHmac_result:
  assumes "digest_stands_for d []" "Digest_Size d \<le> 20"
  shows "fst (ComputeHmac d key input out_len) =
    (if Digest_Size d \<le> out_len then rfc2104_hmac (digest_hash d) key input else [])"
proof -
  obtain d' where d': "ComputeHmac d key input out_len =
      Digest_Finish out_len
        (Digest_Update (digest_hash d (map (\<lambda>b. b XOR 0x36) (hmac_key (digest_hash d) key) @ input))
          (Digest_Update (map (\<lambda>b. b XOR 0x5c) (hmac_key (digest_hash d) key)) d'))"
    "digest_stands_for d' []" "Digest_Size d' = Digest_Size d" "digest_hash d' = digest_hash d"
    using ComputeHmac_outer [OF assms] by blast
  have "fst (Digest_Finish out_len d) = []" if "out_len < Digest_Size d" for d
    using that by (cases d) simp_all
  moreover have "fst (Digest_Finish out_len (Digest_Update b (Digest_Update a d'))) = digest_hash d (a @ b)"
    if "Digest_Size d \<le> out_len" for a b
    using msf_digest.two_parts [OF d'(2), of out_len b a] d'(3,4) that by auto
  ultimately show ?thesis
    using d'(3) by (simp add: d'(1) rfc2104_hmac_def msf_digest.update_kind)
qed

lemma new_digests:
  "length (md5_in md5_mem) = 64 \<Longrightarrow> digest_stands_for (Md5Digest (MD5_init md5_mem)) []"
  "length (ctx_buffer sha1_mem) = 64 \<Longrightarrow> digest_stands_for (Sha1Digest (SHA1_init sha1_mem)) []"
  by (simp_all add: md5_stream.init sha1_stream.init)

lemma ComputeHmac_sha1:
  "length (ctx_buffer sha1_mem) = 64 \<Longrightarrow>
     ComputeHmac_alg md5_mem sha1_mem DIGEST_SHA_1 key input 20 = rfc2104_hmac sha1_hash key input"
  using ComputeHmac_result [OF new_digests(2)]
  by (simp add: ComputeHmac_alg_def MessageDigestFactory_Create_def DIGEST_MD5_def DIGEST_SHA_1_def)

lemma length_hmac_sha1: "length (rfc2104_hmac sha1_hash key input) = 20"
  by (simp add: rfc2104_hmac_def length_hashes)

lemma ComputeDigest_md5:
  "length (md5_in md5_mem) = 64 \<Longrightarrow> 16 \<le> n \<Longrightarrow> ComputeDigest_alg md5_mem sha1_mem DIGEST_MD5 input n = md5_hash input"
  using msf_digest.one_part [OF new_digests(1), of md5_mem n input]
  by (auto simp: ComputeDigest_alg_def ComputeDigest_def MessageDigestFactory_Create_def)

text \<open>C12. The keyed digest of the stack is the HMAC of RFC 2104 over MD5 or SHA-1, whatever the memory the digest
  objects are created in, for keys of any length and messages of any length; an output buffer that is too
  small or an unknown algorithm gives nothing.\<close>

theorem hmac_rfc2104:
  assumes "length (md5_in md5_mem) = 64" "length (ctx_buffer sha1_mem) = 64"
  shows "ComputeHmac_alg md5_mem sha1_mem alg key input out_len =
    (if alg = ''md5'' \<and> 16 \<le> out_len then rfc2104_hmac md5_hash key input
     else if alg = ''sha-1'' \<and> 20 \<le> out_len then rfc2104_hmac sha1_hash key input
     else [])"
  using ComputeHmac_result [OF new_digests(1) [OF assms(1)]] ComputeHmac_result [OF new_digests(2) [OF assms(2)]]
  by (simp add: ComputeHmac_alg_def MessageDigestFactory_Create_def DIGEST_MD5_def DIGEST_SHA_1_def)

theorem hmac_rfc2104_witness:
  "ComputeHmac_alg \<lparr>md5_buf = [], md5_bits0 = 0, md5_bits1 = 0, md5_in = replicate 64 1\<rparr>
     \<lparr>ctx_state = [], ctx_count0 = 0, ctx_count1 = 0, ctx_buffer = replicate 64 2\<rparr> ''sha-1'' [1, 2] [3] 20 =
   sha1_hash (map (\<lambda>b. b XOR 0x5c) ([1, 2] @ replicate 62 0) @
     sha1_hash (map (\<lambda>b. b XOR 0x36) ([1, 2] @ replicate 62 0) @ [3]))"
  using hmac_rfc2104 [of "\<lparr>md5_buf = [], md5_bits0 = 0, md5_bits1 = 0, md5_in = replicate 64 1\<rparr>"
     "\<lparr>ctx_state = [], ctx_count0 = 0, ctx_count1 = 0, ctx_buffer = replicate 64 2\<rparr>" "''sha-1''" "[1, 2]" "[3]" 20]
  by (simp add: rfc2104_hmac_def hmac_key_def)

end
