(* ===== verification/Crc32.thy ===== *)
theory Crc32
  imports Crc32_Tables
begin

text \<open>
  The software checksum (\<open>crc32_sw.cc\<close>, \<open>checksum_sw\<close>; \<open>crc.cc\<close>, \<open>Crc32\<close>) on a little-endian host: single
  bytes up to a four-byte boundary, then eight bytes at a time through the slicing tables, then the rest.
  The address of the chunk is an argument, because the first loop depends on its alignment; the count of
  eight-byte steps is kept in 32 bits as in the code. The reference feeds the message bit by bit.
\<close>

section \<open>The code\<close>

definition checksum_byte :: "u32 \<Rightarrow> u8 \<Rightarrow> u32" where
  "checksum_byte crc b =
     (g_crc_slicing ! 0) ! unat ((crc XOR ucast b) AND 0xFF) XOR drop_bit 8 crc"

fun checksum_align :: "nat \<Rightarrow> u32 \<Rightarrow> bytes \<Rightarrow> u32 \<times> bytes" where
  "checksum_align p crc [] = (crc, [])"
| "checksum_align p crc (b # bs) =
     (if p mod 4 \<noteq> 0 then checksum_align (p + 1) (checksum_byte crc b) bs else (crc, b # bs))"

definition checksum_qword :: "u32 \<Rightarrow> u32 \<Rightarrow> u32" where
  "checksum_qword crc next =
     (g_crc_slicing ! 7) ! unat (crc AND 0xFF) XOR
     (g_crc_slicing ! 6) ! unat (drop_bit 8 crc AND 0xFF) XOR
     (g_crc_slicing ! 5) ! unat (drop_bit 16 crc AND 0xFF) XOR
     (g_crc_slicing ! 4) ! unat (drop_bit 24 crc) XOR
     (g_crc_slicing ! 3) ! unat (next AND 0xFF) XOR
     (g_crc_slicing ! 2) ! unat (drop_bit 8 next AND 0xFF) XOR
     (g_crc_slicing ! 1) ! unat (drop_bit 16 next AND 0xFF) XOR
     (g_crc_slicing ! 0) ! unat (drop_bit 24 next)"

fun checksum_qwords :: "nat \<Rightarrow> u32 \<Rightarrow> bytes \<Rightarrow> u32 \<times> bytes" where
  "checksum_qwords 0 crc p = (crc, p)"
| "checksum_qwords (Suc nqwords) crc p =
     checksum_qwords nqwords
       (checksum_qword (crc XOR le_load (take 4 p)) (le_load (take 4 (drop 4 p)))) (drop 8 p)"

definition checksum_sw :: "nat \<Rightarrow> bytes \<Rightarrow> u32" where
  "checksum_sw chunk_addr chunk =
     (case checksum_align chunk_addr 0xFFFFFFFF chunk of (crc, p) \<Rightarrow>
        let nqwords = (of_nat (length p div 8) :: u32) in
        (case checksum_qwords (unat nqwords) crc p of (crc, q) \<Rightarrow>
           NOT (foldl checksum_byte crc (take (length p mod 8) q))))"

text \<open>\<open>Crc32\<close> calls the hardware routine when one has been installed.\<close>

definition Crc32 :: "(nat \<Rightarrow> bytes \<Rightarrow> u32) option \<Rightarrow> nat \<Rightarrow> bytes \<Rightarrow> u32" where
  "Crc32 g_Crc32 addr chunk = (case g_Crc32 of Some f \<Rightarrow> f addr chunk | None \<Rightarrow> checksum_sw addr chunk)"

section \<open>Reference\<close>

definition crc32c :: "bytes \<Rightarrow> u32" where
  "crc32c bs = NOT (foldl (\<lambda>crc b. crc_shift (crc XOR ucast b)) 0xFFFFFFFF bs)"

section \<open>The checksum is the bitwise check\<close>

lemma checksum_byte_eq: "checksum_byte crc b = crc_shift (crc XOR ucast b)"
proof -
  define c where "c = crc XOR (ucast b :: u32)"
  have "drop_bit 8 crc = drop_bit 8 c" 
    unfolding c_def by (rule bit_word_eqI) (auto simp: bit_simps dest: bit_imp_le_length)
  moreover have "c = take_bit 8 c XOR push_bit 8 (drop_bit 8 c)"
    by (rule bit_word_eqI) (auto simp: bit_and_iff bit_xor_iff bit_push_bit_iff bit_drop_bit_eq bit_take_bit_iff)
  then have "crc_shift c = crc_shift (take_bit 8 c) XOR crc_shift (push_bit 8 (drop_bit 8 c))"
    using xor_linearD [OF xor_linear_crc_shift(2)] by metis
  moreover have "crc_shift (push_bit 8 (drop_bit 8 c)) = drop_bit 8 c"
    by (rule crc_shift_push) (rule word_drop_bit_less, simp_all)
  ultimately show ?thesis
    using g_crc_slicing_nth [of 0 "take_bit 8 c"] word_take_bit_less [of 8 c] by (simp add: checksum_byte_def word_and_0xFF c_def [symmetric])
qed

lemma crc_feed:
  "length bs \<le> 4 \<Longrightarrow>
     foldl (\<lambda>crc b. crc_shift (crc XOR ucast b)) c bs = (crc_shift ^^ length bs) (c XOR le_load bs)"
proof (induction bs arbitrary: c)
  case (Cons b bs)
  have le: "le_load bs < (2 :: u32) ^ 24"
  proof -
    have "take_bit 24 (le_load bs :: u32) = le_load bs"
      using Cons.prems by (intro bit_word_eqI) (auto simp: bit_take_bit_iff bit_le_load)
    then show ?thesis by (subst word_less_exp_iff) simp_all
  qed
  have "crc_shift (c XOR ucast b) XOR le_load bs = crc_shift (c XOR ucast b XOR push_bit 8 (le_load bs))"
    by (simp add: xor_linearD [OF xor_linear_crc_shift(2)] crc_shift_push [OF le] xor.assoc)
  moreover have "(ucast b OR push_bit 8 (le_load bs) :: u32) = ucast b XOR push_bit 8 (le_load bs)"
    by (rule bit_word_eqI) (auto simp: bit_or_iff bit_xor_iff bit_push_bit_iff bit_unsigned_iff dest: bit_imp_le_length)
  ultimately show ?case
    using Cons by (simp add: funpow_swap1 xor.assoc)
qed simp

text \<open>The four bytes of a word, each moved to its place.\<close>

lemma word_bytes_xor:
  "(x :: u32) = take_bit 8 x XOR (push_bit 8 (take_bit 8 (drop_bit 8 x)) XOR
     (push_bit 16 (take_bit 8 (drop_bit 16 x)) XOR push_bit 24 (drop_bit 24 x)))"
  by (rule bit_word_eqI) (auto simp: bit_and_iff bit_xor_iff bit_push_bit_iff bit_drop_bit_eq bit_take_bit_iff)

lemma crc_shift_bytes:
  "(crc_shift ^^ (4 + n)) x =
     (crc_shift ^^ Suc (3 + n)) (take_bit 8 x) XOR ((crc_shift ^^ Suc (2 + n)) (take_bit 8 (drop_bit 8 x)) XOR
     ((crc_shift ^^ Suc (1 + n)) (take_bit 8 (drop_bit 16 x)) XOR (crc_shift ^^ Suc n) (drop_bit 24 x)))"
proof -
  note lin = xor_linearD [OF xor_linear_crc_shift(1)]
  have p: "(crc_shift ^^ (4 + n)) (push_bit 8 (take_bit 8 (drop_bit 8 x))) = (crc_shift ^^ (3 + n)) (take_bit 8 (drop_bit 8 x))"
    "(crc_shift ^^ (4 + n)) (push_bit 16 (take_bit 8 (drop_bit 16 x))) = (crc_shift ^^ (2 + n)) (take_bit 8 (drop_bit 16 x))"
    "(crc_shift ^^ (4 + n)) (push_bit 24 (drop_bit 24 x)) = (crc_shift ^^ (1 + n)) (drop_bit 24 x)"
    using crc_shift_push_n [of "take_bit 8 (drop_bit 8 x)" 1 "3 + n"] word_take_bit_less [of 8 "drop_bit 8 x"]
      crc_shift_push_n [of "take_bit 8 (drop_bit 16 x)" 2 "2 + n"] word_take_bit_less [of 8 "drop_bit 16 x"]
      crc_shift_push_n [of "drop_bit 24 x" 3 "1 + n"] word_drop_bit_less [of 24 8 x]
    by (simp_all del: funpow.simps add: eval_nat_numeral)
  have "(crc_shift ^^ (4 + n)) x = (crc_shift ^^ (4 + n)) (take_bit 8 x XOR (push_bit 8 (take_bit 8 (drop_bit 8 x)) XOR
     (push_bit 16 (take_bit 8 (drop_bit 16 x)) XOR push_bit 24 (drop_bit 24 x))))"
    by (rule arg_cong [OF word_bytes_xor])
  then show ?thesis by (simp only: lin p) (simp del: funpow.simps add: eval_nat_numeral)
qed

lemma checksum_qword_shift: "checksum_qword x y = (crc_shift ^^ 8) x XOR (crc_shift ^^ 4) y"
proof -
  have "(crc_shift ^^ 8) x XOR (crc_shift ^^ 4) y = (crc_shift ^^ (4 + 4)) x XOR (crc_shift ^^ (4 + 0)) y" by simp
  also have "\<dots> = checksum_qword x y"
    unfolding crc_shift_bytes checksum_qword_def word_and_0xFF
    using word_take_bit_less [where 'a = 32 and n = 8] word_drop_bit_less [of 24 8 x] word_drop_bit_less [of 24 8 y]
    by (simp add: g_crc_slicing_nth xor.assoc del: funpow.simps)
  finally show ?thesis by simp
qed

lemma checksum_qword_eq:
  assumes "length bs = 8"
  shows "checksum_qword (crc XOR le_load (take 4 bs)) (le_load (take 4 (drop 4 bs))) =
    foldl (\<lambda>crc b. crc_shift (crc XOR ucast b)) crc bs"
proof -
  let ?x = "crc XOR le_load (take 4 bs)" and ?y = "le_load (take 4 (drop 4 bs)) :: u32"
  have "foldl (\<lambda>crc b. crc_shift (crc XOR ucast b)) crc bs =
      foldl (\<lambda>crc b. crc_shift (crc XOR ucast b)) crc (take 4 bs @ take 4 (drop 4 bs))"
    using assms by (simp add: take_add [symmetric])
  also have "\<dots> = (crc_shift ^^ 4) ((crc_shift ^^ 4) ?x XOR ?y)"
    using assms by (simp only: foldl_append) (simp add: crc_feed)
  also have "\<dots> = checksum_qword ?x ?y"
    using funpow_add [of 4 4 crc_shift] by (simp add: xor_linearD [OF xor_linear_crc_shift(1)] checksum_qword_shift)
  finally show ?thesis by simp
qed

abbreviation feed :: "u32 \<Rightarrow> bytes \<Rightarrow> u32" where
  "feed \<equiv> foldl (\<lambda>crc b. crc_shift (crc XOR ucast b))"

lemma checksum_align_feed:
  "checksum_align p crc bs = (crc', q) \<Longrightarrow> \<exists>xs. bs = xs @ q \<and> crc' = feed crc xs"
proof (induction p crc bs rule: checksum_align.induct)
  case (2 p crc b bs)
  show ?case
  proof (cases "p mod 4 \<noteq> 0")
    case True
    with 2 obtain xs where "bs = xs @ q" "crc' = feed (checksum_byte crc b) xs" by auto
    then have "b # bs = (b # xs) @ q \<and> crc' = feed crc (b # xs)" by (simp add: checksum_byte_eq)
    then show ?thesis by blast
  qed (use 2 in auto)
qed simp

lemma checksum_qwords_feed:
  "8 * n \<le> length p \<Longrightarrow> checksum_qwords n crc p = (feed crc (take (8 * n) p), drop (8 * n) p)"
proof (induction n arbitrary: crc p)
  case (Suc n)
  have "checksum_qword (crc XOR le_load (take 4 p)) (le_load (take 4 (drop 4 p))) = feed crc (take 8 p)"
    using checksum_qword_eq [of "take 8 p" crc] Suc.prems by (simp add: drop_take)
  moreover have "take 8 p @ take (8 * n) (drop 8 p) = take (8 * Suc n) p" by (simp add: take_add [symmetric])
  ultimately show ?case
    using Suc.IH [of "drop 8 p"] Suc.prems by (simp add: foldl_append [symmetric] add.commute del: foldl_append)
qed simp

lemma checksum_sw_eq:
  assumes "length chunk < 2 ^ 35"
  shows "checksum_sw addr chunk = crc32c chunk"
proof -
  obtain crc p where a: "checksum_align addr 0xFFFFFFFF chunk = (crc, p)" by fastforce
  then obtain xs where x: "chunk = xs @ p" "crc = feed 0xFFFFFFFF xs" using checksum_align_feed by blast
  have "length p div 8 < 2 ^ 32" using assms x(1) by simp
  then have "unat (of_nat (length p div 8) :: u32) = length p div 8"
    by (simp add: unat_of_nat take_bit_nat_eq_self)
  moreover have "take (length p mod 8) (drop (8 * (length p div 8)) p) = drop (8 * (length p div 8)) p"
    by (simp add: minus_mult_div_eq_mod)
  moreover have "foldl checksum_byte = feed" by (simp add: checksum_byte_eq [abs_def] ext)
  ultimately have "checksum_sw addr chunk = NOT (feed (feed crc (take (8 * (length p div 8)) p)) (drop (8 * (length p div 8)) p))"
    using a checksum_qwords_feed [of "length p div 8" p crc] by (simp add: checksum_sw_def)
  also have "\<dots> = crc32c chunk" by (simp add: crc32c_def x foldl_append [symmetric] del: foldl_append)
  finally show ?thesis .
qed

section \<open>Properties\<close>

text \<open>C9. The software checksum of a chunk of less than 32 gigabytes at any address is the bit-by-bit CRC-32C
  of its bytes: neither the alignment loop nor the slicing tables change the result.\<close>

theorem checksum_sw_is_crc32c:
  assumes "length chunk < 2 ^ 35"
  shows "checksum_sw addr chunk = crc32c chunk"
  using assms by (rule checksum_sw_eq)

theorem checksum_sw_is_crc32c_witness:
  "checksum_sw 1 [0x31, 0x32, 0x33, 0x34, 0x35, 0x36, 0x37, 0x38, 0x39] = 0xE3069283"
proof -
  have "(0xFFFFFFFF XOR ucast (0x31 :: u8) :: u32) = 0xFFFFFFCE" by simp
  then have "crc32c [0x31, 0x32, 0x33, 0x34, 0x35, 0x36, 0x37, 0x38, 0x39] =
      NOT (feed (crc_shift 0xFFFFFFCE) [0x32, 0x33, 0x34, 0x35, 0x36, 0x37, 0x38, 0x39])"
    by (simp only: crc32c_def foldl.simps)
  also have "\<dots> = 0xE3069283" unfolding foldl.simps by (simp add: crc_shift_unfold crc_bit_def)
  finally show ?thesis
    using checksum_sw_is_crc32c [of "[0x31, 0x32, 0x33, 0x34, 0x35, 0x36, 0x37, 0x38, 0x39]" 1] by simp
qed

end
