(* ===== verification/Stun_Message.thy ===== *)
theory Stun_Message
  imports Stun_Attribute Message_Digest Crc32
begin

text \<open>
  STUN, TURN and ICE messages (\<open>class StunMessage\<close> and its derived classes in \<open>stun.h\<close> and \<open>stun.cc\<close>): the
  attribute list with its length field, the wire format, message integrity and the fingerprint. The dynamic
  class is a field. A failed assertion or an access outside a buffer is the outer \<open>None\<close> of a result. The
  memory a digest object starts from (\<open>md5_mem\<close>, \<open>sha1_mem\<close>), the checksum routine the process selected and the
  address of a buffer are arguments where the code uses them.
\<close>

section \<open>Messages\<close>

record StunMessage =
  msg_kind :: MessageKind
  msg_type :: u16
  msg_length :: u16
  transaction_id :: bytes
  reduced_transaction_id :: u32
  stun_magic_cookie :: u32
  attrs :: "StunAttribute list"

definition IsValidTransactionId :: "bytes \<Rightarrow> bool" where
  "IsValidTransactionId tid \<longleftrightarrow>
     length tid = kStunTransactionIdLength \<or> length tid = kStunLegacyTransactionIdLength"

lemma ReadUInt16_shrinks: "ReadUInt16 r = (Some v, r') \<Longrightarrow> Length r' < Length r"
  by (auto simp: ReadUInt16_def ReadBytes_def Length_def split: prod.splits if_splits)

lemma ReadUInt32_shrinks: "ReadUInt32 r = (Some v, r') \<Longrightarrow> Length r' < Length r"
  by (auto simp: ReadUInt32_def ReadBytes_def Length_def split: prod.splits if_splits)

function reduce_loop :: "u32 \<Rightarrow> ByteBufferReader \<Rightarrow> u32" where
  "reduce_loop result reader =
     (case ReadUInt32 reader of
        (Some next, reader') \<Rightarrow> reduce_loop (result XOR next) reader'
      | (None, _) \<Rightarrow> result)"
  by pat_completeness auto
termination
  by (relation "measure (\<lambda>(result, reader). Length reader)") (auto dest: ReadUInt32_shrinks [OF sym])

declare reduce_loop.simps [simp del]

definition ReduceTransactionId :: "bytes \<Rightarrow> u32 option" where
  "ReduceTransactionId tid =
     (if IsValidTransactionId tid then Some (reduce_loop 0 (new_ByteBufferReader tid)) else None)"

text \<open>The constructor leaves \<open>reduced_transaction_id_\<close> to whatever the memory held.\<close>

definition new_StunMessage :: "MessageKind \<Rightarrow> u32 \<Rightarrow> StunMessage" where
  "new_StunMessage kind reduced =
     \<lparr>msg_kind = kind, msg_type = 0, msg_length = 0, transaction_id = EMPTY_TRANSACTION_ID,
      reduced_transaction_id = reduced, stun_magic_cookie = kStunMagicCookie, attrs = []\<rparr>"

definition SetType :: "int \<Rightarrow> StunMessage \<Rightarrow> StunMessage" where
  "SetType ty m = m\<lparr>msg_type := word_of_int ty\<rparr>"

definition SetStunMagicCookie :: "u32 \<Rightarrow> StunMessage \<Rightarrow> StunMessage" where
  "SetStunMagicCookie val m = m\<lparr>stun_magic_cookie := val\<rparr>"

definition IsLegacy :: "StunMessage \<Rightarrow> bool option" where
  "IsLegacy m =
     (if length (transaction_id m) = kStunLegacyTransactionIdLength then Some True
      else if length (transaction_id m) = kStunTransactionIdLength then Some False
      else None)"

definition SetTransactionID :: "bytes \<Rightarrow> StunMessage \<Rightarrow> (bool \<times> StunMessage) option" where
  "SetTransactionID str m =
     (if \<not> IsValidTransactionId str then Some (False, m)
      else map_option (\<lambda>red. (True, m\<lparr>transaction_id := str, reduced_transaction_id := red\<rparr>))
        (ReduceTransactionId str))"

section \<open>The attribute list\<close>

definition attr_type_int :: "StunAttribute \<Rightarrow> int" where
  "attr_type_int a = uint (attr_type a)"

text \<open>The room of an attribute: its length rounded up to four bytes, and its header.\<close>

definition attr_room :: "StunAttribute \<Rightarrow> u16" where
  "attr_room a =
     (let n = unat (attr_length a);
          n = (if n mod 4 \<noteq> 0 then n + (4 - n mod 4) else n)
      in of_nat (n + 4))"

definition AddAttribute :: "StunAttribute \<Rightarrow> StunMessage \<Rightarrow> StunMessage option" where
  "AddAttribute attr m =
     (if \<not> DesignatedExpertRange (attr_type_int attr) \<and>
         value_type attr \<noteq> GetAttributeValueType (msg_kind m) (attr_type_int attr)
      then None
      else
        (let attr = SetOwner True attr
         in Some (m\<lparr>msg_length := msg_length m + attr_room attr, attrs := attrs m @ [attr]\<rparr>)))"

text \<open>The last attribute of a type, and the others.\<close>

fun take_last :: "int \<Rightarrow> StunAttribute list \<Rightarrow> (StunAttribute \<times> StunAttribute list) option" where
  "take_last ty [] = None"
| "take_last ty (a # as) =
     (case take_last ty as of
        Some (x, as') \<Rightarrow> Some (x, a # as')
      | None \<Rightarrow> if attr_type_int a = ty then Some (a, as) else None)"

definition RemoveAttribute :: "int \<Rightarrow> StunMessage \<Rightarrow> StunAttribute option \<times> StunMessage" where
  "RemoveAttribute ty m =
     (case take_last ty (attrs m) of
        None \<Rightarrow> (None, m)
      | Some (attribute, rest) \<Rightarrow>
          (let attribute = SetOwner False attribute
           in (Some attribute, m\<lparr>msg_length := msg_length m - attr_room attribute, attrs := rest\<rparr>)))"

definition ClearAttributes :: "StunMessage \<Rightarrow> StunMessage" where
  "ClearAttributes m = m\<lparr>attrs := [], msg_length := 0\<rparr>"

definition GetNonComprehendedAttributes :: "StunMessage \<Rightarrow> u16 list" where
  "GetNonComprehendedAttributes m =
     map attr_type
       (filter (\<lambda>a. 0x0000 \<le> attr_type_int a \<and> attr_type_int a \<le> 0x7FFF \<and>
            GetAttributeValueType (msg_kind m) (attr_type_int a) = kStunAttrValueUnknown) (attrs m))"

definition GetAttribute :: "int \<Rightarrow> StunMessage \<Rightarrow> StunAttribute option" where
  "GetAttribute ty m = find (\<lambda>a. attr_type_int a = ty) (attrs m)"

definition GetAddress :: "int \<Rightarrow> StunMessage \<Rightarrow> StunAttribute option" where
  "GetAddress ty m =
     (if ty = attr_value kStunAttrMappedAddress then
        (case GetAttribute (attr_value kStunAttrMappedAddress) m of
           Some a \<Rightarrow> Some a
         | None \<Rightarrow> GetAttribute (attr_value kStunAttrXorMappedAddress) m)
      else GetAttribute ty m)"

definition GetUInt32 :: "int \<Rightarrow> StunMessage \<Rightarrow> StunAttribute option" where
  "GetUInt32 ty m = GetAttribute ty m"

definition GetUInt64 :: "int \<Rightarrow> StunMessage \<Rightarrow> StunAttribute option" where
  "GetUInt64 ty m = GetAttribute ty m"

definition GetByteString :: "int \<Rightarrow> StunMessage \<Rightarrow> StunAttribute option" where
  "GetByteString ty m = GetAttribute ty m"

definition GetUInt16List :: "int \<Rightarrow> StunMessage \<Rightarrow> StunAttribute option" where
  "GetUInt16List ty m = GetAttribute ty m"

definition GetErrorCode :: "StunMessage \<Rightarrow> StunAttribute option" where
  "GetErrorCode m = GetAttribute (attr_value kStunAttrStunErrorCode) m"

definition GetErrorCodeValue :: "StunMessage \<Rightarrow> int option" where
  "GetErrorCodeValue m =
     (case GetErrorCode m of
        None \<Rightarrow> Some (error_value kStunGlobalFailure)
      | Some a \<Rightarrow> (case attr_body a of StunErrorCodeAttribute c n _ \<Rightarrow> Some (error_code c n) | _ \<Rightarrow> None))"

definition GetUnknownAttributes :: "StunMessage \<Rightarrow> StunAttribute option" where
  "GetUnknownAttributes m = GetAttribute (attr_value kStunAttrUnknownAttributes) m"

section \<open>The wire format\<close>

definition CreateAttribute :: "MessageKind \<Rightarrow> int \<Rightarrow> u16 \<Rightarrow> StunAttribute option" where
  "CreateAttribute kind ty len =
     (let vt = GetAttributeValueType kind ty in
      if vt \<noteq> kStunAttrValueUnknown then StunAttribute_Create vt (word_of_int ty) len True
      else if DesignatedExpertRange ty then StunAttribute_Create kStunAttrValueByteString (word_of_int ty) len True
      else None)"

lemma buffer_shrinks:
  "ReadUInt16 r = (Some v, r') \<Longrightarrow> Length r' < Length r"
  "Consume n r = (b, r') \<Longrightarrow> Length r' \<le> Length r"
  "StunAttribute_Read tid a r = Some (x, r') \<Longrightarrow> Length r' \<le> Length r"
  using advanced_Consume [of r n] StunAttribute_Read_total [of tid a r]
  by (auto simp: ReadUInt16_shrinks dest: advanced_Length)

function read_attrs :: "nat \<Rightarrow> StunMessage \<Rightarrow> ByteBufferReader \<Rightarrow> (bool \<times> StunMessage \<times> ByteBufferReader) option" where
  "read_attrs rest m buf =
     (if Length buf > rest then
        (case ReadUInt16 buf of
           (None, buf) \<Rightarrow> Some (False, m, buf)
         | (Some ty, buf) \<Rightarrow>
        (case ReadUInt16 buf of
           (None, buf) \<Rightarrow> Some (False, m, buf)
         | (Some len, buf) \<Rightarrow>
        (case CreateAttribute (msg_kind m) (uint ty) len of
           None \<Rightarrow>
             (let len = (if unat len mod 4 \<noteq> 0 then len + of_nat (4 - unat len mod 4) else len) in
              (case Consume (unat len) buf of
                 (False, buf) \<Rightarrow> Some (False, m, buf)
               | (True, buf) \<Rightarrow> read_attrs rest m buf))
         | Some attr \<Rightarrow>
             (case StunAttribute_Read (transaction_id m) attr buf of
                None \<Rightarrow> None
              | Some (None, buf) \<Rightarrow> Some (False, m, buf)
              | Some (Some attr, buf) \<Rightarrow> read_attrs rest (m\<lparr>attrs := attrs m @ [attr]\<rparr>) buf))))
      else if Length buf = rest then Some (True, m, buf)
      else None)"
  by pat_completeness auto
termination
  by (relation "measure (\<lambda>(rest, m, buf). Length buf)") (auto dest!: buffer_shrinks(1,2) [OF sym] buffer_shrinks(3))

declare read_attrs.simps [simp del]

definition StunMessage_Read :: "StunMessage \<Rightarrow> ByteBufferReader \<Rightarrow> (bool \<times> StunMessage \<times> ByteBufferReader) option" where
  "StunMessage_Read m buf =
     (case ReadUInt16 buf of
        (None, buf) \<Rightarrow> Some (False, m, buf)
      | (Some ty, buf) \<Rightarrow>
     (let m = m\<lparr>msg_type := ty\<rparr> in
      if ty AND 0x8000 \<noteq> 0 then Some (False, m, buf) else
     (case ReadUInt16 buf of
        (None, buf) \<Rightarrow> Some (False, m, buf)
      | (Some len, buf) \<Rightarrow>
     (let m = m\<lparr>msg_length := len\<rparr> in
     (case ReadString kStunMagicCookieLength buf of
        (None, buf) \<Rightarrow> Some (False, m, buf)
      | (Some magic_cookie, buf) \<Rightarrow>
     (case ReadString kStunTransactionIdLength buf of
        (None, buf) \<Rightarrow> Some (False, m, buf)
      | (Some tid, buf) \<Rightarrow>
     (let tid = (if NetworkToHost32 (obj_load magic_cookie) \<noteq> kStunMagicCookie then magic_cookie @ tid else tid) in
      if \<not> IsValidTransactionId tid then None else
     (case ReduceTransactionId tid of
        None \<Rightarrow> None
      | Some red \<Rightarrow>
     (let m = m\<lparr>transaction_id := tid, reduced_transaction_id := red\<rparr> in
      if unat (msg_length m) \<noteq> Length buf then Some (False, m, buf)
      else read_attrs (Length buf - unat (msg_length m)) (m\<lparr>attrs := []\<rparr>) buf)))))))))"

fun write_attrs :: "bytes \<Rightarrow> StunAttribute list \<Rightarrow> BufferT \<Rightarrow> (bool \<times> BufferT) option" where
  "write_attrs tid [] buf = Some (True, buf)"
| "write_attrs tid (attr # as) buf =
     (case StunAttribute_Write tid attr (WriteUInt16 (attr_length attr) (WriteUInt16 (attr_type attr) buf)) of
        None \<Rightarrow> None
      | Some (False, buf) \<Rightarrow> Some (False, buf)
      | Some (True, buf) \<Rightarrow> write_attrs tid as buf)"

definition StunMessage_Write :: "StunMessage \<Rightarrow> BufferT \<Rightarrow> (bool \<times> BufferT) option" where
  "StunMessage_Write m buf =
     (let buf = WriteUInt16 (msg_length m) (WriteUInt16 (msg_type m) buf) in
      (case IsLegacy m of
         None \<Rightarrow> None
       | Some legacy \<Rightarrow>
           (let buf = (if \<not> legacy then WriteUInt32 (stun_magic_cookie m) buf else buf);
                buf = WriteString (transaction_id m) buf
            in write_attrs (transaction_id m) (attrs m) buf)))"

text \<open>\<open>CreateNew\<close> makes an object of the same class; \<open>None\<close> inside is the null pointer.\<close>

definition Clone :: "u32 \<Rightarrow> StunMessage \<Rightarrow> StunMessage option option" where
  "Clone reduced m =
     (case StunMessage_Write m new_ByteBufferWriter of
        None \<Rightarrow> None
      | Some (False, _) \<Rightarrow> Some None
      | Some (True, buf) \<Rightarrow>
          (case StunMessage_Read (new_StunMessage (msg_kind m) reduced) (new_ByteBufferReader (buf_data buf)) of
             None \<Rightarrow> None
           | Some (ok, copy, _) \<Rightarrow> Some (if ok then Some copy else None)))"

definition CopyStunAttribute :: "bytes \<Rightarrow> StunAttribute \<Rightarrow> BufferT \<Rightarrow> StunAttribute option option" where
  "CopyStunAttribute tid a tmp_buffer =
     (case StunAttribute_Create (value_type a) (attr_type a) (attr_length a) False of
        None \<Rightarrow> Some None
      | Some copy \<Rightarrow>
          (case StunAttribute_Write tid a (Clear tmp_buffer) of
             None \<Rightarrow> None
           | Some (False, _) \<Rightarrow> Some None
           | Some (True, buf) \<Rightarrow>
               map_option fst (StunAttribute_Read tid copy (new_ByteBufferReader (buf_data buf)))))"

text \<open>\<open>EqualAttributes\<close>: the loop over the own attributes, then the one over the attributes of \<open>other\<close>.\<close>

fun equal_own :: "(int \<Rightarrow> bool) \<Rightarrow> bytes \<Rightarrow> StunMessage \<Rightarrow> StunAttribute list \<Rightarrow> bool option" where
  "equal_own type_mask tid other [] = Some True"
| "equal_own type_mask tid other (attr # as) =
     (if type_mask (attr_type_int attr) then
        (case GetAttribute (attr_type_int attr) other of
           None \<Rightarrow> Some False
         | Some other_attr \<Rightarrow>
             (case StunAttribute_Write tid attr new_ByteBufferWriter of
                None \<Rightarrow> None
              | Some (_, tmp1) \<Rightarrow>
             (case StunAttribute_Write (transaction_id other) other_attr new_ByteBufferWriter of
                None \<Rightarrow> None
              | Some (_, tmp2) \<Rightarrow>
                  if buf_data tmp1 \<noteq> buf_data tmp2 then Some False else equal_own type_mask tid other as)))
      else equal_own type_mask tid other as)"

definition EqualAttributes :: "(int \<Rightarrow> bool) \<Rightarrow> StunMessage \<Rightarrow> StunMessage \<Rightarrow> bool option" where
  "EqualAttributes type_mask m other =
     (case equal_own type_mask (transaction_id m) other (attrs m) of
        Some True \<Rightarrow>
          Some (\<forall>attr \<in> set (attrs other). type_mask (attr_type_int attr) \<longrightarrow> GetAttribute (attr_type_int attr) m \<noteq> None)
      | res \<Rightarrow> res)"

section \<open>Message integrity and fingerprint\<close>

function find_integrity :: "int \<Rightarrow> nat \<Rightarrow> bytes \<Rightarrow> nat \<Rightarrow> nat option option" where
  "find_integrity mi_attr_type mi_attr_size data current_pos =
     (if current_pos + 4 \<le> length data then
        (case GetBE16 data current_pos of
           None \<Rightarrow> None
         | Some ty \<Rightarrow>
        (case GetBE16 data (current_pos + 2) of
           None \<Rightarrow> None
         | Some len \<Rightarrow>
             if uint ty = mi_attr_type then
               (if unat len \<noteq> mi_attr_size \<or> current_pos + 2 + 2 + unat len > length data
                then Some None else Some (Some current_pos))
             else
               (let pos = current_pos + (2 + 2 + unat len);
                    pos = (if unat len mod 4 \<noteq> 0 then pos + (4 - unat len mod 4) else pos)
                in find_integrity mi_attr_type mi_attr_size data pos)))
      else Some None)"
  by pat_completeness auto
termination
  by (relation "measure (\<lambda>(ty, size, data, pos). length data - pos)") (auto simp: Let_def)

declare find_integrity.simps [simp del]

definition ValidateMessageIntegrityOfType ::
  "MD5Context \<Rightarrow> SHA1_CTX \<Rightarrow> int \<Rightarrow> nat \<Rightarrow> bytes \<Rightarrow> bytes \<Rightarrow> bool option" where
  "ValidateMessageIntegrityOfType md5_mem sha1_mem mi_attr_type mi_attr_size data password =
     (let size = length data in
      if mi_attr_size > kStunMessageIntegritySize then None
      else if size mod 4 \<noteq> 0 \<or> size < kStunHeaderSize then Some False
      else
     (case GetBE16 data 2 of
        None \<Rightarrow> None
      | Some len \<Rightarrow>
          if size \<noteq> unat len + kStunHeaderSize then Some False
          else
     (case find_integrity mi_attr_type mi_attr_size data kStunHeaderSize of
        None \<Rightarrow> None
      | Some None \<Rightarrow> Some False
      | Some (Some mi_pos) \<Rightarrow>
          (let temp_data = take mi_pos data;
               mi_end = mi_pos + kStunAttributeHeaderSize + mi_attr_size;
               extra_offset = size - mi_end;
               new_adjusted_len = size - extra_offset - kStunHeaderSize
           in
     (case (if size > mi_end then SetBE16 temp_data 2 (of_nat new_adjusted_len) else Some temp_data) of
        None \<Rightarrow> None
      | Some temp_data \<Rightarrow>
          (let hmac = ComputeHmac_alg md5_mem sha1_mem DIGEST_SHA_1 password (take mi_pos temp_data) kStunMessageIntegritySize in
           if length hmac \<noteq> kStunMessageIntegritySize then None
           else map_option (\<lambda>mi. mi = take mi_attr_size hmac)
             (load data (mi_pos + kStunAttributeHeaderSize) mi_attr_size)))))))"

definition ValidateMessageIntegrity :: "MD5Context \<Rightarrow> SHA1_CTX \<Rightarrow> bytes \<Rightarrow> bytes \<Rightarrow> bool option" where
  "ValidateMessageIntegrity md5_mem sha1_mem data password =
     ValidateMessageIntegrityOfType md5_mem sha1_mem (attr_value kStunAttrMessageIntegrity) kStunMessageIntegritySize
       data password"

definition ValidateMessageIntegrity32 :: "MD5Context \<Rightarrow> SHA1_CTX \<Rightarrow> bytes \<Rightarrow> bytes \<Rightarrow> bool option" where
  "ValidateMessageIntegrity32 md5_mem sha1_mem data password =
     ValidateMessageIntegrityOfType md5_mem sha1_mem (attr_value kStunAttrGoodMessageInteger32) kStunMessageIntegrity32Size
       data password"

text \<open>The attribute just added is the last one: the code keeps a pointer to it.\<close>

definition AddMessageIntegrityOfType ::
  "MD5Context \<Rightarrow> SHA1_CTX \<Rightarrow> int \<Rightarrow> nat \<Rightarrow> bytes \<Rightarrow> StunMessage \<Rightarrow> (bool \<times> StunMessage) option" where
  "AddMessageIntegrityOfType md5_mem sha1_mem ty attr_size key m =
     (if attr_size > kStunMessageIntegritySize then None
      else
     (case AddAttribute (new_StunByteStringAttribute (word_of_int ty) (replicate attr_size 0x30)) m of
        None \<Rightarrow> None
      | Some m \<Rightarrow>
     (case StunMessage_Write m new_ByteBufferWriter of
        None \<Rightarrow> None
      | Some (False, _) \<Rightarrow> Some (False, m)
      | Some (True, buf) \<Rightarrow>
          (let msg_len_for_hmac =
                 buf_size buf - kStunAttributeHeaderSize - unat (attr_length (last (attrs m)));
               hmac = ComputeHmac_alg md5_mem sha1_mem DIGEST_SHA_1 key (take msg_len_for_hmac (buf_data buf))
                 kStunMessageIntegritySize
           in if length hmac \<noteq> kStunMessageIntegritySize then None
              else Some (True, m\<lparr>attrs := butlast (attrs m) @ [CopyBytes (take attr_size hmac) (last (attrs m))]\<rparr>)))))"

definition AddMessageIntegrity :: "MD5Context \<Rightarrow> SHA1_CTX \<Rightarrow> bytes \<Rightarrow> StunMessage \<Rightarrow> (bool \<times> StunMessage) option" where
  "AddMessageIntegrity md5_mem sha1_mem key m =
     AddMessageIntegrityOfType md5_mem sha1_mem (attr_value kStunAttrMessageIntegrity) kStunMessageIntegritySize key m"

definition AddMessageIntegrity32 :: "MD5Context \<Rightarrow> SHA1_CTX \<Rightarrow> bytes \<Rightarrow> StunMessage \<Rightarrow> (bool \<times> StunMessage) option" where
  "AddMessageIntegrity32 md5_mem sha1_mem password m =
     AddMessageIntegrityOfType md5_mem sha1_mem (attr_value kStunAttrGoodMessageInteger32) kStunMessageIntegrity32Size
       password m"

definition ValidateFingerprint :: "(nat \<Rightarrow> bytes \<Rightarrow> u32) option \<Rightarrow> nat \<Rightarrow> bytes \<Rightarrow> bool option" where
  "ValidateFingerprint g_Crc32 addr data =
     (let size = length data;
          fingerprint_attr_size = kStunAttributeHeaderSize + unat UInt32_SIZE
      in if size mod 4 \<noteq> 0 \<or> size < kStunHeaderSize + fingerprint_attr_size then Some False
      else
     (case GetBE32 data (kStunTransactionIdOffset - kStunMagicCookieLength) of
        None \<Rightarrow> None
      | Some magic_cookie \<Rightarrow>
          if magic_cookie \<noteq> kStunMagicCookie then Some False
          else
     (let fingerprint_attr_data = size - fingerprint_attr_size in
     (case GetBE16 data fingerprint_attr_data of
        None \<Rightarrow> None
      | Some ty \<Rightarrow>
          if uint ty \<noteq> attr_value kStunAttrFingerprint then Some False
          else
     (case GetBE16 data (fingerprint_attr_data + 2) of
        None \<Rightarrow> None
      | Some len \<Rightarrow>
          if len \<noteq> UInt32_SIZE then Some False
          else
     (case GetBE32 data (fingerprint_attr_data + kStunAttributeHeaderSize) of
        None \<Rightarrow> None
      | Some fingerprint \<Rightarrow>
          Some (fingerprint XOR STUN_FINGERPRINT_XOR_VALUE =
                Crc32 g_Crc32 addr (take (size - fingerprint_attr_size) data))))))))"

definition AddFingerprint :: "(nat \<Rightarrow> bytes \<Rightarrow> u32) option \<Rightarrow> nat \<Rightarrow> StunMessage \<Rightarrow> (bool \<times> StunMessage) option" where
  "AddFingerprint g_Crc32 addr m =
     (case AddAttribute (new_StunUInt32Attribute (word_of_int (attr_value kStunAttrFingerprint)) 0) m of
        None \<Rightarrow> None
      | Some m \<Rightarrow>
     (case StunMessage_Write m new_ByteBufferWriter of
        None \<Rightarrow> None
      | Some (False, _) \<Rightarrow> Some (False, m)
      | Some (True, buf) \<Rightarrow>
          (let msg_len_for_crc32 = buf_size buf - kStunAttributeHeaderSize - unat (attr_length (last (attrs m)));
               c = Crc32 g_Crc32 addr (take msg_len_for_crc32 (buf_data buf))
           in Some (True, m\<lparr>attrs := butlast (attrs m) @
                [(last (attrs m))\<lparr>attr_body := StunUInt32Attribute (c XOR STUN_FINGERPRINT_XOR_VALUE)\<rparr>]\<rparr>))))"

definition IsStunMethod :: "int list \<Rightarrow> bytes \<Rightarrow> bool option" where
  "IsStunMethod methods data =
     (if length data mod 4 \<noteq> 0 \<or> length data < kStunHeaderSize then Some False
      else
     (case GetBE32 data (kStunTransactionIdOffset - kStunMagicCookieLength) of
        None \<Rightarrow> None
      | Some magic_cookie \<Rightarrow>
          if magic_cookie \<noteq> kStunMagicCookie then Some False
          else map_option (\<lambda>method. uint method \<in> set methods) (GetBE16 data 0)))"

definition kMaxSize :: nat where "kMaxSize = 64"

definition ComputeStunCredentialHash :: "MD5Context \<Rightarrow> SHA1_CTX \<Rightarrow> bytes \<Rightarrow> bytes \<Rightarrow> bytes \<Rightarrow> bytes option" where
  "ComputeStunCredentialHash md5_mem sha1_mem username realm password =
     (let input = username @ [0x3A] @ realm @ [0x3A] @ password;
          digest = ComputeDigest_alg md5_mem sha1_mem DIGEST_MD5 input kMaxSize
      in if length digest = 0 then None else Some digest)"

section \<open>Well-formed messages and their encoding\<close>

text \<open>An attribute whose type the message reads back with the class it has.\<close>

definition attr_allowed :: "MessageKind \<Rightarrow> StunAttribute \<Rightarrow> bool" where
  "attr_allowed kind a \<longleftrightarrow>
     (let vt = GetAttributeValueType kind (attr_type_int a) in
      vt = value_type a \<or>
      (vt = kStunAttrValueUnknown \<and> DesignatedExpertRange (attr_type_int a) \<and> value_type a = kStunAttrValueByteString))"

definition attr_enc :: "bytes \<Rightarrow> StunAttribute \<Rightarrow> bytes" where
  "attr_enc tid a = be_bytes 2 (attr_type a) @ be_bytes 2 (attr_length a) @ body_wire tid (attr_body a)"

definition attrs_room :: "StunAttribute list \<Rightarrow> nat" where
  "attrs_room as = sum_list (map (\<lambda>a. 4 + pad4 (unat (attr_length a))) as)"

definition msg_head :: "StunMessage \<Rightarrow> u16 \<Rightarrow> bytes" where
  "msg_head m len =
     be_bytes 2 (msg_type m) @ be_bytes 2 len @
       (if length (transaction_id m) = 16 then [] else be_bytes 4 (stun_magic_cookie m)) @ transaction_id m"

definition msg_wire :: "StunMessage \<Rightarrow> bytes" where
  "msg_wire m = msg_head m (msg_length m) @ concat (map (attr_enc (transaction_id m)) (attrs m))"

text \<open>A message that can be written: its length field counts its attributes, and does not wrap.\<close>

definition msg_ok :: "StunMessage \<Rightarrow> bool" where
  "msg_ok m \<longleftrightarrow> IsValidTransactionId (transaction_id m) \<and>
     (\<forall>a \<in> set (attrs m). attr_ok (transaction_id m) a) \<and> unat (msg_length m) = attrs_room (attrs m)"

lemma valid_id_length: "IsValidTransactionId tid \<longleftrightarrow> length tid = 12 \<or> length tid = 16"
  by (simp add: IsValidTransactionId_def stun_constants)

lemma length_attr_enc: "attr_ok tid a \<Longrightarrow> length (attr_enc tid a) = 4 + pad4 (unat (attr_length a))"
  by (simp add: attr_enc_def attr_ok_def length_body_wire)

lemma length_attrs_enc:
  "\<forall>a \<in> set as. attr_ok tid a \<Longrightarrow> length (concat (map (attr_enc tid) as)) = attrs_room as"
  by (induction as) (simp_all add: attrs_room_def length_attr_enc)

lemma attrs_room_append [simp]:
  "attrs_room (as @ bs) = attrs_room as + attrs_room bs" "attrs_room [] = 0"
  "attrs_room (a # as) = 4 + pad4 (unat (attr_length a)) + attrs_room as"
  by (simp_all add: attrs_room_def)

lemma attr_room_eq: "attr_room a = of_nat (4 + pad4 (unat (attr_length a)))"
  by (simp add: attr_room_def pad4_def Let_def add.commute)

lemma length_msg_head: "IsValidTransactionId (transaction_id m) \<Longrightarrow> length (msg_head m len) = 20"
  by (auto simp: msg_head_def valid_id_length)

lemma write_attrs_ok:
  "\<forall>a \<in> set as. attr_ok tid a \<Longrightarrow>
     \<exists>w'. write_attrs tid as w = Some (True, w') \<and> buf_data w' = buf_data w @ concat (map (attr_enc tid) as)"
proof (induction as arbitrary: w)
  case (Cons a as)
  let ?w = "WriteUInt16 (attr_length a) (WriteUInt16 (attr_type a) w)"
  obtain w1 where "StunAttribute_Write tid a ?w = Some (True, w1)"
    "buf_data w1 = buf_data ?w @ body_wire tid (attr_body a)"
    using StunAttribute_Write_ok [of tid a ?w] Cons.prems by auto
  moreover obtain w2 where "write_attrs tid as w1 = Some (True, w2)"
    "buf_data w2 = buf_data w1 @ concat (map (attr_enc tid) as)"
    using Cons.IH [of w1] Cons.prems by auto
  ultimately show ?case by (simp add: attr_enc_def [of tid a] buf_data_writes)
qed simp

lemma StunMessage_Write_ok:
  assumes "IsValidTransactionId (transaction_id m)" "\<forall>a \<in> set (attrs m). attr_ok (transaction_id m) a"
  shows "\<exists>w'. StunMessage_Write m w = Some (True, w') \<and> buf_data w' = buf_data w @ msg_wire m"
proof -
  have "write_attrs (transaction_id m) (attrs m) v = Some (True, w') \<longrightarrow> StunMessage_Write m w = Some (True, w')"
    if "v = WriteString (transaction_id m) ((if length (transaction_id m) = 16 then id else WriteUInt32 (stun_magic_cookie m))
        (WriteUInt16 (msg_length m) (WriteUInt16 (msg_type m) w)))" for v w'
    using assms(1) that by (auto simp: StunMessage_Write_def IsLegacy_def stun_constants valid_id_length)
  then show ?thesis
    using write_attrs_ok [OF assms(2)] by (fastforce simp: msg_wire_def msg_head_def buf_data_writes)
qed

section \<open>Reading inverts writing\<close>

lemma CreateAttribute_allowed:
  "attr_allowed kind a \<Longrightarrow>
     CreateAttribute kind (attr_type_int a) (attr_length a) =
       StunAttribute_Create (value_type a) (attr_type a) (attr_length a) True"
  by (auto simp: attr_allowed_def CreateAttribute_def attr_type_int_def value_type_def Let_def
      split: StunAttributeBody.splits)

lemma Create_value_type: "\<exists>b. StunAttribute_Create (value_type a) ty len own = Some b"
  by (auto simp: StunAttribute_Create_def value_type_def split: StunAttributeBody.splits)

lemma read_attrs_step:
  assumes "reader_ok r" "attr_ok (transaction_id m) a" "attr_allowed (msg_kind m) a"
    and "unread r = attr_enc (transaction_id m) a @ rest"
  shows "read_attrs 0 m r =
    read_attrs 0 (m\<lparr>attrs := attrs m @ [a]\<rparr>) (advance (length (attr_enc (transaction_id m) a)) r)"
proof -
  obtain b where b: "StunAttribute_Create (value_type a) (attr_type a) (attr_length a) True = Some b"
    using Create_value_type by blast
  have r: "reader_ok (advance 2 r)" "reader_ok (advance 4 r)"
    using assms(1,4) by (simp_all add: reader_ok_advance Length_unread attr_enc_def)
  have u: "ReadUInt16 r = (Some (attr_type a), advance 2 r)" "ReadUInt16 (advance 2 r) = (Some (attr_length a), advance 4 r)"
    using assms(1,4) r by (simp_all add: reader_simps attr_enc_def be_load_be_bytes)
  have "StunAttribute_Read (transaction_id m) b (advance 4 r) =
      Some (Some a, advance (length (attr_enc (transaction_id m) a)) r)"
    using StunAttribute_Read_ok [OF r(2) assms(2) _ b, of rest] assms(2,4)
    by (simp add: length_attr_enc) (simp add: attr_enc_def)
  moreover have "0 < Length r" using assms(1,4) by (simp add: Length_unread attr_enc_def)
  ultimately show ?thesis
    using CreateAttribute_allowed [OF assms(3)] u b
    by (subst read_attrs.simps) (simp add: attr_type_int_def)
qed

lemma read_attrs_ok:
  assumes "reader_ok r" "\<forall>a \<in> set as. attr_ok (transaction_id m) a \<and> attr_allowed (msg_kind m) a"
    and "unread r = concat (map (attr_enc (transaction_id m)) as)"
  shows "read_attrs 0 m r = Some (True, m\<lparr>attrs := attrs m @ as\<rparr>, advance (length (unread r)) r)"
  using assms
proof (induction as arbitrary: m r)
  case Nil
  then have "Length r = 0" by (simp add: Length_unread)
  then show ?case using Nil.prems by (subst read_attrs.simps) simp
next
  case (Cons a as)
  let ?r = "advance (length (attr_enc (transaction_id m) a)) r" and ?m = "m\<lparr>attrs := attrs m @ [a]\<rparr>"
  have "read_attrs 0 m r = read_attrs 0 ?m ?r"
    using Cons.prems by (intro read_attrs_step) simp_all
  moreover have "reader_ok ?r" using Cons.prems by (simp add: reader_ok_advance Length_unread)
  ultimately show ?case using Cons.IH [of ?r ?m] Cons.prems by simp
qed

text \<open>What \<open>Read\<close> needs beyond that: the marker bits of the header tell the two header formats apart.\<close>

definition msg_readable :: "StunMessage \<Rightarrow> bool" where
  "msg_readable m \<longleftrightarrow> msg_ok m \<and> (\<forall>a \<in> set (attrs m). attr_allowed (msg_kind m) a) \<and>
     \<not> bit (msg_type m) 15 \<and> stun_magic_cookie m = kStunMagicCookie \<and>
     ReduceTransactionId (transaction_id m) = Some (reduced_transaction_id m) \<and>
     (length (transaction_id m) = 16 \<longrightarrow> take 4 (transaction_id m) \<noteq> be_bytes 4 kStunMagicCookie)"

lemma and_0x8000: "(t :: u16) AND 0x8000 = 0 \<longleftrightarrow> \<not> bit t 15"
proof -
  have "bit (2 ^ 15 :: u16) n \<longleftrightarrow> n = 15" for n unfolding bit_exp_iff by auto
  then have "bit (t AND 2 ^ 15) n \<longleftrightarrow> n = 15 \<and> bit t 15" for n by (auto simp: bit_and_iff)
  then have "t AND 2 ^ 15 = 0 \<longleftrightarrow> \<not> bit t 15" by (metis bit_0_eq bot_apply bot_bool_def bit_word_eqI)
  then show ?thesis by simp
qed

lemma cookie_load:
  "length bs = 4 \<Longrightarrow> NetworkToHost32 (obj_load bs) = kStunMagicCookie \<longleftrightarrow> bs = be_bytes 4 kStunMagicCookie"
  using be_bytes_be_load [of bs, where 'a = 32] be_load_be_bytes [of 4 kStunMagicCookie]
  by (auto simp: NetworkToHost_wire)

lemma StunMessage_Read_ok:
  assumes "msg_readable m" "msg_kind m0 = msg_kind m" "stun_magic_cookie m0 = kStunMagicCookie"
    and "reader_ok r" "unread r = msg_wire m"
  shows "StunMessage_Read m0 r = Some (True, m, advance (length (msg_wire m)) r)"
proof -
  let ?tid = "transaction_id m" and ?as = "concat (map (attr_enc (transaction_id m)) (attrs m))"
  let ?m = "m\<lparr>attrs := []\<rparr>"
  have ok: "msg_ok m" "length ?tid = 12 \<or> length ?tid = 16"
    using assms(1) by (simp_all add: msg_readable_def msg_ok_def valid_id_length)
  have len: "length ?as = unat (msg_length m)" "length (msg_wire m) = 20 + unat (msg_length m)"
    using ok length_attrs_enc [of "attrs m" ?tid] length_msg_head [of m "msg_length m"]
    by (simp_all add: msg_ok_def msg_wire_def valid_id_length)
  have r: "reader_ok (advance n r)" if "n \<le> 20" for n
    using that assms(4,5) len(2) by (simp add: reader_ok_advance Length_unread)
  have as: "unread (advance 20 r) = ?as" using assms(5) length_msg_head [of m] ok by (auto simp: msg_wire_def valid_id_length)
  have "read_attrs 0 ?m (advance 20 r) = Some (True, m, advance (length (msg_wire m)) r)"
    using read_attrs_ok [of "advance 20 r" "attrs m" ?m] assms(1) r as len ok by (simp add: msg_readable_def msg_ok_def)
  moreover have "StunMessage_Read m0 r = read_attrs 0 ?m (advance 20 r)"
  proof -
    define c where "c = (if length ?tid = 16 then take 4 ?tid else be_bytes 4 kStunMagicCookie)"
    define t where "t = (if length ?tid = 16 then drop 4 ?tid else ?tid)"
    have ct: "length c = 4" "length t = 12" using ok(2) by (auto simp: c_def t_def)
    have w: "unread r = be_bytes 2 (msg_type m) @ be_bytes 2 (msg_length m) @ c @ t @ ?as"
      using assms(1,5) by (simp add: msg_wire_def msg_head_def c_def t_def msg_readable_def)
    have u: "ReadUInt16 r = (Some (msg_type m), advance 2 r)"
      "ReadUInt16 (advance 2 r) = (Some (msg_length m), advance 4 r)"
      "ReadString 4 (advance 4 r) = (Some c, advance 8 r)" "ReadString 12 (advance 8 r) = (Some t, advance 20 r)"
      using w ct assms(4) r by (simp_all add: reader_simps be_load_be_bytes)
    have tid: "(if NetworkToHost32 (obj_load c) \<noteq> kStunMagicCookie then c @ t else t) = ?tid"
      using cookie_load [OF ct(1)] assms(1) by (auto simp: c_def t_def msg_readable_def)
    have m: "m0\<lparr>msg_type := msg_type m, msg_length := msg_length m, transaction_id := ?tid,
        reduced_transaction_id := reduced_transaction_id m, attrs := []\<rparr> = ?m"
      using assms(1-3) by (cases m; cases m0) (simp add: msg_readable_def)
    have "Length (advance 20 r) = unat (msg_length m)"
      using Length_unread [OF assms(4)] assms(5) len(2) by simp
    moreover have "msg_type m AND 0x8000 = 0" "IsValidTransactionId ?tid"
      "ReduceTransactionId ?tid = Some (reduced_transaction_id m)"
      using assms(1) ok(2) by (simp_all add: msg_readable_def and_0x8000 valid_id_length)
    ultimately show ?thesis
      using u tid m by (simp add: StunMessage_Read_def Let_def stun_constants)
  qed
  ultimately show ?thesis by simp
qed

section \<open>Reading any bytes\<close>

definition read_result :: "StunMessage \<Rightarrow> ByteBufferReader \<Rightarrow> (bool \<times> StunMessage \<times> ByteBufferReader) option \<Rightarrow> bool" where
  "read_result m r res \<longleftrightarrow>
     (\<exists>ok m' r'. res = Some (ok, m', r') \<and> advanced r r' \<and> msg_length m' = msg_length m \<and>
       transaction_id m' = transaction_id m \<and> (ok \<longrightarrow> Length r' = 0))"

lemma read_result_fail: "advanced r r' \<Longrightarrow> read_result m r (Some (False, m, r'))"
  by (auto simp: read_result_def)

lemma read_result_trans:
  "advanced r r1 \<Longrightarrow> read_result m1 r1 res \<Longrightarrow> msg_length m1 = msg_length m \<Longrightarrow> transaction_id m1 = transaction_id m \<Longrightarrow>
     read_result m r res"
  unfolding read_result_def using advanced_trans by metis

lemma read_attrs_total: "read_result m r (read_attrs 0 m r)"
proof (induction "Length r" arbitrary: m r rule: less_induct)
  case less
  show ?case
  proof (cases "Length r = 0")
    case True
    then show ?thesis by (subst read_attrs.simps) (auto simp: read_result_def)
  next
    case False
    obtain ty r1 where 1: "ReadUInt16 r = (ty, r1)" by fastforce
    obtain len r2 where 2: "ReadUInt16 r1 = (len, r2)" by fastforce
    have a: "advanced r r1" "advanced r r2" using 1 2 advanced_facts advanced_trans by meson+
    show ?thesis
    proof (cases "ty = None \<or> len = None")
      case True
      then show ?thesis using False 1 2 a by (subst read_attrs.simps) (auto simp: read_result_fail split: option.splits)
    next
      case s: False
      then have shrink: "Length r2 < Length r"
        using 1 2 buffer_shrinks(1) by (metis less_trans option.exhaust)
      have step: "read_result m r (read_attrs 0 m1 r3)"
        if "advanced r2 r3" "msg_length m1 = msg_length m" "transaction_id m1 = transaction_id m" for m1 r3
        using read_result_trans [OF advanced_trans [OF a(2) that(1)] less that(2,3)] advanced_Length [OF that(1)] shrink
        by simp
      obtain ty' len' where tl: "ty = Some ty'" "len = Some len'" using s by auto
      show ?thesis
      proof (cases "CreateAttribute (msg_kind m) (uint ty') len'")
        case None
        let ?len = "if unat len' mod 4 \<noteq> 0 then len' + of_nat (4 - unat len' mod 4) else len'"
        obtain ok r3 where 3: "Consume (unat ?len) r2 = (ok, r3)" by fastforce
        then have "advanced r2 r3" using advanced_Consume [of r2 "unat ?len"] by simp
        then show ?thesis
          using False 1 2 tl None 3 step read_result_fail [OF advanced_trans [OF a(2)]]
          by (subst read_attrs.simps) (cases ok; auto simp: Let_def)
      next
        case (Some at)
        obtain x r3 where 3: "StunAttribute_Read (transaction_id m) at r2 = Some (x, r3)" "advanced r2 r3"
          using StunAttribute_Read_total by blast
        then show ?thesis
          using False 1 2 tl Some step read_result_fail [OF advanced_trans [OF a(2)]]
          by (subst read_attrs.simps) (cases x; auto)
      qed
    qed
  qed
qed

section \<open>The length field\<close>

definition msg_counted :: "StunMessage \<Rightarrow> bool" where
  "msg_counted m \<longleftrightarrow> msg_length m = of_nat (attrs_room (attrs m))"

lemma msg_ok_counted: "msg_ok m \<Longrightarrow> msg_counted m"
  by (metis msg_counted_def msg_ok_def of_nat_unat ucast_id)

lemma attr_length_SetOwner [simp]: "attr_length (SetOwner b a) = attr_length a"
  by (simp add: SetOwner_def split: StunAttributeBody.split)

lemma take_last_room:
  "take_last ty as = Some (a, bs) \<Longrightarrow> attrs_room as = 4 + pad4 (unat (attr_length a)) + attrs_room bs"
  by (induction as arbitrary: bs) (auto split: option.splits if_splits)

lemma take_last_none: "take_last ty as = None \<Longrightarrow> \<forall>y \<in> set as. attr_type_int y \<noteq> ty"
  by (induction as) (auto split: option.splits if_splits)

lemma take_last_split:
  "take_last ty as = Some (a, bs) \<Longrightarrow>
     \<exists>xs ys. as = xs @ a # ys \<and> bs = xs @ ys \<and> attr_type_int a = ty \<and> (\<forall>y \<in> set ys. attr_type_int y \<noteq> ty)"
proof (induction as arbitrary: bs)
  case (Cons b as)
  show ?case
  proof (cases "take_last ty as")
    case None
    then have "b = a" "bs = as" "attr_type_int a = ty" using Cons.prems by (auto split: if_splits)
    then show ?thesis using take_last_none [OF None] by (intro exI [of _ "[]"] exI [of _ as]) simp
  next
    case (Some p)
    then obtain cs where "take_last ty as = Some (a, cs)" "bs = b # cs" using Cons.prems by (cases p) auto
    then show ?thesis using Cons.IH [of cs] by (metis append_Cons)
  qed
qed simp

section \<open>The search for the integrity attribute\<close>

lemma find_integrity_step:
  assumes "pos + 4 \<le> length data" "GetBE16 data pos = Some ty'" "GetBE16 data (pos + 2) = Some len"
  shows "find_integrity ty n data pos =
    (if uint ty' = ty then (if unat len \<noteq> n \<or> pos + 4 + unat len > length data then Some None else Some (Some pos))
     else find_integrity ty n data (pos + (4 + pad4 (unat len))))"
  using assms by (subst find_integrity.simps) (simp add: pad4_def Let_def ac_simps)

lemma find_integrity_total:
  "find_integrity ty n data pos = Some None \<or>
   (\<exists>p. find_integrity ty n data pos = Some (Some p) \<and> pos \<le> p \<and> p + 4 + n \<le> length data)"
proof (induction "length data - pos" arbitrary: pos rule: less_induct)
  case less
  show ?case
  proof (cases "pos + 4 \<le> length data")
    case True
    let ?ty = "be_load (take 2 (drop pos data)) :: u16" and ?len = "be_load (take 2 (drop (pos + 2) data)) :: u16"
    define q where "q = pos + (4 + pad4 (unat ?len))"
    have "find_integrity ty n data pos =
        (if uint ?ty = ty then (if unat ?len \<noteq> n \<or> pos + 4 + unat ?len > length data then Some None else Some (Some pos))
         else find_integrity ty n data q)"
      unfolding q_def using True by (intro find_integrity_step) (simp_all add: GetBE_eq)
    moreover have "length data - q < length data - pos" "pos \<le> q" using True by (simp_all add: q_def)
    ultimately show ?thesis using less [of q] by (auto split: if_splits)
  next
    case False
    then show ?thesis by (subst find_integrity.simps) simp
  qed
qed

lemma attr_enc_header:
  "GetBE16 (pre @ attr_enc tid a @ suf) (length pre) = Some (attr_type a)"
  "GetBE16 (pre @ attr_enc tid a @ suf) (length pre + 2) = Some (attr_length a)"
  by (simp_all add: GetBE_eq be_load_be_bytes attr_enc_def)

lemma find_integrity_skip:
  assumes "data = pre @ attr_enc tid a @ suf" "attr_ok tid a" "attr_type_int a \<noteq> ty"
  shows "find_integrity ty n data (length pre) = find_integrity ty n data (length pre + length (attr_enc tid a))"
proof -
  have "length pre + 4 \<le> length data" using assms(1) length_attr_enc [OF assms(2)] by simp
  then show ?thesis
    using find_integrity_step [OF _ attr_enc_header [of pre tid a suf], of ty n] assms(3)
    by (simp add: assms(1) [symmetric] length_attr_enc [OF assms(2)] attr_type_int_def)
qed

lemma find_integrity_skips:
  assumes "\<forall>a \<in> set as. attr_ok tid a \<and> attr_type_int a \<noteq> ty" "data = pre @ concat (map (attr_enc tid) as) @ suf"
  shows "find_integrity ty n data (length pre) =
    find_integrity ty n data (length (pre @ concat (map (attr_enc tid) as)))"
  using assms
proof (induction as arbitrary: pre)
  case (Cons a as)
  have "find_integrity ty n data (length pre) = find_integrity ty n data (length (pre @ attr_enc tid a))"
    using find_integrity_skip [of data pre tid a "concat (map (attr_enc tid) as) @ suf" ty n] Cons.prems by simp
  also have "\<dots> = find_integrity ty n data (length ((pre @ attr_enc tid a) @ concat (map (attr_enc tid) as)))"
    using Cons.prems by (intro Cons.IH) simp_all
  finally show ?case by simp
qed simp

lemma find_integrity_hit:
  assumes "data = pre @ attr_enc tid a @ suf" "attr_ok tid a" "attr_type_int a = ty" "unat (attr_length a) = n"
  shows "find_integrity ty n data (length pre) = Some (Some (length pre))"
proof -
  have "length pre + 4 + unat (attr_length a) \<le> length data"
    using assms(1) length_attr_enc [OF assms(2)] pad4_ge [of "unat (attr_length a)"] by simp
  then show ?thesis
    using find_integrity_step [OF _ attr_enc_header [of pre tid a suf], of ty n] assms(3,4)
    by (simp add: assms(1) [symmetric] attr_type_int_def)
qed

section \<open>The first attribute of a type\<close>

text \<open>
  An attribute on the wire, whatever its type: type, length, value and the padding to a multiple of four.
  \<open>first_attribute ty data pre v\<close>: behind the header come the attributes \<open>pre\<close>, none of type \<open>ty\<close>, and then one of
  type \<open>ty\<close> with the value \<open>v\<close>.
\<close>

definition tlv_bytes :: "u16 \<times> bytes \<times> bytes \<Rightarrow> bytes" where
  "tlv_bytes a = (case a of (ty, v, pad) \<Rightarrow> be_bytes 2 ty @ be_bytes 2 (of_nat (length v) :: u16) @ v @ pad)"

definition tlv_ok :: "u16 \<times> bytes \<times> bytes \<Rightarrow> bool" where
  "tlv_ok a \<longleftrightarrow> (case a of (ty, v, pad) \<Rightarrow> length v < 2 ^ 16 \<and> length pad = pad4 (length v) - length v)"

definition attributes_at :: "nat \<Rightarrow> u16 \<Rightarrow> bytes \<Rightarrow> (u16 \<times> bytes \<times> bytes) list \<Rightarrow> bytes \<Rightarrow> bool" where
  "attributes_at pos ty data pre v \<longleftrightarrow> (\<forall>a \<in> set pre. tlv_ok a \<and> fst a \<noteq> ty) \<and>
     (\<exists>rest. drop pos data = concat (map tlv_bytes pre) @ be_bytes 2 ty @ be_bytes 2 (of_nat (length v) :: u16) @ v @ rest)"

definition first_attribute :: "u16 \<Rightarrow> bytes \<Rightarrow> (u16 \<times> bytes \<times> bytes) list \<Rightarrow> bytes \<Rightarrow> bool" where
  "first_attribute ty data pre v \<longleftrightarrow> attributes_at 20 ty data pre v"

lemma length_tlv_bytes: "tlv_ok (t, v, pad) \<Longrightarrow> length (tlv_bytes (t, v, pad)) = 4 + pad4 (length v)"
  using pad4_ge [of "length v"] by (simp add: tlv_ok_def tlv_bytes_def)

lemma tlv_header:
  assumes "drop pos data = be_bytes 2 (t :: u16) @ be_bytes 2 (l :: u16) @ rest"
  shows "pos + 4 \<le> length data" "GetBE16 data pos = Some t" "GetBE16 data (pos + 2) = Some l"
proof -
  have "length (drop pos data) = 4 + length rest" using assms by simp
  then show p: "pos + 4 \<le> length data" by simp
  have "drop (pos + 2) data = be_bytes 2 l @ rest"
    using arg_cong [OF assms, of "drop 2"] by (simp add: add.commute)
  then show "GetBE16 data pos = Some t" "GetBE16 data (pos + 2) = Some l"
    using p assms by (simp_all add: GetBE_eq be_load_be_bytes)
qed

lemma find_integrity_tlv_hit:
  assumes "drop pos data = be_bytes 2 (t :: u16) @ be_bytes 2 (of_nat (length v) :: u16) @ v @ rest" "length v < 2 ^ 16"
  shows "find_integrity (uint t) (length v) data pos = Some (Some pos)"
proof -
  have "length (drop pos data) = 4 + length v + length rest" using assms(1) by simp
  then have "pos + 4 + length v \<le> length data" by simp
  then show ?thesis
    using find_integrity_step [OF tlv_header [OF assms(1)], of "uint t" "length v"] assms(2)
    by (simp add: unat_of_nat take_bit_nat_eq_self)
qed

lemma find_integrity_tlv_skip:
  assumes "drop pos data = tlv_bytes a @ rest" "tlv_ok a" "fst a \<noteq> t"
  shows "find_integrity (uint t) n data pos = find_integrity (uint t) n data (pos + length (tlv_bytes a))"
proof -
  obtain ty v pad where a: "a = (ty, v, pad)" by (cases a)
  have d: "drop pos data = be_bytes 2 ty @ be_bytes 2 (of_nat (length v) :: u16) @ v @ pad @ rest"
    using assms(1) by (simp add: a tlv_bytes_def)
  have "unat (of_nat (length v) :: u16) = length v" "uint ty \<noteq> uint t"
    using assms(2,3) by (simp_all add: a tlv_ok_def unat_of_nat take_bit_nat_eq_self word_uint_eq_iff)
  then show ?thesis
    using find_integrity_step [OF tlv_header [OF d], of "uint t" n] assms(2)
    by (simp add: a length_tlv_bytes)
qed

lemma attributes_at_Nil:
  "attributes_at pos t data [] v \<longleftrightarrow>
     (\<exists>rest. drop pos data = be_bytes 2 t @ be_bytes 2 (of_nat (length v) :: u16) @ v @ rest)"
  by (simp add: attributes_at_def)

lemma attributes_at_Cons:
  "attributes_at pos t data (a # pre) v \<longleftrightarrow> tlv_ok a \<and> fst a \<noteq> t \<and>
     (\<exists>r. drop pos data = tlv_bytes a @ r) \<and> attributes_at (pos + length (tlv_bytes a)) t data pre v"
proof -
  have "drop (pos + length (tlv_bytes a)) data = r" if "drop pos data = tlv_bytes a @ r" for r
    using arg_cong [OF that, of "drop (length (tlv_bytes a))"] by (simp add: add.commute)
  then show ?thesis by (auto simp: attributes_at_def)
qed

lemma find_integrity_attributes:
  assumes "length v < 2 ^ 16" "attributes_at pos t data pre v"
  shows "find_integrity (uint t) (length v) data pos = Some (Some (pos + length (concat (map tlv_bytes pre))))"
  using assms(2)
proof (induction pre arbitrary: pos)
  case Nil
  then show ?case using find_integrity_tlv_hit [OF _ assms(1)] by (auto simp: attributes_at_Nil)
next
  case (Cons a pre)
  then show ?case
    using find_integrity_tlv_skip [of pos data a _ t "length v"] by (auto simp: attributes_at_Cons add.assoc)
qed

text \<open>Four bytes of a header, split.\<close>

lemma header_split:
  assumes "pos + 4 \<le> length data"
  obtains t l :: u16 where "drop pos data = be_bytes 2 t @ be_bytes 2 l @ drop (pos + 4) data"
proof
  let ?t = "be_load (take 2 (drop pos data)) :: u16" and ?l = "be_load (take 2 (drop (pos + 2) data)) :: u16"
  have "be_bytes 2 ?t = take 2 (drop pos data)" "be_bytes 2 ?l = take 2 (drop (pos + 2) data)"
    using assms be_bytes_be_load [of "take 2 (drop pos data)", where 'a = 16]
      be_bytes_be_load [of "take 2 (drop (pos + 2) data)", where 'a = 16] by simp_all
  moreover have "drop pos data = take 2 (drop pos data) @ take 2 (drop (pos + 2) data) @ drop (pos + 4) data"
    by (metis (no_types, opaque_lifting) append_take_drop_id drop_drop add.commute add.left_commute numeral_Bit0)
  ultimately show "drop pos data = be_bytes 2 ?t @ be_bytes 2 ?l @ drop (pos + 4) data" by simp
qed

lemma find_integrity_found:
  assumes "find_integrity (uint t) n data pos = Some (Some p)"
  shows "\<exists>pre. attributes_at pos t data pre (take n (drop (p + 4) data)) \<and> p = pos + length (concat (map tlv_bytes pre))"
  using assms
proof (induction "length data - pos" arbitrary: pos rule: less_induct)
  case less
  have le: "pos + 4 \<le> length data"
    using less.prems by (subst (asm) find_integrity.simps) (auto split: if_splits)
  obtain ty l :: u16 where d: "drop pos data = be_bytes 2 ty @ be_bytes 2 l @ drop (pos + 4) data"
    using le by (rule header_split)
  note step = find_integrity_step [OF tlv_header [OF d], of "uint t" n]
  show ?case
  proof (cases "ty = t")
    case True
    then have h: "unat l = n" "pos + 4 + n \<le> length data" "p = pos"
      using step less.prems by (auto split: if_splits)
    moreover have "drop (pos + 4) data = take n (drop (pos + 4) data) @ drop n (drop (pos + 4) data)"
      by (rule append_take_drop_id [symmetric])
    ultimately have "attributes_at pos t data [] (take n (drop (p + 4) data))"
      unfolding attributes_at_Nil using d True by (intro exI [of _ "drop n (drop (pos + 4) data)"]) auto
    then show ?thesis using h(3) by (intro exI [of _ "[]"]) simp
  next
    case False
    define q where "q = pos + (4 + pad4 (unat l))"
    let ?v = "take (unat l) (drop (pos + 4) data)" and ?pad = "take (pad4 (unat l) - unat l) (drop (pos + 4 + unat l) data)"
    have f: "find_integrity (uint t) n data q = Some (Some p)"
      using step less.prems False by (simp add: q_def word_uint_eq_iff)
    then have "q \<le> length data" using find_integrity_total [of "uint t" n data q] by auto
    then have v: "length ?v = unat l" "length ?pad = pad4 (unat l) - unat l" using pad4_ge [of "unat l"] by (simp_all add: q_def)
    have "tlv_ok (ty, ?v, ?pad)" using v unsigned_less [where ?'a = nat, of l] by (simp add: tlv_ok_def)
    moreover have "drop pos data = tlv_bytes (ty, ?v, ?pad) @ drop q data"
    proof -
      have "drop (pos + 4) data = ?v @ drop (pos + 4 + unat l) data"
        by (metis append_take_drop_id drop_drop add.commute)
      moreover have "drop (pos + 4 + unat l) data = ?pad @ drop q data"
        using append_take_drop_id [of "pad4 (unat l) - unat l" "drop (pos + 4 + unat l) data"] pad4_ge [of "unat l"]
        by (simp add: q_def ac_simps)
      ultimately show ?thesis using d v(1) by (simp add: tlv_bytes_def)
    qed
    moreover have "length (tlv_bytes (ty, ?v, ?pad)) = 4 + pad4 (unat l)"
      using length_tlv_bytes [OF \<open>tlv_ok (ty, ?v, ?pad)\<close>] v by simp
    moreover have "length data - q < length data - pos" using le by (simp add: q_def)
    moreover obtain pre where "attributes_at q t data pre (take n (drop (p + 4) data))" "p = q + length (concat (map tlv_bytes pre))"
      using less.hyps [OF \<open>length data - q < length data - pos\<close> f] by blast
    ultimately show ?thesis
      using False by (intro exI [of _ "(ty, ?v, ?pad) # pre"]) (auto simp: attributes_at_Cons q_def)
  qed
qed

lemma attribute_value:
  assumes "first_attribute t data pre v"
  shows "take (length v) (drop (20 + length (concat (map tlv_bytes pre)) + 4) data) = v"
proof -
  let ?k = "length (concat (map tlv_bytes pre))"
  obtain rest where "drop 20 data = concat (map tlv_bytes pre) @ be_bytes 2 t @ be_bytes 2 (of_nat (length v) :: u16) @ v @ rest"
    using assms by (auto simp: first_attribute_def attributes_at_def)
  then have "drop (?k + 4) (drop 20 data) = v @ rest" by simp
  then show ?thesis by (simp add: ac_simps)
qed

lemma find_integrity_iff:
  assumes "n < 2 ^ 16"
  shows "(\<exists>p. find_integrity (uint t) n data 20 = Some (Some p) \<and> P p (take n (drop (p + 4) data))) \<longleftrightarrow>
    (\<exists>pre v. first_attribute t data pre v \<and> length v = n \<and> P (20 + length (concat (map tlv_bytes pre))) v)"
proof
  assume "\<exists>p. find_integrity (uint t) n data 20 = Some (Some p) \<and> P p (take n (drop (p + 4) data))"
  then obtain p where p: "find_integrity (uint t) n data 20 = Some (Some p)" "P p (take n (drop (p + 4) data))" by blast
  moreover have "length (take n (drop (p + 4) data)) = n" using find_integrity_total [of "uint t" n data 20] p(1) by auto
  ultimately show "\<exists>pre v. first_attribute t data pre v \<and> length v = n \<and> P (20 + length (concat (map tlv_bytes pre))) v"
    using find_integrity_found [OF p(1)] unfolding first_attribute_def by metis
next
  assume "\<exists>pre v. first_attribute t data pre v \<and> length v = n \<and> P (20 + length (concat (map tlv_bytes pre))) v"
  then obtain pre v where v: "first_attribute t data pre v" "length v = n" "P (20 + length (concat (map tlv_bytes pre))) v" by blast
  then have f: "find_integrity (uint t) n data 20 = Some (Some (20 + length (concat (map tlv_bytes pre))))"
    using find_integrity_attributes [of v 20 t data pre] assms by (simp add: first_attribute_def)
  with attribute_value [of t data pre v] v
  show "\<exists>p. find_integrity (uint t) n data 20 = Some (Some p) \<and> P p (take n (drop (p + 4) data))" by metis
qed

text \<open>There is one first attribute at most.\<close>

lemma first_attribute_unique:
  assumes "first_attribute t data pre v" "first_attribute t data pre' v'" "length v = length v'" "length v < 2 ^ 16"
  shows "v = v'" "length (concat (map tlv_bytes pre)) = length (concat (map tlv_bytes pre'))"
proof -
  have "find_integrity (uint t) (length v) data 20 = Some (Some (20 + length (concat (map tlv_bytes pre))))"
    "find_integrity (uint t) (length v) data 20 = Some (Some (20 + length (concat (map tlv_bytes pre'))))"
    using find_integrity_attributes [of v 20 t data pre] find_integrity_attributes [of v' 20 t data pre'] assms
    by (simp_all add: first_attribute_def)
  then show "length (concat (map tlv_bytes pre)) = length (concat (map tlv_bytes pre'))" by simp
  then show "v = v'" using attribute_value [OF assms(1)] attribute_value [OF assms(2)] assms(3) by simp
qed

section \<open>Adding attributes\<close>

lemma AddAttribute_eq:
  "DesignatedExpertRange (attr_type_int a) \<or> value_type a = GetAttributeValueType (msg_kind m) (attr_type_int a) \<Longrightarrow>
     AddAttribute a m = Some (m\<lparr>msg_length := msg_length m + attr_room a, attrs := attrs m @ [SetOwner True a]\<rparr>)"
  by (auto simp: AddAttribute_def Let_def attr_room_def)

lemma unat_add_room:
  "unat l = n \<Longrightarrow> n + k < 2 ^ 16 \<Longrightarrow> unat (l + of_nat k :: u16) = n + k"
  by (auto simp: unat_word_ariths unat_of_nat)

lemma msg_ok_add:
  assumes "msg_ok m" "attr_ok (transaction_id m) a" "attrs_room (attrs m) + (4 + pad4 (unat (attr_length a))) < 2 ^ 16"
  shows "msg_ok (m\<lparr>msg_length := msg_length m + attr_room a, attrs := attrs m @ [a]\<rparr>)"
  using assms unat_add_room [of "msg_length m" "attrs_room (attrs m)" "4 + pad4 (unat (attr_length a))"]
  by (auto simp: msg_ok_def attr_room_eq simp del: of_nat_add)

lemma attrs_room_mod: "attrs_room as mod 4 = 0"
  by (induction as) (simp_all add: mod_add_eq [symmetric])

lemma msg_wire_length: "msg_ok m \<Longrightarrow> length (msg_wire m) = 20 + attrs_room (attrs m)"
  by (simp add: msg_ok_def msg_wire_def length_msg_head length_attrs_enc)

lemma msg_head_set_length:
  assumes "IsValidTransactionId (transaction_id m)"
  shows "SetBE16 (msg_head m len @ bs) 2 len' = Some (msg_head m len' @ bs)"
    and "GetBE16 (msg_head m len @ bs) 2 = Some len"
  using assms by (auto simp: SetBE16_def store_def obj_bytes_htobe GetBE_eq msg_head_def be_load_be_bytes valid_id_length)

lemma msg_head_cong:
  "msg_type m = msg_type m' \<Longrightarrow> transaction_id m = transaction_id m' \<Longrightarrow> stun_magic_cookie m = stun_magic_cookie m' \<Longrightarrow>
     msg_head m = msg_head m'"
  by (simp add: msg_head_def [abs_def])

section \<open>Integrity of a written message\<close>

text \<open>The value RFC 5389 asks for: the keyed hash of everything before the attribute, under a length field that
  ends with the attribute.\<close>

definition integrity_value :: "bytes \<Rightarrow> StunMessage \<Rightarrow> nat \<Rightarrow> StunAttribute list \<Rightarrow> bytes" where
  "integrity_value key m n as =
     take n (rfc2104_hmac sha1_hash key
       (msg_head m (of_nat (4 + (attrs_room as + n))) @ concat (map (attr_enc (transaction_id m)) as)))"

lemma ValidateMessageIntegrity_ok:
  assumes mem: "length (ctx_buffer sha1_mem) = 64" and ok: "msg_ok m" and as: "attrs m = as @ mi # post"
    and first: "\<forall>a \<in> set as. attr_type_int a \<noteq> ty" and mi: "attr_type_int mi = ty" "n \<le> 20" "n mod 4 = 0"
    and body: "attr_length mi = of_nat n" "attr_body mi = StunByteStringAttribute (Some (integrity_value key m n as))"
  shows "ValidateMessageIntegrityOfType md5_mem sha1_mem ty n (msg_wire m) key = Some True"
proof -
  let ?tid = "transaction_id m" and ?A = "concat (map (attr_enc (transaction_id m)) as)"
  let ?P = "concat (map (attr_enc (transaction_id m)) post)" and ?h = "msg_head m (msg_length m)"
  let ?adj = "of_nat (4 + (attrs_room as + n)) :: u16"
  have tid: "IsValidTransactionId ?tid" and aok: "\<forall>a \<in> set (attrs m). attr_ok ?tid a"
    and room: "unat (msg_length m) = attrs_room (attrs m)"
    using ok by (simp_all add: msg_ok_def)
  have n: "unat (attr_length mi) = n" using body(1) mi(2) by (simp add: unat_of_nat)
  have w: "msg_wire m = (?h @ ?A) @ attr_enc ?tid mi @ ?P" by (simp add: msg_wire_def as)
  have lA: "length ?A = attrs_room as" using aok as by (intro length_attrs_enc) simp
  have lh: "length ?h = 20" using tid by (rule length_msg_head)
  have lmi: "length (attr_enc ?tid mi) = 4 + n" using aok as n mi(3) by (simp add: length_attr_enc)
  have lw: "length (msg_wire m) = 20 + attrs_room (attrs m)" using ok by (rule msg_wire_length)
  have "find_integrity ty n (msg_wire m) 20 = Some (Some (20 + attrs_room as))"
  proof -
    have "find_integrity ty n (msg_wire m) (length ?h) = find_integrity ty n (msg_wire m) (length (?h @ ?A))"
      using aok as first w by (intro find_integrity_skips) simp_all
    also have "\<dots> = Some (Some (length (?h @ ?A)))"
      using aok as mi(1) n by (intro find_integrity_hit [OF w]) simp_all
    finally show ?thesis using lh lA by simp
  qed
  moreover have "?h = msg_head m ?adj" if "\<not> length (msg_wire m) > 20 + attrs_room as + 4 + n"
  proof -
    have "attrs_room (attrs m) = 4 + (attrs_room as + n)" using that lw as n mi(3) by simp
    then show ?thesis using room by (metis of_nat_unat ucast_id)
  qed
  moreover have "SetBE16 (?h @ ?A) 2 ?adj = Some (msg_head m ?adj @ ?A)" using tid by (rule msg_head_set_length)
  moreover have "length (msg_wire m) mod 4 = 0"
    using attrs_room_mod [of "attrs m"] lw by (simp add: mod_add_eq [symmetric])
  moreover have "load (msg_wire m) (20 + attrs_room as + 4) n = Some (integrity_value key m n as)"
  proof -
    have "length (integrity_value key m n as) = n" using mi(2) by (simp add: integrity_value_def length_hmac_sha1)
    then have "attr_enc ?tid mi = (be_bytes 2 (attr_type mi) @ be_bytes 2 (attr_length mi)) @ integrity_value key m n as"
      using mi(3) by (simp add: attr_enc_def body padding_def)
    then show ?thesis using \<open>length (integrity_value key m n as) = n\<close> lh lA by (simp add: load_def w)
  qed
  moreover have "take (20 + attrs_room as) (msg_wire m) = ?h @ ?A" using lh lA by (simp add: w)
  moreover have "length (msg_head m ?adj @ ?A) = 20 + attrs_room as" using length_msg_head [OF tid] lA by simp
  moreover have "GetBE16 (msg_wire m) 2 = Some (msg_length m)" by (simp add: msg_wire_def msg_head_set_length(2) [OF tid])
  moreover have "length (msg_wire m) - (length (msg_wire m) - (20 + attrs_room as + 4 + n)) - 20 = 4 + (attrs_room as + n)"
    using lw as n mi(3) by simp
  ultimately show ?thesis
    using lw room mi(2) ComputeHmac_sha1 [OF mem, of md5_mem key] length_hmac_sha1 [of key]
    by (cases "length (msg_wire m) > 20 + attrs_room as + 4 + n")
      (simp_all add: ValidateMessageIntegrityOfType_def Let_def stun_constants integrity_value_def del: of_nat_add)
qed

lemma new_string_attr:
  assumes "length bs < 2 ^ 16" "0 \<le> ty" "ty < 2 ^ 16"
  shows "attr_ok tid (new_StunByteStringAttribute (word_of_int ty) bs)"
    "attr_length (new_StunByteStringAttribute (word_of_int ty) bs) = of_nat (length bs)"
    "attr_type_int (new_StunByteStringAttribute (word_of_int ty) bs) = ty"
    "attr_body (new_StunByteStringAttribute (word_of_int ty) bs) = StunByteStringAttribute (Some bs)"
    "SetOwner b (new_StunByteStringAttribute (word_of_int ty) bs) = new_StunByteStringAttribute (word_of_int ty) bs"
    "value_type (new_StunByteStringAttribute (word_of_int ty) bs) = kStunAttrValueByteString"
  using assms
  by (simp_all add: new_StunByteStringAttribute_def CopyBytes_def SetBytes_def attr_ok_def attr_type_int_def
      SetOwner_def value_type_def unat_of_nat uint_word_of_int)

lemma CopyBytes_new:
  "CopyBytes bs' (new_StunByteStringAttribute ty bs) = new_StunByteStringAttribute ty bs'"
  by (simp add: CopyBytes_def SetBytes_def new_StunByteStringAttribute_def)

lemma msg_wire_snoc:
  assumes "msg_ok (m\<lparr>msg_length := len, attrs := as @ [a]\<rparr>)"
  shows "msg_wire (m\<lparr>msg_length := len, attrs := as @ [a]\<rparr>) =
      (msg_head m len @ concat (map (attr_enc (transaction_id m)) as)) @ attr_enc (transaction_id m) a"
    and "length (msg_head m len @ concat (map (attr_enc (transaction_id m)) as)) = 20 + attrs_room as"
  using assms length_attrs_enc [of as "transaction_id m"] length_msg_head [of m len]
  by (simp_all add: msg_wire_def msg_head_def msg_ok_def)

lemma AddMessageIntegrity_eq:
  assumes mem: "length (ctx_buffer sha1_mem) = 64" and ok: "msg_ok m" and n: "n \<le> 20" "n mod 4 = 0"
    and ty: "0 \<le> ty" "ty < 2 ^ 16"
      "DesignatedExpertRange ty \<or> GetAttributeValueType (msg_kind m) ty = kStunAttrValueByteString"
    and room: "attrs_room (attrs m) + (4 + n) < 2 ^ 16"
  shows "AddMessageIntegrityOfType md5_mem sha1_mem ty n key m =
    Some (True, m\<lparr>msg_length := msg_length m + of_nat (4 + n),
      attrs := attrs m @ [new_StunByteStringAttribute (word_of_int ty) (integrity_value key m n (attrs m))]\<rparr>)"
proof -
  let ?a = "new_StunByteStringAttribute (word_of_int ty) (replicate n 0x30)"
  let ?m = "m\<lparr>msg_length := msg_length m + of_nat (4 + n), attrs := attrs m @ [?a]\<rparr>"
  have "length (replicate n (0x30 :: u8)) < 2 ^ 16" using n by simp
  note a = new_string_attr [OF this ty(1,2)]
  have l: "unat (attr_length ?a) = n" using a(2) n by (simp add: unat_of_nat)
  have "attr_room ?a = of_nat (4 + n)" by (simp add: attr_room_eq l n(2))
  then have add: "AddAttribute ?a m = Some ?m" and mok: "msg_ok ?m"
    using AddAttribute_eq [of ?a m] msg_ok_add [OF ok a(1)] a ty(3) room l n(2) by auto
  obtain w where w: "StunMessage_Write ?m new_ByteBufferWriter = Some (True, w)" "buf_data w = msg_wire ?m"
    using StunMessage_Write_ok [of ?m new_ByteBufferWriter] mok by (auto simp: msg_ok_def)
  have len: "msg_length m + of_nat (4 + n) = of_nat (4 + (attrs_room (attrs m) + n))"
    using msg_ok_counted [OF ok] by (simp add: msg_counted_def ac_simps)
  have "length (attr_enc (transaction_id m) ?a) = 4 + n" using a(1) l n(2) by (simp add: length_attr_enc)
  then have "take (buf_size w - 4 - n) (buf_data w) =
      msg_head m (of_nat (4 + (attrs_room (attrs m) + n))) @ concat (map (attr_enc (transaction_id m)) (attrs m))"
    using msg_wire_snoc [OF mok] w(2) len by (simp add: buf_size_def del: of_nat_add)
  then show ?thesis
    using n add w(1) l ComputeHmac_sha1 [OF mem, of md5_mem key] length_hmac_sha1 [of key]
    by (simp add: AddMessageIntegrityOfType_def stun_constants Let_def integrity_value_def CopyBytes_new del: of_nat_add)
qed

section \<open>Fingerprint of a written message\<close>

definition fingerprint_attr :: "u32 \<Rightarrow> StunAttribute" where
  "fingerprint_attr c = new_StunUInt32Attribute (word_of_int (attr_value kStunAttrFingerprint)) (c XOR STUN_FINGERPRINT_XOR_VALUE)"

lemma uint32_attr:
  "attr_ok tid (new_StunUInt32Attribute ty v)" "unat (attr_length (new_StunUInt32Attribute ty v)) = 4"
  "SetOwner b (new_StunUInt32Attribute ty v) = new_StunUInt32Attribute ty v"
  "value_type (new_StunUInt32Attribute ty v) = kStunAttrValueUInt32"
  "attr_type (new_StunUInt32Attribute ty v) = ty"
  "(new_StunUInt32Attribute ty v)\<lparr>attr_body := StunUInt32Attribute v'\<rparr> = new_StunUInt32Attribute ty v'"
  "attr_enc tid (new_StunUInt32Attribute ty v) = be_bytes 2 ty @ be_bytes 2 UInt32_SIZE @ be_bytes 4 v"
  by (simp_all add: new_StunUInt32Attribute_def attr_ok_def UInt32_SIZE_def SetOwner_def value_type_def attr_enc_def)

lemma AddFingerprint_eq:
  assumes ok: "msg_ok m" and room: "attrs_room (attrs m) + 8 < 2 ^ 16"
  shows "AddFingerprint g_Crc32 addr m = Some (True, m\<lparr>msg_length := msg_length m + 8, attrs := attrs m @
    [fingerprint_attr (Crc32 g_Crc32 addr
      (msg_head m (msg_length m + 8) @ concat (map (attr_enc (transaction_id m)) (attrs m))))]\<rparr>)"
proof -
  let ?a = "new_StunUInt32Attribute (word_of_int (attr_value kStunAttrFingerprint)) 0"
  let ?m = "m\<lparr>msg_length := msg_length m + 8, attrs := attrs m @ [?a]\<rparr>"
  have "attr_room ?a = 8" by (simp add: attr_room_eq uint32_attr)
  moreover have "value_type ?a = GetAttributeValueType (msg_kind m) (attr_type_int ?a)"
    using value_type_integrity(3) [of "msg_kind m"] by (simp add: uint32_attr attr_type_int_def uint_word_of_int)
  ultimately have add: "AddAttribute ?a m = Some ?m" and mok: "msg_ok ?m"
    using AddAttribute_eq [of ?a m] msg_ok_add [OF ok, of ?a] room by (auto simp: uint32_attr)
  obtain w where w: "StunMessage_Write ?m new_ByteBufferWriter = Some (True, w)" "buf_data w = msg_wire ?m"
    using StunMessage_Write_ok [of ?m new_ByteBufferWriter] mok by (auto simp: msg_ok_def)
  have "take (buf_size w - 4 - 4) (buf_data w) =
      msg_head m (msg_length m + 8) @ concat (map (attr_enc (transaction_id m)) (attrs m))"
    using msg_wire_snoc [OF mok] w(2) by (simp add: buf_size_def uint32_attr)
  then show ?thesis
    using add w(1) by (simp add: AddFingerprint_def stun_constants uint32_attr fingerprint_attr_def)
qed

lemma ValidateFingerprint_ok:
  assumes ok: "msg_ok m" and tid: "length (transaction_id m) = 12" "stun_magic_cookie m = kStunMagicCookie"
    and as: "attrs m = as @ [fingerprint_attr c]"
    and c: "c = Crc32 g_Crc32 addr (msg_head m (msg_length m) @ concat (map (attr_enc (transaction_id m)) as))"
  shows "ValidateFingerprint g_Crc32 addr (msg_wire m) = Some True"
proof -
  let ?p = "msg_head m (msg_length m) @ concat (map (attr_enc (transaction_id m)) as)"
  have m: "m\<lparr>msg_length := msg_length m, attrs := as @ [fingerprint_attr c]\<rparr> = m" using as by simp
  have w: "msg_wire m = ?p @ attr_enc (transaction_id m) (fingerprint_attr c)" and lp: "length ?p = 20 + attrs_room as"
    using msg_wire_snoc [where m = m and len = "msg_length m" and as = as and a = "fingerprint_attr c"] ok unfolding m by simp_all
  have h: "GetBE32 (msg_wire m) 4 = Some kStunMagicCookie"
    using tid by (simp add: msg_wire_def msg_head_def GetBE_eq be_load_be_bytes)
  have le: "length (msg_wire m) = 28 + attrs_room as" using lp by (simp add: w fingerprint_attr_def uint32_attr)
  let ?f = "attr_enc (transaction_id m) (fingerprint_attr c)"
  have "drop (length ?p + k) (?p @ ?f) = drop k ?f" for k by simp
  then have d: "drop (20 + attrs_room as + k) (msg_wire m) = drop k ?f" for k unfolding lp w .
  have "GetBE16 (msg_wire m) (20 + attrs_room as) = Some (word_of_int (attr_value kStunAttrFingerprint))"
    "GetBE16 (msg_wire m) (20 + attrs_room as + 2) = Some UInt32_SIZE"
    "GetBE32 (msg_wire m) (20 + attrs_room as + 4) = Some (c XOR STUN_FINGERPRINT_XOR_VALUE)"
    using d [of 0] d [of 2] d [of 4] le
    by (simp_all add: GetBE_eq fingerprint_attr_def uint32_attr be_load_be_bytes)
  moreover have "take (20 + attrs_room as) (msg_wire m) = ?p" using lp by (simp add: w)
  moreover have "length (msg_wire m) mod 4 = 0" using attrs_room_mod [of as] le by (simp add: mod_add_eq [symmetric])
  ultimately show ?thesis
    using h le c by (simp add: ValidateFingerprint_def stun_constants UInt32_SIZE_def uint_word_of_int xor.assoc)
qed

section \<open>Editing a message\<close>

text \<open>What the callers do to a message between creating and writing it.\<close>

inductive edited :: "StunMessage \<Rightarrow> StunMessage \<Rightarrow> bool" for m0 where
  start: "edited m0 m0"
| set_type: "edited m0 m \<Longrightarrow> edited m0 (SetType ty m)"
| set_cookie: "edited m0 m \<Longrightarrow> edited m0 (SetStunMagicCookie val m)"
| set_id: "edited m0 m \<Longrightarrow> SetTransactionID tid m = Some (ok, m') \<Longrightarrow> edited m0 m'"
| add: "edited m0 m \<Longrightarrow> AddAttribute a m = Some m' \<Longrightarrow> edited m0 m'"
| remove: "edited m0 m \<Longrightarrow> edited m0 (snd (RemoveAttribute ty m))"
| clear: "edited m0 m \<Longrightarrow> edited m0 (ClearAttributes m)"

lemma msg_counted_AddAttribute: "msg_counted m \<Longrightarrow> AddAttribute a m = Some m' \<Longrightarrow> msg_counted m'"
  by (auto simp: AddAttribute_def msg_counted_def attr_room_eq Let_def ac_simps split: if_splits)

lemma msg_counted_RemoveAttribute: "msg_counted m \<Longrightarrow> msg_counted (snd (RemoveAttribute ty m))"
  using take_last_room [of ty "attrs m"]
  by (auto simp: RemoveAttribute_def msg_counted_def attr_room_eq Let_def split: option.splits)

lemma edited_counted: "edited m0 m \<Longrightarrow> msg_counted m0 \<Longrightarrow> msg_counted m \<and> (IsValidTransactionId (transaction_id m0) \<longrightarrow> IsValidTransactionId (transaction_id m))"
proof (induction rule: edited.induct)
  case (set_id m tid ok m')
  then show ?case
    by (auto simp: SetTransactionID_def ReduceTransactionId_def msg_counted_def split: if_splits)
next
  case (add m a m')
  then have "msg_counted m'" "transaction_id m' = transaction_id m"
    using msg_counted_AddAttribute [of m a m'] by (auto simp: AddAttribute_def Let_def split: if_splits)
  then show ?case using add by simp
next
  case (remove m ty)
  then show ?case
    using msg_counted_RemoveAttribute [of m ty] by (auto simp: RemoveAttribute_def Let_def split: option.splits prod.splits)
qed (simp_all add: SetType_def SetStunMagicCookie_def ClearAttributes_def msg_counted_def)

lemma RemoveAttribute_AddAttribute:
  assumes "AddAttribute a m = Some m'"
  shows "RemoveAttribute (attr_type_int a) m' = (Some (SetOwner False a), m)"
proof -
  have t: "attr_type_int (SetOwner True a) = attr_type_int a" "SetOwner False (SetOwner True a) = SetOwner False a"
    by (simp_all add: attr_type_int_def SetOwner_def split: StunAttributeBody.split)
  have last: "take_last ty (as @ [x]) = Some (x, as)" if "attr_type_int x = ty" for x ty as
    using that by (induction as) simp_all
  show ?thesis
    using assms by (auto simp: AddAttribute_def RemoveAttribute_def last t Let_def attr_room_def split: if_splits)
qed

section \<open>The check of the integrity attribute\<close>

text \<open>The keyed bytes for an attribute at \<open>p\<close>: all before it, with the length field of a message that ends with it.\<close>

definition keyed_prefix :: "bytes \<Rightarrow> nat \<Rightarrow> nat \<Rightarrow> bytes" where
  "keyed_prefix data p n = take 2 data @ be_bytes 2 (of_nat (p + 4 + n - 20) :: u16) @ drop 4 (take p data)"

text \<open>A size and a length field that fit each other.\<close>

definition sized_ok :: "bytes \<Rightarrow> bool" where
  "sized_ok data \<longleftrightarrow> length data mod 4 = 0 \<and> 20 \<le> length data \<and>
     unat (be_load (take 2 (drop 2 data)) :: u16) = length data - 20"

lemma ValidateMessageIntegrity_iff:
  assumes mem: "length (ctx_buffer sha1_mem) = 64" and n: "n \<le> 20"
  shows "ValidateMessageIntegrityOfType md5_mem sha1_mem ty n data key = Some
    (sized_ok data \<and>
     (\<exists>p. find_integrity ty n data 20 = Some (Some p) \<and>
       take n (drop (p + 4) data) = take n (rfc2104_hmac sha1_hash key (keyed_prefix data p n))))"
proof (cases "sized_ok data")
  case False
  let ?len = "be_load (take 2 (drop 2 data)) :: u16"
  have "ValidateMessageIntegrityOfType md5_mem sha1_mem ty n data key = Some False"
  proof (cases "length data mod 4 = 0 \<and> 20 \<le> length data")
    case size: True
    have "unat ?len \<noteq> length data - 20"
    proof
      assume "unat ?len = length data - 20"
      then have "sized_ok data" unfolding sized_ok_def by (intro conjI) (use size in \<open>fast+\<close>)
      then show False using False by contradiction
    qed
    then have "length data \<noteq> unat ?len + 20" by linarith
    moreover have "GetBE16 data 2 = Some ?len" using size by (simp add: GetBE_eq)
    ultimately show ?thesis using size n by (simp add: ValidateMessageIntegrityOfType_def Let_def stun_constants)
  qed (use n in \<open>auto simp: ValidateMessageIntegrityOfType_def Let_def stun_constants\<close>)
  then show ?thesis using False by simp
next
  case True
  let ?len = "be_load (take 2 (drop 2 data)) :: u16"
  have s: "length data mod 4 = 0" "20 \<le> length data" "unat ?len = length data - 20"
    using True unfolding sized_ok_def by blast+
  define len where "len = ?len"
  have get: "GetBE16 data 2 = Some len" using s(2) by (simp add: GetBE_eq len_def)
  have eq: "length data = unat len + 20" unfolding len_def using s(2,3) by linarith
  show ?thesis
  proof (cases "find_integrity ty n data 20 = Some None")
    case none: True
    then show ?thesis
      using True s(1,2) eq get n by (simp add: ValidateMessageIntegrityOfType_def Let_def stun_constants)
  next
    case False
    then obtain p where p: "find_integrity ty n data 20 = Some (Some p)" "20 \<le> p" "p + 4 + n \<le> length data"
      using find_integrity_total [of ty n data 20] by blast
    have t: "take p data = take 2 data @ take 2 (drop 2 data) @ drop 4 (take p data)"
    proof -
      have "take 4 (take p data) = take 2 data @ take 2 (drop 2 data)"
        using p(2) take_add [of 2 2 data] by (simp add: min_def)
      then show ?thesis by (metis append_assoc append_take_drop_id)
    qed
    have set: "SetBE16 (take p data) 2 v = Some (keyed_prefix data p n)" if "v = of_nat (p + 4 + n - 20)" for v
      unfolding that using p(2,3) by (simp add: SetBE16_def store_def obj_bytes_htobe min_def keyed_prefix_def)
    have adj: "length data - (length data - (p + 4 + n)) - 20 = p + 4 + n - 20" using p(3) by simp
    have same: "take p data = keyed_prefix data p n" if "\<not> length data > p + 4 + n"
    proof -
      have "p + 4 + n - 20 = unat ?len" using that p(3) s(3) by linarith
      then have "of_nat (p + 4 + n - 20) = ?len" by (simp only: of_nat_unat ucast_id)
      moreover have "be_bytes 2 ?len = take 2 (drop 2 data)" 
        using be_bytes_be_load [of "take 2 (drop 2 data)", where 'a = 16] p(2,3) by simp
      ultimately have "keyed_prefix data p n = take 2 data @ take 2 (drop 2 data) @ drop 4 (take p data)"
        by (simp only: keyed_prefix_def)
      then show ?thesis using t by (rule sym [OF trans [OF _ sym]])
    qed
    have keyed: "length (keyed_prefix data p n) = p" using p by (simp add: keyed_prefix_def)
    show ?thesis
      using True s(1,2) eq get n p keyed same adj ComputeHmac_sha1 [OF mem, of md5_mem key] length_hmac_sha1 [of key]
      by (cases "length data > p + 4 + n")
        (simp_all add: ValidateMessageIntegrityOfType_def Let_def stun_constants load_def set)
  qed
qed

section \<open>Properties\<close>

text \<open>C1. A well-formed message survives the wire: \<open>Write\<close> succeeds, \<open>Read\<close> on the bytes gives the same message,
  attribute by attribute, and consumes them all, and \<open>Clone\<close> returns an equal message.\<close>

theorem stun_message_round_trip:
  assumes "msg_readable m"
  shows "\<exists>w. StunMessage_Write m new_ByteBufferWriter = Some (True, w) \<and>
    StunMessage_Read (new_StunMessage (msg_kind m) reduced) (new_ByteBufferReader (buf_data w)) =
      Some (True, m, advance (length (buf_data w)) (new_ByteBufferReader (buf_data w))) \<and>
    Clone reduced m = Some (Some m)"
proof -
  obtain w where w: "StunMessage_Write m new_ByteBufferWriter = Some (True, w)" "buf_data w = msg_wire m"
    using StunMessage_Write_ok [of m new_ByteBufferWriter] assms by (auto simp: msg_readable_def msg_ok_def)
  have "StunMessage_Read (new_StunMessage (msg_kind m) reduced) (new_ByteBufferReader (buf_data w)) =
      Some (True, m, advance (length (msg_wire m)) (new_ByteBufferReader (buf_data w)))"
    using w(2) by (intro StunMessage_Read_ok assms) (simp_all add: new_StunMessage_def)
  then show ?thesis using w by (simp add: Clone_def)
qed

definition sample_message :: StunMessage where
  "sample_message =
     \<lparr>msg_kind = IceMessageKind, msg_type = 1, msg_length = 40,
      transaction_id = [1, 2, 3, 4, 5, 6, 7, 8, 9, 10, 11, 12],
      reduced_transaction_id = reduce_loop 0 (new_ByteBufferReader [1, 2, 3, 4, 5, 6, 7, 8, 9, 10, 11, 12]),
      stun_magic_cookie = kStunMagicCookie,
      attrs =
        [\<lparr>attr_type = 6, attr_length = 3, attr_body = StunByteStringAttribute (Some [0x61, 0x3A, 0x62])\<rparr>,
         \<lparr>attr_type = 0x20, attr_length = 8,
          attr_body = StunXorAddressAttribute (SocketAddress_nil\<lparr>sa_ip := IPAddress_host 0xC0000201, sa_port := 3478\<rparr>) True\<rparr>,
         \<lparr>attr_type = 9, attr_length = 6, attr_body = StunErrorCodeAttribute 4 1 [0x6E, 0x6F]\<rparr>,
         \<lparr>attr_type = 0x24, attr_length = 4, attr_body = StunUInt32Attribute 7\<rparr>]\<rparr>"

lemma sample_ok: "msg_ok sample_message"
  by (simp add: sample_message_def msg_ok_def IsValidTransactionId_def stun_constants attr_ok_def plain_address_def
      address_size_def SocketAddress_nil_def IPAddress_host_def IPAddress_v4_def ip_ok_def attrs_room_def pad4_def)

lemma sample_readable: "msg_readable sample_message"
  using sample_ok
  by (simp add: msg_readable_def sample_message_def ReduceTransactionId_def IsValidTransactionId_def stun_constants
      attr_allowed_def attr_type_int_def value_type_def value_type_defs)

theorem stun_message_round_trip_witness:
  "\<exists>w. StunMessage_Write sample_message new_ByteBufferWriter = Some (True, w) \<and>
    StunMessage_Read (new_StunMessage IceMessageKind 0) (new_ByteBufferReader (buf_data w)) =
      Some (True, sample_message, advance (length (buf_data w)) (new_ByteBufferReader (buf_data w))) \<and>
    Clone 0 sample_message = Some (Some sample_message)"
proof -
  have "msg_kind sample_message = IceMessageKind" by (simp add: sample_message_def)
  then show ?thesis using stun_message_round_trip [OF sample_readable, of 0] by simp
qed

text \<open>C2. A message that is signed and then fingerprinted, as the senders do it, passes both checks at the
  receiver with the same key: the check of the integrity attribute undoes the longer length field that the
  fingerprint gave the header, and the checksum does not depend on where the receiver holds the bytes.\<close>

theorem stun_integrity_and_fingerprint:
  assumes "length (ctx_buffer sha1_mem) = 64" "msg_ok m" "length (transaction_id m) = 12"
    and "stun_magic_cookie m = kStunMagicCookie" "attrs_room (attrs m) + 32 < 2 ^ 16"
    and "\<forall>a \<in> set (attrs m). attr_type_int a \<noteq> attr_value kStunAttrMessageIntegrity"
    and crc: "\<And>c. length c < 2 ^ 17 \<Longrightarrow> Crc32 g_Crc32 addr c = Crc32 g_Crc32 addr' c"
  shows "\<exists>m1 m2 w. AddMessageIntegrity md5_mem sha1_mem key m = Some (True, m1) \<and>
    AddFingerprint g_Crc32 addr m1 = Some (True, m2) \<and>
    StunMessage_Write m2 new_ByteBufferWriter = Some (True, w) \<and>
    ValidateMessageIntegrity md5_mem' sha1_mem (buf_data w) key = Some True \<and>
    ValidateFingerprint g_Crc32 addr' (buf_data w) = Some True"
proof -
  let ?ty = "attr_value kStunAttrMessageIntegrity"
  let ?mi = "new_StunByteStringAttribute (word_of_int ?ty) (integrity_value key m 20 (attrs m))"
  let ?m1 = "m\<lparr>msg_length := msg_length m + of_nat (4 + 20), attrs := attrs m @ [?mi]\<rparr>"
  have l: "length (integrity_value key m 20 (attrs m)) = 20" by (simp add: integrity_value_def length_hmac_sha1)
  then have "length (integrity_value key m 20 (attrs m)) < 2 ^ 16" by simp
  from new_string_attr [OF this, of ?ty]
  have mi: "attr_ok tid ?mi" "attr_length ?mi = of_nat 20" "attr_type_int ?mi = ?ty"
    "attr_body ?mi = StunByteStringAttribute (Some (integrity_value key m 20 (attrs m)))" for tid
    by (simp_all add: l)
  have 1: "AddMessageIntegrity md5_mem sha1_mem key m = Some (True, ?m1)"
    unfolding AddMessageIntegrity_def stun_constants
    using assms(1,2,5) value_type_integrity by (intro AddMessageIntegrity_eq) simp_all
  have "attr_room ?mi = of_nat (4 + 20)" using mi(2) by (simp add: attr_room_eq)
  then have ok1: "msg_ok ?m1" using msg_ok_add [OF assms(2) mi(1)] assms(5) mi(2) by simp
  define c where "c = Crc32 g_Crc32 addr (msg_head ?m1 (msg_length ?m1 + 8) @
    concat (map (attr_enc (transaction_id ?m1)) (attrs ?m1)))"
  let ?m2 = "?m1\<lparr>msg_length := msg_length ?m1 + 8, attrs := attrs ?m1 @ [fingerprint_attr c]\<rparr>"
  have room: "attrs_room (attrs ?m1) + 8 < 2 ^ 16" using assms(5) mi(2) by simp
  have 2: "AddFingerprint g_Crc32 addr ?m1 = Some (True, ?m2)"
    unfolding c_def using ok1 room by (rule AddFingerprint_eq)
  have f: "attr_ok tid (fingerprint_attr c)" "attr_room (fingerprint_attr c) = 8"
    "unat (attr_length (fingerprint_attr c)) = 4" for tid
    by (simp_all add: fingerprint_attr_def uint32_attr attr_room_eq)
  have ok2: "msg_ok ?m2" using msg_ok_add [OF ok1 f(1)] room f by simp
  obtain w where 3: "StunMessage_Write ?m2 new_ByteBufferWriter = Some (True, w)" "buf_data w = msg_wire ?m2"
    using StunMessage_Write_ok [of ?m2 new_ByteBufferWriter] ok2 by (auto simp: msg_ok_def)
  have 4: "ValidateMessageIntegrity md5_mem' sha1_mem (msg_wire ?m2) key = Some True"
    unfolding ValidateMessageIntegrity_def stun_constants
    using assms(1,6) ok2 mi
    by (intro ValidateMessageIntegrity_ok [where as = "attrs m" and post = "[fingerprint_attr c]" and mi = ?mi])
      (simp_all add: integrity_value_def msg_head_def)
  have "length (msg_head ?m1 (msg_length ?m1 + 8) @ concat (map (attr_enc (transaction_id ?m1)) (attrs ?m1))) < 2 ^ 17"
    using msg_wire_snoc(2) [OF ok2] room by simp
  from crc [OF this]
  have 5: "ValidateFingerprint g_Crc32 addr' (msg_wire ?m2) = Some True"
    using ok2 assms(3,4)
    by (intro ValidateFingerprint_ok [where as = "attrs ?m1" and c = c]) (simp_all add: c_def msg_head_def)
  show ?thesis using 1 2 3 4 5 by metis
qed

theorem stun_integrity_and_fingerprint_witness:
  "\<exists>m1 m2 w. AddMessageIntegrity
      \<lparr>md5_buf = [], md5_bits0 = 0, md5_bits1 = 0, md5_in = replicate 64 1\<rparr>
      \<lparr>ctx_state = [], ctx_count0 = 0, ctx_count1 = 0, ctx_buffer = replicate 64 2\<rparr> [0x70, 0x77] sample_message = Some (True, m1) \<and>
    AddFingerprint None 0 m1 = Some (True, m2) \<and>
    StunMessage_Write m2 new_ByteBufferWriter = Some (True, w) \<and>
    ValidateMessageIntegrity
      \<lparr>md5_buf = [], md5_bits0 = 0, md5_bits1 = 0, md5_in = replicate 64 3\<rparr>
      \<lparr>ctx_state = [], ctx_count0 = 0, ctx_count1 = 0, ctx_buffer = replicate 64 2\<rparr> (buf_data w) [0x70, 0x77] = Some True \<and>
    ValidateFingerprint None 3 (buf_data w) = Some True"
proof -
  have crc: "Crc32 None 0 c = Crc32 None 3 c" if "length c < 2 ^ 17" for c
    using that checksum_sw_eq [of c 0] checksum_sw_eq [of c 3] by (simp add: Crc32_def)
  show ?thesis
    by (rule stun_integrity_and_fingerprint [OF _ sample_ok _ _ _ _ crc])
      (simp_all add: sample_message_def attrs_room_def pad4_def attr_type_int_def)
qed

text \<open>C13. The check of the integrity attribute never reads outside the bytes it is given, whatever they are. It
  answers true exactly when the size, a multiple of four, agrees with the length field and the bytes behind the
  header start with padded attributes of other types followed by an integrity attribute of the right length that
  holds the keyed hash of the bytes before it, under the length that ends with it; and the same for the short
  form of four bytes. No attribute of that type, or a first one of another length, gives false.\<close>

theorem stun_integrity_check:
  assumes "length (ctx_buffer sha1_mem) = 64"
  shows "ValidateMessageIntegrity md5_mem sha1_mem data key = Some (sized_ok data \<and>
      (\<exists>pre mac. first_attribute 0x0008 data pre mac \<and> length mac = 20 \<and>
        mac = rfc2104_hmac sha1_hash key (keyed_prefix data (20 + length (concat (map tlv_bytes pre))) 20))) \<and>
    ValidateMessageIntegrity32 md5_mem sha1_mem data key = Some (sized_ok data \<and>
      (\<exists>pre mac. first_attribute 0xC060 data pre mac \<and> length mac = 4 \<and>
        mac = take 4 (rfc2104_hmac sha1_hash key (keyed_prefix data (20 + length (concat (map tlv_bytes pre))) 4))))"
  using ValidateMessageIntegrity_iff [OF assms, of 20 md5_mem "0x0008" data key]
    ValidateMessageIntegrity_iff [OF assms, of 4 md5_mem "0xC060" data key]
    find_integrity_iff [of 20 "0x0008" data "\<lambda>p v. v = rfc2104_hmac sha1_hash key (keyed_prefix data p 20)"]
    find_integrity_iff [of 4 "0xC060" data "\<lambda>p v. v = take 4 (rfc2104_hmac sha1_hash key (keyed_prefix data p 4))"]
  by (simp add: ValidateMessageIntegrity_def ValidateMessageIntegrity32_def stun_constants length_hmac_sha1)

text \<open>A message with a padded attribute of five bytes before the integrity attribute.\<close>

definition sealed_front :: bytes where
  "sealed_front = [0, 1, 0, 36] @ replicate 16 0 @ [0x80, 0x22, 0, 5, 1, 2, 3, 4, 5, 0, 0, 0]"

definition sealed :: "bytes \<Rightarrow> bytes" where
  "sealed mac = sealed_front @ [0, 8, 0, 20] @ mac"

definition sealed_attr :: "u16 \<times> bytes \<times> bytes" where
  "sealed_attr = (0x8022, [1, 2, 3, 4, 5], [0, 0, 0])"

lemma sealed_bytes: "tlv_bytes sealed_attr = [0x80, 0x22, 0, 5, 1, 2, 3, 4, 5, 0, 0, 0]" "tlv_ok sealed_attr" "fst sealed_attr = 0x8022"
  by (simp_all add: sealed_attr_def tlv_bytes_def tlv_ok_def pad4_def be_bytes_def le_bytes_def upt_rec)

lemma sealed_first:
  assumes "length mac = 20"
  shows "first_attribute 0x0008 (sealed mac) [sealed_attr] mac" "sized_ok (sealed mac)"
    "keyed_prefix (sealed mac) (20 + length (concat (map tlv_bytes [sealed_attr]))) 20 = sealed_front"
proof -
  have b: "be_bytes 2 (0x0008 :: u16) = [0, 8]" "be_bytes 2 (20 :: u16) = [0, 20]" "be_bytes 2 (36 :: u16) = [0, 36]"
    by (simp_all add: be_bytes_def le_bytes_def upt_rec)
  have "drop 20 (sealed mac) = tlv_bytes sealed_attr @ [0, 8, 0, 20] @ mac"
    by (simp add: sealed_def sealed_front_def sealed_bytes)
  then show "first_attribute 0x0008 (sealed mac) [sealed_attr] mac"
    using assms by (simp add: first_attribute_def attributes_at_def sealed_bytes(2,3) b)
  have "(be_load [0, 36] :: u16) = 36" using be_load_be_bytes [of 2 "36 :: u16"] by (simp add: b)
  then show "sized_ok (sealed mac)"
    using assms by (simp add: sized_ok_def sealed_def sealed_front_def)
  show "keyed_prefix (sealed mac) (20 + length (concat (map tlv_bytes [sealed_attr]))) 20 = sealed_front"
    by (simp add: keyed_prefix_def sealed_bytes b) (simp add: sealed_def sealed_front_def)
qed

lemma sealed_mac:
  assumes "length mac = 20"
  shows "(\<exists>pre m. first_attribute 0x0008 (sealed mac) pre m \<and> length m = 20 \<and>
      m = f (keyed_prefix (sealed mac) (20 + length (concat (map tlv_bytes pre))) 20)) \<longleftrightarrow> mac = f sealed_front"
proof
  assume "mac = f sealed_front"
  then show "\<exists>pre m. first_attribute 0x0008 (sealed mac) pre m \<and> length m = 20 \<and>
      m = f (keyed_prefix (sealed mac) (20 + length (concat (map tlv_bytes pre))) 20)"
    using sealed_first [OF assms] assms by metis
next
  assume "\<exists>pre m. first_attribute 0x0008 (sealed mac) pre m \<and> length m = 20 \<and>
      m = f (keyed_prefix (sealed mac) (20 + length (concat (map tlv_bytes pre))) 20)"
  then obtain pre m where m: "first_attribute 0x0008 (sealed mac) pre m" "length m = 20"
      "m = f (keyed_prefix (sealed mac) (20 + length (concat (map tlv_bytes pre))) 20)" by blast
  note u = first_attribute_unique [OF sealed_first(1) [OF assms] m(1)]
  have "mac = m" "length (concat (map tlv_bytes [sealed_attr])) = length (concat (map tlv_bytes pre))"
    using u assms m(2) by simp_all
  then show "mac = f sealed_front" using m(3) sealed_first(3) [OF assms] by metis
qed

theorem stun_integrity_check_witness:
  "ValidateMessageIntegrity
      \<lparr>md5_buf = [], md5_bits0 = 0, md5_bits1 = 0, md5_in = replicate 64 1\<rparr>
      \<lparr>ctx_state = [], ctx_count0 = 0, ctx_count1 = 0, ctx_buffer = replicate 64 2\<rparr>
      (sealed (rfc2104_hmac sha1_hash [1] sealed_front)) [1] = Some True \<and>
   ValidateMessageIntegrity
      \<lparr>md5_buf = [], md5_bits0 = 0, md5_bits1 = 0, md5_in = replicate 64 1\<rparr>
      \<lparr>ctx_state = [], ctx_count0 = 0, ctx_count1 = 0, ctx_buffer = replicate 64 2\<rparr>
      (sealed (map NOT (rfc2104_hmac sha1_hash [1] sealed_front))) [1] = Some False"
proof -
  let ?m = "\<lparr>md5_buf = [], md5_bits0 = 0, md5_bits1 = 0, md5_in = replicate 64 1\<rparr>"
  let ?c = "\<lparr>ctx_state = [], ctx_count0 = 0, ctx_count1 = 0, ctx_buffer = replicate 64 2\<rparr> :: SHA1_CTX"
  let ?h = "rfc2104_hmac sha1_hash [1] sealed_front"
  have l: "length ?h = 20" "length (map NOT ?h) = 20" by (simp_all add: length_hmac_sha1)
  have "ValidateMessageIntegrity ?m ?c (sealed mac) [1] = Some (mac = ?h)" if "length mac = 20" for mac
    using stun_integrity_check [of ?c ?m "sealed mac" "[1]"] sealed_first(2) [OF that]
      sealed_mac [OF that, of "rfc2104_hmac sha1_hash [1]"] by simp
  moreover have "map NOT ?h \<noteq> ?h"
  proof
    assume "map NOT ?h = ?h"
    then have "NOT (?h ! 0) = ?h ! 0" using l(1) by (metis nth_map zero_less_numeral)
    then have "bit (NOT (?h ! 0)) 0 = bit (?h ! 0) 0" by simp
    then show False by (simp add: bit_not_iff)
  qed
  ultimately show ?thesis using l by simp
qed

lemma StunMessage_Read_short:
  assumes "reader_ok r" "length (unread r) < 20"
  shows "\<exists>m' r'. StunMessage_Read m r = Some (False, m', r') \<and> advanced r r'"
proof -
  have "reader_ok (advance n r)" if "n \<le> length (unread r)" for n
    using that assms(1) by (simp add: reader_ok_advance Length_unread)
  moreover have "advanced r (advance n r)" if "n \<le> length (unread r)" for n
    using that assms(1) by (simp add: advanced_advance Length_unread)
  ultimately show ?thesis
    using assms by (auto simp: StunMessage_Read_def Let_def stun_constants reader_simps)
qed

lemma StunMessage_Read_header:
  assumes "reader_ok r" "20 \<le> length (unread r)"
  shows "\<exists>m1 m2 m3. StunMessage_Read m r =
      (if (be_load (take 2 (unread r)) :: u16) AND 0x8000 \<noteq> 0 then Some (False, m1, advance 2 r)
       else if unat (msg_length m2) \<noteq> Length (advance 20 r) then Some (False, m2, advance 20 r)
       else read_attrs 0 m3 (advance 20 r)) \<and>
    msg_length m3 = msg_length m2 \<and> IsValidTransactionId (transaction_id m3)"
proof -
  have ok: "reader_ok (advance n r)" if "n \<le> 20" for n
    using that assms by (simp add: reader_ok_advance Length_unread)
  define c where "c = take 4 (drop 4 (unread r))"
  define t where "t = take 12 (drop 8 (unread r))"
  define tid where "tid = (if NetworkToHost32 (obj_load c) \<noteq> kStunMagicCookie then c @ t else t)"
  have u: "ReadUInt16 r = (Some (be_load (take 2 (unread r))), advance 2 r)"
    "ReadUInt16 (advance 2 r) = (Some (be_load (take 2 (drop 2 (unread r)))), advance 4 r)"
    "ReadString 4 (advance 4 r) = (Some c, advance 8 r)" "ReadString 12 (advance 8 r) = (Some t, advance 20 r)"
    using assms ok by (simp_all add: reader_simps c_def t_def)
  have v: "IsValidTransactionId tid"
    using assms(2) by (simp add: tid_def valid_id_length c_def t_def)
  then obtain red where red: "ReduceTransactionId tid = Some red" by (auto simp: ReduceTransactionId_def)
  let ?m1 = "m\<lparr>msg_type := be_load (take 2 (unread r))\<rparr>"
  let ?m2 = "?m1\<lparr>msg_length := be_load (take 2 (drop 2 (unread r))), transaction_id := tid, reduced_transaction_id := red\<rparr>"
  show ?thesis
    using u v red unfolding tid_def
    by (intro exI [of _ ?m1] exI [of _ ?m2] exI [of _ "?m2\<lparr>attrs := []\<rparr>"])
      (simp add: StunMessage_Read_def Let_def stun_constants tid_def)
qed

text \<open>C14. \<open>Read\<close> returns on every byte string, without failing an assertion and without reading past the end.
  When it accepts, the length field counts the bytes after the header, the transaction id has one of the two valid
  lengths and nothing is left unread.\<close>

theorem stun_read_total:
  "\<exists>ok m' r'. StunMessage_Read m (new_ByteBufferReader bs) = Some (ok, m', r') \<and> reader_ok r' \<and>
    (ok \<longrightarrow> length bs = 20 + unat (msg_length m') \<and> IsValidTransactionId (transaction_id m') \<and> unread r' = [])"
proof -
  define r where "r = new_ByteBufferReader bs"
  have r: "reader_ok r" "unread r = bs" "Length r = length bs" by (simp_all add: r_def Length_unread)
  have "\<exists>ok m' r'. StunMessage_Read m r = Some (ok, m', r') \<and> advanced r r' \<and>
      (ok \<longrightarrow> length bs = 20 + unat (msg_length m') \<and> IsValidTransactionId (transaction_id m') \<and> Length r' = 0)"
  proof (cases "20 \<le> length bs")
    case True
    obtain m1 m2 m3 where e: "StunMessage_Read m r =
        (if (be_load (take 2 (unread r)) :: u16) AND 0x8000 \<noteq> 0 then Some (False, m1, advance 2 r)
         else if unat (msg_length m2) \<noteq> Length (advance 20 r) then Some (False, m2, advance 20 r)
         else read_attrs 0 m3 (advance 20 r))" "msg_length m3 = msg_length m2" "IsValidTransactionId (transaction_id m3)"
      using StunMessage_Read_header [of r m] r True by auto
    have a: "advanced r (advance n r)" if "n \<le> 20" for n using that True r(3) by (simp add: advanced_advance)
    obtain ok m' r' where l: "read_attrs 0 m3 (advance 20 r) = Some (ok, m', r')" "advanced (advance 20 r) r'"
      "msg_length m' = msg_length m3" "transaction_id m' = transaction_id m3" "ok \<longrightarrow> Length r' = 0"
      using read_attrs_total [of m3 "advance 20 r"] by (auto simp: read_result_def)
    show ?thesis
      using e l a r(3) True advanced_trans [OF a [of 20] l(2)] by auto
  next
    case False
    then show ?thesis using StunMessage_Read_short [of r m] r by auto
  qed
  then show ?thesis
    using advanced_ok [OF _ r(1)] Length_unread unfolding r_def by fastforce
qed

theorem stun_read_total_witness:
  "\<exists>ok m' r'. StunMessage_Read (new_StunMessage TurnMessageKind 0) (new_ByteBufferReader [0, 1, 0, 0, 0x21, 0x12]) =
    Some (ok, m', r') \<and> reader_ok r' \<and> \<not> ok"
  using stun_read_total [of "new_StunMessage TurnMessageKind 0" "[0, 1, 0, 0, 0x21, 0x12]"] by fastforce

text \<open>C15. Whatever setters, additions and removals a new message goes through, its length field counts its
  attributes with their headers and padding: if they are well-formed and fit the field, the written message is the
  header and that many bytes. Removing an attribute type right after adding one restores the message.\<close>

theorem stun_length_field:
  assumes "edited (new_StunMessage kind reduced) m" "\<forall>a \<in> set (attrs m). attr_ok (transaction_id m) a"
    and "attrs_room (attrs m) < 2 ^ 16"
  shows "(\<exists>w. StunMessage_Write m new_ByteBufferWriter = Some (True, w) \<and> length (buf_data w) = 20 + unat (msg_length m)) \<and>
    (\<forall>a m'. AddAttribute a m = Some m' \<longrightarrow>
      RemoveAttribute (attr_type_int a) m' = (Some (SetOwner False a), m))"
proof -
  have "msg_counted m" "IsValidTransactionId (transaction_id m)"
    using edited_counted [OF assms(1)]
    by (simp_all add: new_StunMessage_def msg_counted_def IsValidTransactionId_def EMPTY_TRANSACTION_ID_def stun_constants)
  then have "msg_ok m" using assms(2,3) by (simp add: msg_ok_def msg_counted_def unat_of_nat)
  then show ?thesis
    using StunMessage_Write_ok [of m new_ByteBufferWriter] msg_wire_length [of m] RemoveAttribute_AddAttribute
    by (fastforce simp: msg_ok_def)
qed

theorem stun_length_field_witness:
  "\<exists>w. StunMessage_Write (ClearAttributes (SetType 1 (new_StunMessage IceMessageKind 0))) new_ByteBufferWriter = Some (True, w) \<and>
    length (buf_data w) = 20"
proof -
  have "edited (new_StunMessage IceMessageKind 0) (ClearAttributes (SetType 1 (new_StunMessage IceMessageKind 0)))"
    by (intro edited.clear edited.set_type edited.start)
  from stun_length_field [OF this] show ?thesis by (simp add: ClearAttributes_def)
qed

section \<open>Where the code and its purpose differ\<close>

text \<open>The skip of an unknown attribute rounds its 16-bit length up and wraps: a message of one attribute that
  claims 65535 bytes and has none is accepted.\<close>

lemma unknown_length_wraps:
  "read_attrs 0 m (new_ByteBufferReader [0x00, 0x02, 0xFF, 0xFF]) =
     Some (True, m, advance 4 (new_ByteBufferReader [0x00, 0x02, 0xFF, 0xFF]))"
proof -
  let ?r = "new_ByteBufferReader [0x00, 0x02, 0xFF, 0xFF]"
  have ok: "reader_ok (advance n ?r)" if "n \<le> 4" for n
    using that by (simp add: reader_ok_advance Length_unread)
  have len: "Length ?r = 4" "Length (advance 4 ?r) = 0" by (simp_all add: Length_unread)
  have "CreateAttribute k 2 l = None" for k l
    by (cases k) (simp_all add: CreateAttribute_def value_type_defs DesignatedExpertRange_def)
  moreover have "(0xFFFF :: u16) + 1 = 0" by code_simp
  moreover have "ReadUInt16 ?r = (Some 2, advance 2 ?r)" "ReadUInt16 (advance 2 ?r) = (Some 0xFFFF, advance 4 ?r)"
    using ok [of 0] ok [of 2] by (simp_all add: reader_simps be_load_def)
  moreover have "Consume 0 (advance 4 ?r) = (True, advance 4 ?r)"
    using ok [of 4] by (simp add: reader_simps)
  moreover have "read_attrs 0 m (advance 4 ?r) = Some (True, m, advance 4 ?r)"
    using len by (subst read_attrs.simps) simp
  ultimately show ?thesis
    using len by (subst read_attrs.simps) simp
qed

text \<open>A copy made outside a message loses a XOR address: the copy has no owner, so what it reads back is the
  unspecified address.\<close>

lemma copy_loses_xor_address:
  assumes "attr_ok tid a" "attr_body a = StunXorAddressAttribute addr True"
  shows "\<exists>b. CopyStunAttribute tid a w = Some (Some b) \<and> ip_family (sa_ip (the_address (attr_body b))) = AF_UNSPEC"
proof -
  let ?ip = "xor_ip tid (sa_ip addr)" and ?p = "sa_port addr XOR 0x2112"
  let ?x = "\<lparr>hostname = [], sa_ip = ?ip, sa_port = ?p, scope_id = 0, literal = False\<rparr>"
  have ok: "ip_ok (sa_ip addr)" "ip_family (sa_ip addr) \<noteq> AF_UNSPEC" "ip_family (sa_ip addr) \<noteq> AF_INET \<longrightarrow> length tid = 12"
      "attr_length a = address_size addr"
    using assms by (simp_all add: attr_ok_def plain_address_def)
  note x = xor_ip_facts [OF ok(1-3)]
  let ?b = "a\<lparr>attr_body := StunXorAddressAttribute SocketAddress_nil False\<rparr>"
  obtain w' where w: "StunAttribute_Write tid a (Clear w) = Some (True, w')" "buf_data w' = body_wire tid (attr_body a)"
    using StunAttribute_Write_ok [OF assms(1), of "Clear w"] by auto
  have "StunAddressAttribute_Read ?b (new_ByteBufferReader (buf_data w')) =
      Some (Some (SetAddress ?x ?b), advance (4 + length (octets ?ip)) (new_ByteBufferReader (buf_data w')))"
    using x ok assms(2) w(2) by (intro StunAddressAttribute_Read_eq [where rest = "[]"]) (simp_all add: address_size_def)
  moreover have "StunAttribute_Create (value_type a) (attr_type a) (attr_length a) False = Some ?b"
    using assms(2) by (cases a) (simp add: StunAttribute_Create_def value_type_def)
  moreover have "SetAddress ?x ?b = ?b\<lparr>attr_length := address_size ?x, attr_body := StunXorAddressAttribute ?x False\<rparr>"
    using x(1) ok(2) by (simp add: SetAddress_body(2))
  ultimately show ?thesis
    using w(1)
    by (simp add: CopyStunAttribute_def StunAttribute_Read_def StunXorAddressAttribute_Read_def GetXoredIP_def
        SocketAddress_of_ip_eq SetAddress_def EnsureAddressLength_def stun_family_def IPAddress_nil_def)
qed

text \<open>The length an integer attribute claims on the wire is ignored.\<close>

lemma integer_length_ignored:
  "CreateAttribute kind (attr_value kStunAttrFingerprint) len = Some (new_StunUInt32Attribute 0x8028 0)"
  by (cases kind) (simp_all add: CreateAttribute_def value_type_defs StunAttribute_Create_def new_StunUInt32Attribute_def)

end
