(* ===== verification/Heap_Timer.thy ===== *)
theory Heap_Timer
  imports Complex_Main Prelude "HOL-Library.Stream"
begin

text \<open>
  The timers of the event loop (\<open>network/event/timer.h\<close>, \<open>timer.cc\<close>, and the timer calls and the loop of
  \<open>event_loop.cc\<close>).

  A time point is a number of nanoseconds, an interval a number of milliseconds. An interval is a \<open>double\<close> of the
  code; here it is a rational number, and the intervals of the transactions, quarters of a millisecond, are exact in
  both. The clock is the stream of the values that its readings give, one for each call, so time passes between
  and during the calls as the environment wants. The priority queue is the list of its items in order of insertion:
  the item it gives first is the one with the earliest \<open>expired_\<close>, which is the time it was inserted and not the
  time it is due; the library leaves open which of two equal items is first, here it is the older one. A callback
  is a value, and \<open>call\<close> runs it on the whole state, of which the timers are a part. \<open>None\<close> stands for a callback that
  fails and for a loop that never ends. The members that no constructor sets are \<open>junk\<close>.
\<close>

section \<open>Timers\<close>

datatype TimerStrategy = TIMER_ONESHOT | TIMER_LIMITED | TIMER_PERSIST

record 'c TimerItem =
  interval :: rat
  expired :: int
  strategy :: TimerStrategy
  exeTimes :: u32
  timer_cb :: 'c

record 'c HeapTimer =
  queue :: "'c TimerItem list"
  max_timer :: nat
  junk :: u32
  clock :: "int stream"

definition CurrentMilliTimePoint :: "('c, 's) HeapTimer_scheme \<Rightarrow> int \<times> ('c, 's) HeapTimer_scheme" where
  "CurrentMilliTimePoint s = (shd (clock s), s\<lparr>clock := stl (clock s)\<rparr>)"

definition GetDurationMilliSecond :: "int \<Rightarrow> int \<Rightarrow> rat" where
  "GetDurationMilliSecond t1 t2 = of_int (t2 - t1) / 1000000"

text \<open>\<open>operator<\<close>: the item inserted later has the lower priority.\<close>

definition TimerItem_less :: "'c TimerItem \<Rightarrow> 'c TimerItem \<Rightarrow> bool" where
  "TimerItem_less t e \<longleftrightarrow> expired t > expired e"

definition IsExpired :: "int \<Rightarrow> 'c TimerItem \<Rightarrow> bool" where
  "IsExpired t2 t \<longleftrightarrow> GetDurationMilliSecond (expired t) t2 > interval t"

fun queue_top :: "'c TimerItem list \<Rightarrow> ('c TimerItem \<times> 'c TimerItem list) option" where
  "queue_top [] = None"
| "queue_top (t # ts) =
     (case queue_top ts of
        None \<Rightarrow> Some (t, [])
      | Some (u, us) \<Rightarrow> if TimerItem_less t u then Some (u, t # us) else Some (t, ts))"

definition AddTimer :: "'c \<Rightarrow> rat \<Rightarrow> TimerStrategy \<Rightarrow> ('c, 's) HeapTimer_scheme \<Rightarrow> ('c, 's) HeapTimer_scheme" where
  "AddTimer cb ival strat s =
     (if length (queue s) > max_timer s then s
      else (case CurrentMilliTimePoint s of (now, s) \<Rightarrow>
        s\<lparr>queue := queue s @ [\<lparr>interval = ival, expired = now, strategy = strat, exeTimes = junk s, timer_cb = cb\<rparr>]\<rparr>))"

text \<open>After its callback, an item that repeats is inserted again; \<open>--exeTimes_\<close> wraps around.\<close>

definition push_again :: "'c TimerItem \<Rightarrow> ('c, 's) HeapTimer_scheme \<Rightarrow> ('c, 's) HeapTimer_scheme" where
  "push_again t s =
     (let t = (if strategy t = TIMER_LIMITED then t\<lparr>exeTimes := exeTimes t - 1\<rparr> else t) in
      if strategy t = TIMER_PERSIST \<or> strategy t = TIMER_LIMITED \<and> exeTimes t > 0 then
        (case CurrentMilliTimePoint s of (now, s) \<Rightarrow> s\<lparr>queue := queue s @ [t\<lparr>expired := now\<rparr>]\<rparr>)
      else s)"

partial_function (option) TimerInLoop ::
  "('c \<Rightarrow> ('c, 's) HeapTimer_scheme \<Rightarrow> ('c, 's) HeapTimer_scheme option) \<Rightarrow>
   ('c, 's) HeapTimer_scheme \<Rightarrow> (rat \<times> ('c, 's) HeapTimer_scheme) option" where
  "TimerInLoop call s =
     (case queue_top (queue s) of
        None \<Rightarrow> Some (0, s)
      | Some (largest, others) \<Rightarrow>
          (case CurrentMilliTimePoint s of (currTp, s) \<Rightarrow>
             if \<not> IsExpired currTp largest
             then Some (interval largest - GetDurationMilliSecond (expired largest) currTp, s)
             else
               (case call (timer_cb largest) (s\<lparr>queue := others\<rparr>) of
                  None \<Rightarrow> None
                | Some s \<Rightarrow> TimerInLoop call (push_again largest s))))"

section \<open>The event loop\<close>

text \<open>The timer calls; waking up the poller is a system call.\<close>

definition RunAt :: "rat \<Rightarrow> 'c \<Rightarrow> ('c, 's) HeapTimer_scheme \<Rightarrow> ('c, 's) HeapTimer_scheme" where
  "RunAt time cb s = AddTimer cb time TIMER_ONESHOT s"

definition RunAfter :: "rat \<Rightarrow> 'c \<Rightarrow> ('c, 's) HeapTimer_scheme \<Rightarrow> ('c, 's) HeapTimer_scheme" where
  "RunAfter delay cb s = AddTimer cb delay TIMER_ONESHOT s"

definition RunEvery :: "rat \<Rightarrow> 'c \<Rightarrow> ('c, 's) HeapTimer_scheme \<Rightarrow> ('c, 's) HeapTimer_scheme" where
  "RunEvery ival cb s = AddTimer cb ival TIMER_PERSIST s"

text \<open>\<open>Cancel\<close> returns without doing anything.\<close>

definition Cancel :: "u64 \<Rightarrow> ('c, 's) HeapTimer_scheme \<Rightarrow> ('c, 's) HeapTimer_scheme" where
  "Cancel timerId s = s"

definition kPollTimeMs :: u32 where
  "kPollTimeMs = 10000"

text \<open>
  The time the next \<open>Poll\<close> may take: the rest of the interval, cut to a whole number of milliseconds, which is
  defined when it fits; 0 stands for no timer.
\<close>

definition next_exp_time :: "rat \<Rightarrow> u32 option" where
  "next_exp_time d =
     (if -1 < d \<and> d < 2 ^ 32 then
        (let n = (if d < 0 then 0 else of_int \<lfloor>d\<rfloor>) in Some (if n = 0 then kPollTimeMs else n))
      else None)"

text \<open>
  Turns of the loop of \<open>EnterLoop\<close> in which no event is active and no functor is pending: \<open>Poll\<close> takes its time, then
  the timers run. The result is the time for the next \<open>Poll\<close> and the state.
\<close>

fun EnterLoop ::
  "('c \<Rightarrow> ('c, 's) HeapTimer_scheme \<Rightarrow> ('c, 's) HeapTimer_scheme option) \<Rightarrow> nat \<Rightarrow> u32 \<Rightarrow>
   ('c, 's) HeapTimer_scheme \<Rightarrow> (u32 \<times> ('c, 's) HeapTimer_scheme) option" where
  "EnterLoop call 0 ms s = Some (ms, s)"
| "EnterLoop call (Suc turns) ms s =
     (case TimerInLoop call s of
        None \<Rightarrow> None
      | Some (d, s) \<Rightarrow> (case next_exp_time d of None \<Rightarrow> None | Some ms \<Rightarrow> EnterLoop call turns ms s))"

section \<open>Laws\<close>

lemma IsExpired_quarters:
  "interval t = of_int d / 1000 \<Longrightarrow> IsExpired now t \<longleftrightarrow> 1000 * d < now - expired t"
proof -
  assume i: "interval t = of_int d / 1000"
  have "IsExpired now t \<longleftrightarrow> (of_int (1000 * d) :: rat) < of_int (now - expired t)"
    unfolding IsExpired_def GetDurationMilliSecond_def i by (simp add: field_simps)
  then show ?thesis by (simp only: of_int_less_iff)
qed

lemma IsExpired_item:
  "IsExpired now \<lparr>interval = of_int d / 1000, expired = e, strategy = st, exeTimes = n, timer_cb = cb\<rparr> \<longleftrightarrow> 1000 * d < now - e"
  by (simp add: IsExpired_quarters [where d = d])

lemma EnterLoop_one:
  "TimerInLoop call s = Some (d, s') \<Longrightarrow> next_exp_time d \<noteq> None \<Longrightarrow> \<exists>ms'. EnterLoop call 1 ms s = Some (ms', s')"
  by auto

lemma EnterLoop_add:
  "EnterLoop call (n + k) ms s =
     (case EnterLoop call n ms s of None \<Rightarrow> None | Some (ms, s) \<Rightarrow> EnterLoop call k ms s)"
  by (induction n arbitrary: ms s) (auto split: option.split)

lemma TimerInLoop_idle: "queue s = [] \<Longrightarrow> TimerInLoop call s = Some (0, s)"
  by (subst TimerInLoop.simps) simp

lemma TimerInLoop_early:
  assumes "queue s = [t]" "\<not> IsExpired (shd (clock s)) t"
  shows "TimerInLoop call s = Some (interval t - GetDurationMilliSecond (expired t) (shd (clock s)), s\<lparr>clock := stl (clock s)\<rparr>)"
  using assms by (subst TimerInLoop.simps) (simp add: CurrentMilliTimePoint_def)

lemma TimerInLoop_due:
  assumes "queue s = [t]" "IsExpired (shd (clock s)) t" "strategy t = TIMER_ONESHOT"
  shows "TimerInLoop call s =
    (case call (timer_cb t) (s\<lparr>clock := stl (clock s), queue := []\<rparr>) of None \<Rightarrow> None | Some s' \<Rightarrow> TimerInLoop call s')"
  using assms by (subst TimerInLoop.simps) (simp add: CurrentMilliTimePoint_def push_again_def split: option.split)

section \<open>Where the code and its purpose differ\<close>

text \<open>A timer due in less than a millisecond makes the loop poll for ten seconds, as if there were none.\<close>

lemma short_wait_polls_long: "0 \<le> d \<Longrightarrow> d < 1 \<Longrightarrow> next_exp_time d = Some 10000"
proof -
  assume d: "0 \<le> d" "d < 1"
  then have "\<lfloor>d\<rfloor> = 0" by (simp add: floor_eq_iff)
  with d show ?thesis by (simp add: next_exp_time_def kPollTimeMs_def)
qed

text \<open>A timer inserted first but due later holds back one that is due: only the oldest item is looked at.\<close>

lemma oldest_timer_holds_back:
  assumes "queue s = [t, u]" "expired t \<le> expired u" "\<not> IsExpired (shd (clock s)) t"
  shows "\<exists>d. TimerInLoop call s = Some (d, s\<lparr>clock := stl (clock s)\<rparr>)"
  using assms by (subst TimerInLoop.simps) (simp add: CurrentMilliTimePoint_def TimerItem_less_def)

end
