(* ===== verification/Stun_Request.thy ===== *)
theory Stun_Request
  imports Stun_Message Heap_Timer
begin

text \<open>
  STUN transactions (\<open>stun_request.h\<close>, \<open>stun_request.cc\<close>). The state is one manager with the objects it works on:
  the live request objects by address, the request map, the timers and the clock of the event loop, and the
  readings \<open>TimeMillis\<close> will give. A signal or a virtual notification is an event of the trace; \<open>Prepare\<close>, which
  derived classes override, is an argument. An assertion that fails and an access to a deleted object give \<open>None\<close>.
  The callback of a timer is the address of the request that \<open>send_stun_message\<close> was bound to: nothing in the code
  takes a timer back.
\<close>

section \<open>Requests\<close>

record StunRequest =
  rq_count :: int
  rq_timeout :: bool
  rq_origin :: bytes
  rq_manager :: bool
  rq_msg :: StunMessage
  rq_tstamp :: int

datatype request_event =
    SignalSendPacket bytes nat
  | OnTimeout nat
  | OnResponse nat StunMessage
  | OnErrorResponse nat StunMessage

record Transactions = "nat HeapTimer" +
  tx_heap :: "nat \<Rightarrow> StunRequest option"
  tx_requests :: "(bytes \<times> nat) list"
  tx_origin :: bytes
  tx_millis :: "int stream"
  tx_trace :: "request_event list"

definition STUN_INITIAL_RTO :: int where "STUN_INITIAL_RTO = 250"
definition STUN_MAX_RETRANSMISSIONS :: int where "STUN_MAX_RETRANSMISSIONS = 8"
definition STUN_MAX_RTO :: int where "STUN_MAX_RTO = 8000"
definition STUN_TOTAL_TIMEOUT :: int where "STUN_TOTAL_TIMEOUT = 39750"
definition kAllRequests :: int where "kAllRequests = 0"

lemmas stun_timing = STUN_INITIAL_RTO_def STUN_MAX_RETRANSMISSIONS_def STUN_MAX_RTO_def STUN_TOTAL_TIMEOUT_def

text \<open>The constructor: a random transaction id, and no manager yet.\<close>

definition new_StunRequest :: "bytes \<Rightarrow> StunMessage \<Rightarrow> StunRequest option" where
  "new_StunRequest random_id msg =
     map_option (\<lambda>(_, m). \<lparr>rq_count = 0, rq_timeout = False, rq_origin = [], rq_manager = False, rq_msg = m, rq_tstamp = 0\<rparr>)
       (SetTransactionID random_id msg)"

definition rq_id :: "StunRequest \<Rightarrow> bytes" where
  "rq_id r = transaction_id (rq_msg r)"

definition rq_type :: "StunRequest \<Rightarrow> int" where
  "rq_type r = uint (msg_type (rq_msg r))"

definition Elapsed :: "int \<Rightarrow> StunRequest \<Rightarrow> int" where
  "Elapsed now r = now - rq_tstamp r"

definition Construct :: "(StunMessage \<Rightarrow> StunMessage) \<Rightarrow> StunRequest \<Rightarrow> StunRequest option" where
  "Construct Prepare r =
     (if rq_type r = 0 then
        (case (if rq_origin r \<noteq> [] then
                 AddAttribute (new_StunByteStringAttribute (word_of_int (attr_value kStunAttrOrigin)) (rq_origin r)) (rq_msg r)
               else Some (rq_msg r)) of
           None \<Rightarrow> None
         | Some m \<Rightarrow>
             (let r = r\<lparr>rq_msg := Prepare m\<rparr> in if rq_type r \<noteq> 0 then Some r else None))
      else Some r)"

text \<open>A shift whose result is not an \<open>int\<close> is not defined.\<close>

definition resend_delay :: "int \<Rightarrow> int option" where
  "resend_delay count =
     (if count = 0 then Some 0
      else
        (let retransmissions = count - 1 in
         if 0 \<le> retransmissions \<and> retransmissions < 32 \<and> STUN_INITIAL_RTO * 2 ^ nat retransmissions < 2 ^ 31
         then Some (min (STUN_INITIAL_RTO * 2 ^ nat retransmissions) STUN_MAX_RTO)
         else None))"

definition OnSent :: "StunRequest \<Rightarrow> StunRequest" where
  "OnSent r =
     (let r = r\<lparr>rq_count := rq_count r + 1\<rparr>;
          retransmissions = rq_count r - 1
      in if retransmissions \<ge> STUN_MAX_RETRANSMISSIONS then r\<lparr>rq_timeout := True\<rparr> else r)"

section \<open>The manager\<close>

definition Remove :: "nat \<Rightarrow> Transactions \<Rightarrow> Transactions option" where
  "Remove a w =
     (case tx_heap w a of
        None \<Rightarrow> None
      | Some r \<Rightarrow>
          if \<not> rq_manager r then None
          else
            (case map_of (tx_requests w) (rq_id r) of
               None \<Rightarrow> Some w
             | Some b \<Rightarrow>
                 if b \<noteq> a then None
                 else Some (w\<lparr>tx_requests := filter (\<lambda>p. fst p \<noteq> rq_id r) (tx_requests w)\<rparr>)))"

text \<open>\<open>delete request\<close>: the destructor removes the request from its manager, then the object is gone.\<close>

definition delete_request :: "nat \<Rightarrow> Transactions \<Rightarrow> Transactions option" where
  "delete_request a w =
     (case tx_heap w a of
        None \<Rightarrow> None
      | Some r \<Rightarrow>
          if \<not> rq_manager r then None
          else map_option (\<lambda>w. w\<lparr>tx_heap := (tx_heap w)(a := None)\<rparr>) (Remove a w))"

definition send_stun_message :: "nat \<Rightarrow> Transactions \<Rightarrow> Transactions option" where
  "send_stun_message a w =
     (case tx_heap w a of
        None \<Rightarrow> None
      | Some r \<Rightarrow>
          if \<not> rq_manager r then None
          else if rq_timeout r then delete_request a (w\<lparr>tx_trace := tx_trace w @ [OnTimeout a]\<rparr>)
          else
            (case StunMessage_Write (rq_msg r) new_ByteBufferWriter of
               None \<Rightarrow> None
             | Some (_, buf) \<Rightarrow>
                 (let r = OnSent (r\<lparr>rq_tstamp := shd (tx_millis w)\<rparr>) in
                  map_option
                    (\<lambda>delay. RunAfter (of_int delay / 1000) a
                       (w\<lparr>tx_heap := (tx_heap w)(a \<mapsto> r), tx_millis := stl (tx_millis w),
                          tx_trace := tx_trace w @ [SignalSendPacket (buf_data buf) a]\<rparr>))
                    (resend_delay (rq_count r)))))"

definition SendDelayed :: "(StunMessage \<Rightarrow> StunMessage) \<Rightarrow> nat \<Rightarrow> int \<Rightarrow> Transactions \<Rightarrow> Transactions option" where
  "SendDelayed Prepare a delay w =
     (case tx_heap w a of
        None \<Rightarrow> None
      | Some r \<Rightarrow>
          if rq_manager r then None
          else
            (let r = r\<lparr>rq_manager := True\<rparr> in
             if map_of (tx_requests w) (rq_id r) \<noteq> None then Some (w\<lparr>tx_heap := (tx_heap w)(a \<mapsto> r)\<rparr>)
             else
               (case Construct Prepare (r\<lparr>rq_origin := tx_origin w\<rparr>) of
                  None \<Rightarrow> None
                | Some r \<Rightarrow>
                    (let w = w\<lparr>tx_heap := (tx_heap w)(a \<mapsto> r),
                           tx_requests := (rq_id r, a) # filter (\<lambda>p. fst p \<noteq> rq_id r) (tx_requests w)\<rparr>
                     in if delay > 0 then Some w else send_stun_message a w))))"

definition Send :: "(StunMessage \<Rightarrow> StunMessage) \<Rightarrow> nat \<Rightarrow> Transactions \<Rightarrow> Transactions option" where
  "Send Prepare a w = SendDelayed Prepare a 0 w"

text \<open>The body of the loop of \<open>Flush\<close> is commented out.\<close>

definition Flush :: "int \<Rightarrow> Transactions \<Rightarrow> Transactions" where
  "Flush ty w = w"

definition HasRequest :: "int \<Rightarrow> Transactions \<Rightarrow> bool" where
  "HasRequest ty w \<longleftrightarrow>
     (\<exists>p \<in> set (tx_requests w). ty = kAllRequests \<or> (case tx_heap w (snd p) of None \<Rightarrow> False | Some r \<Rightarrow> ty = rq_type r))"

fun delete_all :: "nat list \<Rightarrow> Transactions \<Rightarrow> Transactions option" where
  "delete_all [] w = Some w"
| "delete_all (a # as) w = (case delete_request a w of None \<Rightarrow> None | Some w \<Rightarrow> delete_all as w)"

definition Transactions_Clear :: "Transactions \<Rightarrow> Transactions option" where
  "Transactions_Clear w = delete_all (map snd (tx_requests w)) w"

definition CheckResponse :: "StunMessage \<Rightarrow> Transactions \<Rightarrow> (bool \<times> Transactions) option" where
  "CheckResponse msg w =
     (case map_of (tx_requests w) (transaction_id msg) of
        None \<Rightarrow> Some (False, w)
      | Some a \<Rightarrow>
          (case tx_heap w a of
             None \<Rightarrow> None
           | Some r \<Rightarrow>
               if GetNonComprehendedAttributes msg \<noteq> [] then map_option (Pair False) (delete_request a w)
               else if uint (msg_type msg) = GetStunSuccessResponseType (rq_type r)
               then map_option (Pair True) (delete_request a (w\<lparr>tx_trace := tx_trace w @ [OnResponse a msg]\<rparr>))
               else if uint (msg_type msg) = GetStunErrorResponseType (rq_type r)
               then map_option (Pair True) (delete_request a (w\<lparr>tx_trace := tx_trace w @ [OnErrorResponse a msg]\<rparr>))
               else Some (False, w)))"

definition CheckResponse_data :: "u32 \<Rightarrow> bytes \<Rightarrow> Transactions \<Rightarrow> (bool \<times> Transactions) option" where
  "CheckResponse_data reduced data w =
     (if length data < 20 then Some (False, w)
      else
        (case map_of (tx_requests w) (take kStunTransactionIdLength (drop kStunTransactionIdOffset data)) of
           None \<Rightarrow> Some (False, w)
         | Some a \<Rightarrow>
             (case tx_heap w a of
                None \<Rightarrow> None
              | Some r \<Rightarrow>
                  (case StunMessage_Read (new_StunMessage (msg_kind (rq_msg r)) reduced) (new_ByteBufferReader data) of
                     None \<Rightarrow> None
                   | Some (False, _, _) \<Rightarrow> Some (False, w)
                   | Some (True, response, _) \<Rightarrow> CheckResponse response w))))"

section \<open>The schedule of a request nobody answers\<close>

text \<open>
  The value of \<open>resend_delay\<close> after the \<open>k\<close>-th packet, and the sum of those before the \<open>k\<close>-th packet. The timers
  get a thousandth of it as milliseconds, so it is a number of microseconds.
\<close>

definition wait :: "nat \<Rightarrow> int" where
  "wait k = min (250 * 2 ^ (k - 1)) 8000"

definition waited :: "nat \<Rightarrow> int" where
  "waited k = sum_list (map wait [1..<k])"

lemma resend_delay_wait: "1 \<le> k \<Longrightarrow> k \<le> 9 \<Longrightarrow> resend_delay (int k) = Some (wait k)"
proof -
  assume k: "1 \<le> k" "k \<le> 9"
  have "(2 :: int) ^ (k - 1) \<le> 2 ^ 8" using k by (intro power_increasing) simp_all
  moreover have "nat (int k - 1) = k - 1" using k by simp
  ultimately show ?thesis using k by (simp add: resend_delay_def wait_def stun_timing Let_def)
qed

lemma waited_Suc: "1 \<le> k \<Longrightarrow> waited (Suc k) = waited k + wait k"
  by (simp add: waited_def)

lemma waited_total: "waited 10 = STUN_TOTAL_TIMEOUT"
  by (simp add: waited_def wait_def stun_timing upt_rec)

text \<open>
  The state after \<open>k\<close> packets, from the state before the first: \<open>e\<close> is the time the last timer was set and \<open>c\<close> the
  readings to come. \<open>over\<close> is the state after the timeout.
\<close>

definition waiting :: "nat \<Rightarrow> StunRequest \<Rightarrow> bytes \<Rightarrow> Transactions \<Rightarrow> nat \<Rightarrow> int \<Rightarrow> int \<Rightarrow> int stream \<Rightarrow> int stream \<Rightarrow> Transactions" where
  "waiting a r packet w k e t ms c =
     w\<lparr>tx_heap := (tx_heap w)(a \<mapsto> r\<lparr>rq_count := int k, rq_timeout := k \<ge> 9, rq_tstamp := t\<rparr>),
       tx_trace := tx_trace w @ replicate k (SignalSendPacket packet a), tx_millis := ms, clock := c,
       queue := [\<lparr>interval = of_int (wait k) / 1000, expired = e, strategy = TIMER_ONESHOT, exeTimes = junk w, timer_cb = a\<rparr>]\<rparr>"

definition over :: "nat \<Rightarrow> bytes \<Rightarrow> bytes \<Rightarrow> Transactions \<Rightarrow> int stream \<Rightarrow> int stream \<Rightarrow> Transactions" where
  "over a i packet w ms c =
     w\<lparr>tx_heap := (tx_heap w)(a := None), tx_requests := filter (\<lambda>p. fst p \<noteq> i) (tx_requests w),
       tx_trace := tx_trace w @ replicate 9 (SignalSendPacket packet a) @ [OnTimeout a],
       tx_millis := ms, clock := c, queue := []\<rparr>"

lemma send_step:
  assumes "tx_heap w a = Some r" "rq_manager r" "\<not> rq_timeout r" "rq_count r = int k" "k < 9" "queue w = []"
    and "StunMessage_Write (rq_msg r) new_ByteBufferWriter = Some (ok, buf)"
  shows "send_stun_message a w =
    Some (w\<lparr>tx_heap := (tx_heap w)(a \<mapsto> r\<lparr>rq_count := int (Suc k), rq_timeout := Suc k \<ge> 9, rq_tstamp := shd (tx_millis w)\<rparr>),
      tx_trace := tx_trace w @ [SignalSendPacket (buf_data buf) a], tx_millis := stl (tx_millis w), clock := stl (clock w),
      queue := [\<lparr>interval = of_int (wait (Suc k)) / 1000, expired = shd (clock w), strategy = TIMER_ONESHOT,
        exeTimes = junk w, timer_cb = a\<rparr>]\<rparr>)"
proof -
  have "OnSent (r\<lparr>rq_tstamp := t\<rparr>) = r\<lparr>rq_count := int (Suc k), rq_timeout := Suc k \<ge> 9, rq_tstamp := t\<rparr>" for t
    using assms(3,4,5) by (cases r) (auto simp: OnSent_def stun_timing Let_def)
  then show ?thesis
    using assms resend_delay_wait [of "Suc k"]
    by (simp add: send_stun_message_def RunAfter_def AddTimer_def CurrentMilliTimePoint_def)
qed

section \<open>The request map\<close>

text \<open>The map has one entry per id, and it leads to a live request with that id.\<close>

definition requests_ok :: "Transactions \<Rightarrow> bool" where
  "requests_ok w \<longleftrightarrow> distinct (map fst (tx_requests w)) \<and>
     (\<forall>p \<in> set (tx_requests w). \<exists>r. tx_heap w (snd p) = Some r \<and> rq_manager r \<and> rq_id r = fst p)"

lemma requests_ok_lookup:
  assumes "requests_ok w" "map_of (tx_requests w) i = Some a"
  obtains r where "tx_heap w a = Some r" "rq_manager r" "rq_id r = i"
  using assms map_of_SomeD [OF assms(2)] by (fastforce simp: requests_ok_def)

text \<open>The state without a request, whatever else was logged before.\<close>

definition dropped :: "nat \<Rightarrow> bytes \<Rightarrow> Transactions \<Rightarrow> Transactions" where
  "dropped a i w = w\<lparr>tx_heap := (tx_heap w)(a := None), tx_requests := filter (\<lambda>p. fst p \<noteq> i) (tx_requests w)\<rparr>"

lemma delete_request_eq:
  assumes "tx_heap w a = Some r" "rq_manager r" "map_of (tx_requests w) (rq_id r) = Some a"
  shows "delete_request a w = Some (dropped a (rq_id r) w)"
  using assms by (simp add: delete_request_def Remove_def dropped_def)

lemma map_of_filter_key: "map_of (filter (\<lambda>p. fst p \<noteq> i) xs) j = (if j = i then None else map_of xs j)"
  by (induction xs) auto

lemma dropped_ok:
  assumes "requests_ok w" "tx_heap w a = Some r" "rq_id r = i"
  shows "requests_ok (dropped a i w)"
proof -
  have "snd p \<noteq> a" if "p \<in> set (tx_requests w)" "fst p \<noteq> i" for p
    using assms that by (fastforce simp: requests_ok_def)
  moreover have "distinct (map fst (filter P (tx_requests w)))" for P
    using assms(1) by (simp add: requests_ok_def distinct_map_filter)
  ultimately show ?thesis using assms(1) by (auto simp: requests_ok_def dropped_def)
qed

lemma requests_ok_trace [simp]: "requests_ok (w\<lparr>tx_trace := t\<rparr>) = requests_ok w"
  by (simp add: requests_ok_def)

lemma delete_request_ok:
  assumes "requests_ok w" "map_of (tx_requests w) i = Some a"
  shows "delete_request a (w\<lparr>tx_trace := t\<rparr>) = Some ((dropped a i w)\<lparr>tx_trace := t\<rparr>)"
    "delete_request a w = Some (dropped a i w)" "requests_ok (dropped a i w)"
proof -
  obtain r where r: "tx_heap w a = Some r" "rq_manager r" "rq_id r = i" using assms by (rule requests_ok_lookup)
  show "delete_request a (w\<lparr>tx_trace := t\<rparr>) = Some ((dropped a i w)\<lparr>tx_trace := t\<rparr>)" "delete_request a w = Some (dropped a i w)"
    using delete_request_eq [of "w\<lparr>tx_trace := t\<rparr>" a r] delete_request_eq [of w a r] r assms(2) by (simp_all add: dropped_def)
  show "requests_ok (dropped a i w)" using assms(1) r(1,3) by (rule dropped_ok)
qed

section \<open>Running the timers\<close>

lemma waiting_early:
  assumes "\<not> 1000 * wait k < shd c - e"
  shows "TimerInLoop call (waiting a r packet w k e t ms c) =
    Some (of_int (wait k) / 1000 - GetDurationMilliSecond e (shd c), waiting a r packet w k e t ms (stl c))"
  using assms by (subst TimerInLoop_early) (auto simp: waiting_def IsExpired_item)

lemma waiting_due:
  assumes "rq_manager r" "StunMessage_Write (rq_msg r) new_ByteBufferWriter = Some (ok, buf)" "k < 9" "1000 * wait k < shd c - e"
  shows "TimerInLoop send_stun_message (waiting a r (buf_data buf) w k e t ms c) =
    TimerInLoop send_stun_message (waiting a r (buf_data buf) w (Suc k) (shd (stl c)) (shd ms) (stl ms) (stl (stl c)))"
proof -
  let ?s = "waiting a r (buf_data buf) w k e t ms c"
  let ?r = "r\<lparr>rq_count := int k, rq_timeout := k \<ge> 9, rq_tstamp := t\<rparr>"
  have "send_stun_message a (?s\<lparr>clock := stl c, queue := []\<rparr>) =
      Some (waiting a r (buf_data buf) w (Suc k) (shd (stl c)) (shd ms) (stl ms) (stl (stl c)))"
    using send_step [of "?s\<lparr>clock := stl c, queue := []\<rparr>" a ?r k ok buf] assms(1,2,3)
    by (simp add: waiting_def replicate_append_same)
  then show ?thesis
    using assms(4) by (subst TimerInLoop_due) (auto simp: waiting_def IsExpired_item)
qed

lemma waiting_last:
  assumes "rq_manager r" "map_of (tx_requests w) (rq_id r) = Some a" "1000 * wait 9 < shd c - e"
  shows "TimerInLoop send_stun_message (waiting a r packet w 9 e t ms c) = Some (0, over a (rq_id r) packet w ms (stl c))"
proof -
  let ?s = "waiting a r packet w 9 e t ms c"
  have "send_stun_message a (?s\<lparr>clock := stl c, queue := []\<rparr>) = Some (over a (rq_id r) packet w ms (stl c))"
    using assms(1,2) by (simp add: send_stun_message_def delete_request_def Remove_def waiting_def over_def rq_id_def)
  moreover have "TimerInLoop send_stun_message (over a (rq_id r) packet w ms (stl c)) = Some (0, over a (rq_id r) packet w ms (stl c))"
    by (rule TimerInLoop_idle) (simp add: over_def)
  ultimately show ?thesis
    using assms(3) by (subst TimerInLoop_due) (auto simp: waiting_def IsExpired_item)
qed

text \<open>
  A clock that never goes back and passes every time. \<open>on_schedule\<close>: \<open>k\<close> packets are out, the last timer was set at \<open>e\<close>,
  at least the sum of the waits after \<open>e0\<close>, and the next reading is number \<open>m\<close>. \<open>given_up\<close>: the request is over, and
  the last reading, number \<open>m\<close>, came after the whole sum.
\<close>

definition ascending :: "int stream \<Rightarrow> bool" where
  "ascending c \<longleftrightarrow> (\<forall>i. c !! i \<le> c !! Suc i)"

definition unbounded :: "int stream \<Rightarrow> bool" where
  "unbounded c \<longleftrightarrow> (\<forall>t. \<exists>i. t < c !! i)"

definition on_schedule :: "nat \<Rightarrow> StunRequest \<Rightarrow> bytes \<Rightarrow> Transactions \<Rightarrow> int \<Rightarrow> nat \<Rightarrow> int \<Rightarrow> nat \<Rightarrow> Transactions \<Rightarrow> bool" where
  "on_schedule a r packet w e0 k e m s \<longleftrightarrow> (\<exists>t ms. s = waiting a r packet w k e t ms (sdrop m (clock w))) \<and>
     1 \<le> k \<and> k \<le> 9 \<and> 1000 * waited k \<le> e - e0 \<and> e \<le> clock w !! m"

definition given_up :: "nat \<Rightarrow> bytes \<Rightarrow> bytes \<Rightarrow> Transactions \<Rightarrow> int \<Rightarrow> nat \<Rightarrow> Transactions \<Rightarrow> bool" where
  "given_up a i packet w e0 m s \<longleftrightarrow> (\<exists>ms. s = over a i packet w ms (sdrop (Suc m) (clock w))) \<and>
     1000 * STUN_TOTAL_TIMEOUT < clock w !! m - e0"

definition farther :: "nat \<Rightarrow> StunRequest \<Rightarrow> bytes \<Rightarrow> Transactions \<Rightarrow> int \<Rightarrow> nat \<Rightarrow> Transactions \<Rightarrow> bool" where
  "farther a r packet w e0 k s \<longleftrightarrow>
     (\<exists>k' e m. k < k' \<and> on_schedule a r packet w e0 k' e m s) \<or> (\<exists>m. given_up a (rq_id r) packet w e0 m s)"

lemma next_exp_time_rest:
  assumes "e \<le> now" "\<not> 1000 * wait k < now - e"
  shows "next_exp_time (of_int (wait k) / 1000 - GetDurationMilliSecond e now) \<noteq> None"
proof -
  have "(of_int (now - e) :: rat) \<le> of_int (1000 * wait k)" "(0 :: rat) \<le> of_int (now - e)" "(of_int (wait k) :: rat) \<le> of_int 8000"
    using assms by (simp_all only: of_int_le_iff of_int_0_le_iff) (simp_all add: wait_def)
  then show ?thesis by (simp add: next_exp_time_def GetDurationMilliSecond_def Let_def field_simps)
qed

lemma schedule_early:
  assumes "ascending (clock w)" "on_schedule a r packet w e0 k e m s" "\<not> 1000 * wait k < clock w !! m - e"
  shows "\<exists>d s'. TimerInLoop call s = Some (d, s') \<and> next_exp_time d \<noteq> None \<and> on_schedule a r packet w e0 k e (Suc m) s'"
proof -
  have "e \<le> clock w !! Suc m" using assms(1,2) order_trans unfolding ascending_def on_schedule_def by blast
  then show ?thesis
    using assms(2,3) waiting_early [of k "sdrop m (clock w)" e call a r packet w] next_exp_time_rest [of e "clock w !! m" k]
    by (auto simp: on_schedule_def)
qed

lemma schedule_due:
  assumes up: "ascending (clock w)" and m: "rq_manager r" "map_of (tx_requests w) (rq_id r) = Some a"
    and wr: "StunMessage_Write (rq_msg r) new_ByteBufferWriter = Some (ok, buf)"
    and s: "on_schedule a r (buf_data buf) w e0 k e m s" "1000 * wait k < clock w !! m - e"
  shows "\<exists>d s'. TimerInLoop send_stun_message s = Some (d, s') \<and> next_exp_time d \<noteq> None \<and>
    farther a r (buf_data buf) w e0 k s'"
  using s
proof (induction "9 - k" arbitrary: k e m s)
  case 0
  then have k: "k = 9" by (simp add: on_schedule_def)
  have "waited 10 = waited 9 + wait 9" using waited_Suc [of 9] by simp
  then have "1000 * STUN_TOTAL_TIMEOUT < clock w !! m - e0"
    using 0 k waited_total by (simp add: on_schedule_def)
  moreover obtain t ms where "s = waiting a r (buf_data buf) w 9 e t ms (sdrop m (clock w))" using 0(2) k by (auto simp: on_schedule_def)
  ultimately show ?case
    using waiting_last [OF m, of "sdrop m (clock w)" e "buf_data buf" t ms] 0(3) k
    by (auto simp: farther_def given_up_def next_exp_time_def)
next
  case (Suc n)
  obtain t ms where sw: "s = waiting a r (buf_data buf) w k e t ms (sdrop m (clock w))" and k: "1 \<le> k" "k < 9"
    using Suc(2,3) by (auto simp: on_schedule_def)
  let ?s = "waiting a r (buf_data buf) w (Suc k) (clock w !! Suc m) (shd ms) (stl ms) (sdrop (Suc (Suc m)) (clock w))"
  have eq: "TimerInLoop send_stun_message s = TimerInLoop send_stun_message ?s"
    using waiting_due [OF m(1) wr k(2), of "sdrop m (clock w)" e a w t ms] Suc(4) sw by simp
  have "clock w !! m \<le> clock w !! Suc m" "clock w !! Suc m \<le> clock w !! Suc (Suc m)" using up unfolding ascending_def by blast+
  then have on: "on_schedule a r (buf_data buf) w e0 (Suc k) (clock w !! Suc m) (Suc (Suc m)) ?s"
    using Suc(3,4) k waited_Suc [of k] by (auto simp: on_schedule_def)
  show ?case
  proof (cases "1000 * wait (Suc k) < clock w !! Suc (Suc m) - clock w !! Suc m")
    case True
    have "n = 9 - Suc k" using Suc(2) by simp
    from Suc(1) [OF this on True] show ?thesis unfolding eq farther_def using Suc_lessD by blast
  next
    case False
    from schedule_early [OF up on False, of send_stun_message] show ?thesis unfolding eq farther_def by blast
  qed
qed

lemma turns_more:
  assumes up: "ascending (clock w)" and m: "rq_manager r" "map_of (tx_requests w) (rq_id r) = Some a"
    and wr: "StunMessage_Write (rq_msg r) new_ByteBufferWriter = Some (ok, buf)"
    and s: "on_schedule a r (buf_data buf) w e0 k e m s" "1000 * wait k < clock w !! (m + i) - e"
  shows "\<exists>n ms' s'. EnterLoop send_stun_message n ms s = Some (ms', s') \<and>
    farther a r (buf_data buf) w e0 k s'"
  using s
proof (induction i arbitrary: m s ms)
  case 0
  then obtain d s' where d: "TimerInLoop send_stun_message s = Some (d, s')" "next_exp_time d \<noteq> None"
      "farther a r (buf_data buf) w e0 k s'"
    using schedule_due [OF up m wr 0(1)] 0(2) unfolding add_0_right by blast
  then show ?case using EnterLoop_one by blast
next
  case (Suc i)
  show ?case
  proof (cases "1000 * wait k < clock w !! m - e")
    case True
    then obtain d s' where d: "TimerInLoop send_stun_message s = Some (d, s')" "next_exp_time d \<noteq> None"
        "farther a r (buf_data buf) w e0 k s'"
      using schedule_due [OF up m wr Suc(2)] by blast
    then show ?thesis using EnterLoop_one by blast
  next
    case False
    then obtain d s1 ms1 where d: "TimerInLoop send_stun_message s = Some (d, s1)" "next_exp_time d = Some ms1"
        "on_schedule a r (buf_data buf) w e0 k e (Suc m) s1"
      using schedule_early [OF up Suc(2), of send_stun_message] by blast
    have "1000 * wait k < clock w !! (Suc m + i) - e" using Suc(3) by (simp only: add_Suc_right add_Suc)
    from Suc(1) [OF d(3) this, of ms1] obtain n ms' s' where "EnterLoop send_stun_message n ms1 s1 = Some (ms', s')"
      "farther a r (buf_data buf) w e0 k s'" by blast
    then show ?thesis using d by (intro exI [of _ "Suc n"]) simp
  qed
qed

lemma later_reading: "unbounded c \<Longrightarrow> ascending c \<Longrightarrow> \<exists>i. t < c !! (m + i)"
proof -
  assume c: "unbounded c" "ascending c"
  then obtain j where "t < c !! j" unfolding unbounded_def by blast
  moreover have "c !! j \<le> c !! (m + j)" 
    by (rule lift_Suc_mono_le [of "snth c"]) (use c(2) in \<open>auto simp only: ascending_def le_add2\<close>)
  ultimately show ?thesis using less_le_trans by blast
qed

lemma turns_end:
  assumes c: "ascending (clock w)" "unbounded (clock w)" and m: "rq_manager r" "map_of (tx_requests w) (rq_id r) = Some a"
    and wr: "StunMessage_Write (rq_msg r) new_ByteBufferWriter = Some (ok, buf)"
    and s: "on_schedule a r (buf_data buf) w e0 k e m s"
  shows "\<exists>n ms' s' m'. EnterLoop send_stun_message n ms s = Some (ms', s') \<and> given_up a (rq_id r) (buf_data buf) w e0 m' s'"
  using s
proof (induction "9 - k" arbitrary: k e m s ms rule: less_induct)
  case less
  obtain i where "1000 * wait k + e < clock w !! (m + i)" using later_reading [OF c(2,1)] by blast
  then have "1000 * wait k < clock w !! (m + i) - e" by simp
  from turns_more [OF c(1) m wr less.prems this, of ms] obtain n ms1 s1 where n: "EnterLoop send_stun_message n ms s = Some (ms1, s1)"
    "farther a r (buf_data buf) w e0 k s1" by blast
  show ?case
  proof (cases "\<exists>m'. given_up a (rq_id r) (buf_data buf) w e0 m' s1")
    case False
    then obtain k' e' m' where k: "k < k'" "on_schedule a r (buf_data buf) w e0 k' e' m' s1" using n(2) unfolding farther_def by blast
    then have "9 - k' < 9 - k" by (auto simp: on_schedule_def)
    from less.hyps [OF this k(2), of ms1] n(1) show ?thesis by (metis (no_types, lifting) EnterLoop_add option.case(2) prod.case)
  qed (use n in blast)
qed

text \<open>No turn fails, and the packets and the timeout come in order.\<close>

definition in_progress :: "nat \<Rightarrow> StunRequest \<Rightarrow> bytes \<Rightarrow> Transactions \<Rightarrow> int \<Rightarrow> Transactions \<Rightarrow> bool" where
  "in_progress a r packet w e0 s \<longleftrightarrow>
     (\<exists>k e m. on_schedule a r packet w e0 k e m s) \<or> (\<exists>m. given_up a (rq_id r) packet w e0 m s)"

lemma turns_safe:
  assumes up: "ascending (clock w)" and m: "rq_manager r" "map_of (tx_requests w) (rq_id r) = Some a"
    and wr: "StunMessage_Write (rq_msg r) new_ByteBufferWriter = Some (ok, buf)"
    and s: "in_progress a r (buf_data buf) w e0 s"
  shows "\<exists>ms' s'. EnterLoop send_stun_message n ms s = Some (ms', s') \<and> in_progress a r (buf_data buf) w e0 s'"
  using s
proof (induction n arbitrary: s ms)
  case (Suc n)
  have "\<exists>d s'. TimerInLoop send_stun_message s = Some (d, s') \<and> next_exp_time d \<noteq> None \<and> in_progress a r (buf_data buf) w e0 s'"
  proof (cases "\<exists>m. given_up a (rq_id r) (buf_data buf) w e0 m s")
    case True
    then have "queue s = []" by (auto simp: given_up_def over_def)
    then show ?thesis using Suc(2) TimerInLoop_idle [of s send_stun_message] by (auto simp: next_exp_time_def)
  next
    case False
    then obtain k e m where on: "on_schedule a r (buf_data buf) w e0 k e m s" using Suc(2) by (auto simp: in_progress_def)
    show ?thesis
      using schedule_early [OF up on, of send_stun_message] schedule_due [OF up assms(2,3) wr on]
      unfolding in_progress_def farther_def by blast
  qed
  then show ?case using Suc(1) by fastforce
qed simp

lemma in_progress_trace:
  assumes "in_progress a r packet w e0 s"
  shows "\<exists>k. 1 \<le> k \<and> k \<le> 10 \<and> tx_trace s = tx_trace w @ take k (replicate 9 (SignalSendPacket packet a) @ [OnTimeout a]) \<and>
    (k \<le> 9 \<longrightarrow> map interval (queue s) = [of_int (wait k) / 1000])"
  using assms unfolding in_progress_def
proof (elim disjE exE)
  fix k e m assume "on_schedule a r packet w e0 k e m s"
  then show ?thesis by (intro exI [of _ k]) (auto simp: on_schedule_def waiting_def min_def)
next
  fix m assume "given_up a (rq_id r) packet w e0 m s"
  then show ?thesis by (intro exI [of _ 10]) (auto simp: given_up_def over_def)
qed

lemma Construct_keeps:
  "Construct Prepare r = Some r1 \<Longrightarrow> rq_count r1 = rq_count r \<and> rq_timeout r1 = rq_timeout r \<and> rq_manager r1 = rq_manager r"
  by (auto simp: Construct_def Let_def split: if_splits option.splits)

section \<open>Properties\<close>

text \<open>C7. A request that is sent and never answered ends. Let no other timer be set and the clock never go back and
  pass every time. Then every turn of the loop ends without a failure; the packet is sent once at first, then the
  loop sends it again each time the timer is over, nine times in all, and then reports the timeout once; at some
  turn the request is gone from the manager and from memory and no timer is left. After the \<open>k\<close>-th packet the timer
  is set to a thousandth of \<open>wait k\<close> milliseconds, so the timeout comes more than \<open>STUN_TOTAL_TIMEOUT\<close> microseconds
  after the first packet: the header means milliseconds, and \<open>RunAfter\<close> gets seconds where it takes milliseconds.\<close>

theorem stun_request_times_out:
  assumes "tx_heap w a = Some r" "\<not> rq_manager r" "rq_count r = 0" "\<not> rq_timeout r"
    and "map_of (tx_requests w) (rq_id r) = None" "queue w = []" "ascending (clock w)" "unbounded (clock w)"
    and con: "Construct Prepare (r\<lparr>rq_manager := True, rq_origin := tx_origin w\<rparr>) = Some r1"
    and wr: "StunMessage_Write (rq_msg r1) new_ByteBufferWriter = Some (ok, buf)"
  shows "\<exists>w1. Send Prepare a w = Some w1 \<and>
    (\<forall>n. \<exists>ms s k. EnterLoop send_stun_message n 1 w1 = Some (ms, s) \<and> 1 \<le> k \<and> k \<le> 10 \<and>
      tx_trace s = tx_trace w @ take k (replicate 9 (SignalSendPacket (buf_data buf) a) @ [OnTimeout a]) \<and>
      (k \<le> 9 \<longrightarrow> map interval (queue s) = [of_int (wait k) / 1000])) \<and>
    (\<exists>n ms s m. EnterLoop send_stun_message n 1 w1 = Some (ms, s) \<and>
      tx_trace s = tx_trace w @ replicate 9 (SignalSendPacket (buf_data buf) a) @ [OnTimeout a] \<and>
      tx_heap s a = None \<and> map_of (tx_requests s) (rq_id r1) = None \<and> queue s = [] \<and>
      clock s = sdrop (Suc m) (clock w) \<and> 1000 * STUN_TOTAL_TIMEOUT < clock w !! m - shd (clock w))"
proof -
  let ?w = "w\<lparr>tx_heap := (tx_heap w)(a \<mapsto> r1), tx_requests := (rq_id r1, a) # filter (\<lambda>p. fst p \<noteq> rq_id r1) (tx_requests w)\<rparr>"
  let ?s = "waiting a r1 (buf_data buf) ?w 1 (shd (clock w)) (shd (tx_millis w)) (stl (tx_millis w)) (stl (clock w))"
  note keep = Construct_keeps [OF con]
  have "Send Prepare a w = send_stun_message a ?w"
    using assms(1,2,5) con by (simp add: Send_def SendDelayed_def rq_id_def)
  also have "\<dots> = Some ?s"
    using send_step [of ?w a r1 0 ok buf] assms(3,4,6) keep wr by (simp add: waiting_def)
  finally have send: "Send Prepare a w = Some ?s" .
  have "clock w !! 0 \<le> clock w !! Suc 0" using assms(7) unfolding ascending_def by blast
  then have on: "on_schedule a r1 (buf_data buf) ?w (shd (clock w)) 1 (shd (clock w)) 1 ?s"
    unfolding on_schedule_def by (auto simp: waited_def)
  have c: "ascending (clock ?w)" "unbounded (clock ?w)" using assms(7,8) by simp_all
  have m: "rq_manager r1" "map_of (tx_requests ?w) (rq_id r1) = Some a" using keep by simp_all
  have "in_progress a r1 (buf_data buf) ?w (shd (clock w)) ?s" using on by (auto simp: in_progress_def)
  from turns_safe [OF c(1) m wr this] in_progress_trace [of a r1 "buf_data buf" ?w "shd (clock w)"]
  have "\<exists>ms s k. EnterLoop send_stun_message n 1 ?s = Some (ms, s) \<and> 1 \<le> k \<and> k \<le> 10 \<and>
      tx_trace s = tx_trace w @ take k (replicate 9 (SignalSendPacket (buf_data buf) a) @ [OnTimeout a]) \<and>
      (k \<le> 9 \<longrightarrow> map interval (queue s) = [of_int (wait k) / 1000])" for n by fastforce
  moreover have "\<exists>n ms s m. EnterLoop send_stun_message n 1 ?s = Some (ms, s) \<and> given_up a (rq_id r1) (buf_data buf) ?w (shd (clock w)) m s"
    using turns_end [OF c m wr on] by blast
  ultimately show ?thesis
    using send by (fastforce simp: given_up_def over_def map_of_filter_key)
qed

definition sample_request :: StunRequest where
  "sample_request = \<lparr>rq_count = 0, rq_timeout = False, rq_origin = [], rq_manager = False, rq_msg = sample_message, rq_tstamp = 0\<rparr>"

definition sample_state :: Transactions where
  "sample_state = \<lparr>queue = [], max_timer = 1024, junk = 3, clock = siterate (\<lambda>t. t + 1000000) 5,
     tx_heap = (\<lambda>_. None)(7 \<mapsto> sample_request), tx_requests = [], tx_origin = [], tx_millis = sconst 1, tx_trace = []\<rparr>"

lemma sample_clock: "ascending (clock sample_state)" "unbounded (clock sample_state)"
proof -
  have n: "siterate (\<lambda>t. t + 1000000) (x :: int) !! n = x + 1000000 * int n" for x n by (induction n arbitrary: x) simp_all
  show "ascending (clock sample_state)" unfolding ascending_def sample_state_def by (simp add: n del: snth.simps)
  have "t < 5 + 1000000 * int (nat t)" for t by simp
  then show "unbounded (clock sample_state)" unfolding unbounded_def sample_state_def by (simp only: HeapTimer.select_convs n) blast
qed

theorem stun_request_times_out_witness:
  "\<exists>w1 n ms s. Send id 7 sample_state = Some w1 \<and> EnterLoop send_stun_message n 1 w1 = Some (ms, s) \<and>
    length (tx_trace s) = 10 \<and> tx_heap s 7 = None \<and> queue s = []"
proof -
  obtain buf where "StunMessage_Write sample_message new_ByteBufferWriter = Some (True, buf)"
    using StunMessage_Write_ok [of sample_message new_ByteBufferWriter] sample_ok by (auto simp: msg_ok_def)
  moreover have "Construct id (sample_request\<lparr>rq_manager := True, rq_origin := tx_origin sample_state\<rparr>) =
      Some (sample_request\<lparr>rq_manager := True, rq_origin := []\<rparr>)"
    by (simp add: Construct_def sample_request_def sample_state_def rq_type_def sample_message_def)
  ultimately show ?thesis
    using stun_request_times_out [OF _ _ _ _ _ _ sample_clock, of 7 sample_request id
        "sample_request\<lparr>rq_manager := True, rq_origin := []\<rparr>" True buf]
    by (fastforce simp: sample_state_def sample_request_def)
qed

text \<open>C16. A response is delivered at most once, and only to the request with its transaction id. With an unknown
  attribute that must be understood it ends the request without delivery; with the wrong type it changes nothing.
  In every case the check returns, the request map stays sound, and a second check of a response that ended its
  request finds nothing.\<close>

theorem stun_response_once:
  assumes "requests_ok w"
  shows "case map_of (tx_requests w) (transaction_id msg) of
      None \<Rightarrow> CheckResponse msg w = Some (False, w)
    | Some a \<Rightarrow> \<exists>r. tx_heap w a = Some r \<and> rq_id r = transaction_id msg \<and>
        (if GetNonComprehendedAttributes msg \<noteq> [] then
           CheckResponse msg w = Some (False, dropped a (transaction_id msg) w)
         else if uint (msg_type msg) = GetStunSuccessResponseType (rq_type r) then
           CheckResponse msg w = Some (True, (dropped a (transaction_id msg) w)\<lparr>tx_trace := tx_trace w @ [OnResponse a msg]\<rparr>)
         else if uint (msg_type msg) = GetStunErrorResponseType (rq_type r) then
           CheckResponse msg w = Some (True, (dropped a (transaction_id msg) w)\<lparr>tx_trace := tx_trace w @ [OnErrorResponse a msg]\<rparr>)
         else CheckResponse msg w = Some (False, w)) \<and>
        requests_ok (dropped a (transaction_id msg) w) \<and>
        CheckResponse msg (dropped a (transaction_id msg) w) = Some (False, dropped a (transaction_id msg) w)"
proof (cases "map_of (tx_requests w) (transaction_id msg)")
  case None
  then show ?thesis by (simp add: CheckResponse_def)
next
  case (Some a)
  then obtain r where r: "tx_heap w a = Some r" "rq_id r = transaction_id msg"
    using requests_ok_lookup [OF assms] by metis
  have "CheckResponse msg (dropped a (transaction_id msg) w) = Some (False, dropped a (transaction_id msg) w)"
    by (simp add: CheckResponse_def dropped_def map_of_filter_key)
  then show ?thesis
    using r Some delete_request_ok [OF assms Some] by (simp add: CheckResponse_def)
qed

theorem stun_response_once_witness:
  "CheckResponse (sample_message\<lparr>msg_type := 0x101, attrs := []\<rparr>)
     (sample_state\<lparr>tx_heap := (\<lambda>_. None)(7 \<mapsto> sample_request\<lparr>rq_manager := True\<rparr>),
        tx_requests := [(transaction_id sample_message, 7)]\<rparr>) =
   Some (True, sample_state\<lparr>tx_heap := \<lambda>_. None, tx_trace := [OnResponse 7 (sample_message\<lparr>msg_type := 0x101, attrs := []\<rparr>)]\<rparr>)"
  using stun_response_once [of "sample_state\<lparr>tx_heap := (\<lambda>_. None)(7 \<mapsto> sample_request\<lparr>rq_manager := True\<rparr>),
        tx_requests := [(transaction_id sample_message, 7)]\<rparr>" "sample_message\<lparr>msg_type := 0x101, attrs := []\<rparr>"]
  by (simp add: requests_ok_def sample_state_def sample_request_def sample_message_def rq_id_def rq_type_def
      GetNonComprehendedAttributes_def GetStunSuccessResponseType_def IsStunRequestType_def kStunTypeMask_def
      dropped_def fun_eq_iff)

section \<open>Where the code and its purpose differ\<close>

text \<open>The timer of a request outlives it: after a response has been delivered, the timer that is still due runs
  on the deleted object.\<close>

lemma response_leaves_timer:
  assumes "requests_ok w" "queue w = [t]" "timer_cb t = a" "strategy t = TIMER_ONESHOT" "IsExpired (shd (clock w)) t"
    and "CheckResponse msg w = Some (True, w')" "map_of (tx_requests w) (transaction_id msg) = Some a"
  shows "TimerInLoop send_stun_message w' = None"
proof -
  obtain r where r: "tx_heap w a = Some r" using requests_ok_lookup [OF assms(1,7)] by blast
  obtain e where "w' = (dropped a (transaction_id msg) w)\<lparr>tx_trace := tx_trace w @ [e]\<rparr>"
    using assms(6,7) r delete_request_ok [OF assms(1,7)] by (auto simp: CheckResponse_def split: if_splits)
  then show ?thesis
    using assms(2-5) by (subst TimerInLoop_due [of _ t]) (simp_all add: send_stun_message_def dropped_def)
qed

text \<open>A request whose id is taken keeps its manager and is in no map: deleting it fails an assertion.\<close>

lemma duplicate_id_not_deletable:
  assumes "tx_heap w a = Some r" "\<not> rq_manager r" "map_of (tx_requests w) (rq_id r) = Some b" "b \<noteq> a"
    and "SendDelayed Prepare a delay w = Some w'"
  shows "delete_request a w' = None"
  using assms by (auto simp: SendDelayed_def delete_request_def Remove_def rq_id_def)

text \<open>A request sent with a positive delay is never sent.\<close>

lemma delayed_request_not_scheduled:
  assumes "SendDelayed Prepare a delay w = Some w'" "0 < delay"
  shows "queue w' = queue w \<and> tx_trace w' = tx_trace w"
  using assms by (auto simp: SendDelayed_def Let_def split: option.splits if_splits)

end
