(* ===== verification/Pseudo_Tcp.thy ===== *)
theory Pseudo_Tcp
  imports Fifo_Buffer Byte_Buffer "HOL-Library.Monad_Syntax"
begin

text \<open>
  \<open>PseudoTcp\<close>, the reliable byte stream over datagrams (\<open>pseudo_tcp.h\<close>, \<open>pseudo_tcp.cc\<close>).

  The object is the record \<open>PseudoTcp\<close> with the members of the class. What the code reads from outside
  is the record \<open>tcp_env\<close>: the millisecond clock and the result of \<open>TcpWritePacket\<close>, both indexed by the
  number of calls made so far (\<open>tcp_calls\<close>), and the bytes of fresh memory. The calls of the notify
  interface, which is assumed to be set, are recorded in \<open>tcp_trace\<close>; a callback that calls back into
  the object is not modelled. A failed assertion, a shift by the width or more, and a use of an
  iterator past the end are \<open>None\<close>. Sequence numbers, windows and times are 32-bit words and compare
  and wrap as in the code.
\<close>

section \<open>Constants and data\<close>

definition PACKET_MAXIMUMS :: "u16 list" where
  "PACKET_MAXIMUMS = [65535, 32000, 17914, 8166, 4352, 2002, 1492, 1006, 508, 296, 0]"

definition MAX_PACKET :: u32 where "MAX_PACKET = 65535"

definition MIN_PACKET :: u32 where "MIN_PACKET = 296"

definition IP_HEADER_SIZE :: u32 where "IP_HEADER_SIZE = 20"

definition UDP_HEADER_SIZE :: u32 where "UDP_HEADER_SIZE = 8"

definition JINGLE_HEADER_SIZE :: u32 where "JINGLE_HEADER_SIZE = 64"

definition DEFAULT_RCV_BUF_SIZE :: u32 where "DEFAULT_RCV_BUF_SIZE = 60 * 1024"

definition DEFAULT_SND_BUF_SIZE :: u32 where "DEFAULT_SND_BUF_SIZE = 90 * 1024"

definition HEADER_SIZE :: u32 where "HEADER_SIZE = 24"

definition PACKET_OVERHEAD :: u32 where
  "PACKET_OVERHEAD = HEADER_SIZE + UDP_HEADER_SIZE + IP_HEADER_SIZE + JINGLE_HEADER_SIZE"

definition MIN_RTO :: u32 where "MIN_RTO = 250"

definition DEF_RTO :: u32 where "DEF_RTO = 3000"

definition MAX_RTO :: u32 where "MAX_RTO = 60000"

definition DEF_ACK_DELAY :: u32 where "DEF_ACK_DELAY = 100"

definition FLAG_CTL :: u8 where "FLAG_CTL = 0x02"

definition FLAG_RST :: u8 where "FLAG_RST = 0x04"

definition CTL_CONNECT :: u8 where "CTL_CONNECT = 0"

definition TCP_OPT_EOL :: u8 where "TCP_OPT_EOL = 0"

definition TCP_OPT_NOOP :: u8 where "TCP_OPT_NOOP = 1"

definition TCP_OPT_MSS :: u8 where "TCP_OPT_MSS = 2"

definition TCP_OPT_WND_SCALE :: u8 where "TCP_OPT_WND_SCALE = 3"

definition DEFAULT_TIMEOUT :: int where "DEFAULT_TIMEOUT = 4000"

definition CLOSED_TIMEOUT :: int where "CLOSED_TIMEOUT = 60 * 1000"

lemmas tcp_constants =
  MAX_PACKET_def MIN_PACKET_def IP_HEADER_SIZE_def UDP_HEADER_SIZE_def JINGLE_HEADER_SIZE_def
  DEFAULT_RCV_BUF_SIZE_def DEFAULT_SND_BUF_SIZE_def HEADER_SIZE_def PACKET_OVERHEAD_def
  MIN_RTO_def DEF_RTO_def MAX_RTO_def DEF_ACK_DELAY_def

datatype WriteResult = WR_SUCCESS | WR_TOO_LARGE | WR_FAIL

datatype TcpState = TCP_LISTEN | TCP_SYN_SENT | TCP_SYN_RECEIVED | TCP_ESTABLISHED | TCP_CLOSED

datatype Option = OPT_NODELAY | OPT_ACKDELAY | OPT_RCVBUF | OPT_SNDBUF

datatype SendFlags = sfNone | sfDelayedAck | sfImmediateAck

datatype Shutdown = SD_NONE | SD_GRACEFUL | SD_FORCEFUL

text \<open>The error numbers of the system headers that the code stores and reports.\<close>

datatype errno = no_error | EINVAL | ENOTCONN | EWOULDBLOCK | ECONNABORTED | ECONNRESET

datatype IPseudoTcpNotify =
  OnTcpOpen | OnTcpReadable | OnTcpWriteable | OnTcpClosed errno | TcpWritePacket bytes WriteResult

record Segment =
  sg_conv :: u32
  sg_seq :: u32
  sg_ack :: u32
  sg_flags :: u8
  sg_wnd :: u16
  sg_data :: bytes
  sg_len :: u32
  sg_tsval :: u32
  sg_tsecr :: u32

record SSegment =
  ss_seq :: u32
  ss_len :: u32
  ss_xmit :: u8
  ss_bCtrl :: bool

definition new_SSegment :: "u32 \<Rightarrow> u32 \<Rightarrow> bool \<Rightarrow> SSegment" where
  "new_SSegment s l c = \<lparr>ss_seq = s, ss_len = l, ss_xmit = 0, ss_bCtrl = c\<rparr>"

record RSegment =
  rs_seq :: u32
  rs_len :: u32

record PseudoTcp =
  m_shutdown :: Shutdown
  m_error :: errno
  m_state :: TcpState
  m_conv :: u32
  m_bReadEnable :: bool
  m_bWriteEnable :: bool
  m_bOutgoing :: bool
  m_lasttraffic :: u32
  m_rlist :: "RSegment list"
  m_rbuf_len :: u32
  m_rcv_nxt :: u32
  m_rcv_wnd :: u32
  m_lastrecv :: u32
  m_rwnd_scale :: u8
  m_rbuf :: FifoBuffer
  m_slist :: "SSegment list"
  m_sbuf_len :: u32
  m_snd_nxt :: u32
  m_snd_wnd :: u32
  m_lastsend :: u32
  m_snd_una :: u32
  m_swnd_scale :: u8
  m_sbuf :: FifoBuffer
  m_mss :: u32
  m_msslevel :: u32
  m_largest :: u32
  m_mtu_advise :: u32
  m_rto_base :: u32
  m_ts_recent :: u32
  m_ts_lastack :: u32
  m_rx_rttvar :: u32
  m_rx_srtt :: u32
  m_rx_rto :: u32
  m_ssthresh :: u32
  m_cwnd :: u32
  m_dup_acks :: u8
  m_recover :: u32
  m_t_ack :: u32
  m_use_nagling :: bool
  m_ack_delay :: u32
  m_support_wnd_scale :: bool
  tcp_calls :: nat
  tcp_trace :: "IPseudoTcpNotify list"

record tcp_env =
  env_now :: "nat \<Rightarrow> u32"
  env_write :: "nat \<Rightarrow> bytes \<Rightarrow> WriteResult"
  env_fresh :: "nat \<Rightarrow> u8"

section \<open>Environment and helpers\<close>

definition Now :: "tcp_env \<Rightarrow> PseudoTcp \<Rightarrow> u32 \<times> PseudoTcp" where
  "Now e s = (env_now e (tcp_calls s), s\<lparr>tcp_calls := Suc (tcp_calls s)\<rparr>)"

definition notify :: "IPseudoTcpNotify \<Rightarrow> PseudoTcp \<Rightarrow> PseudoTcp" where
  "notify ev s = s\<lparr>tcp_trace := tcp_trace s @ [ev]\<rparr>"

definition write_packet :: "tcp_env \<Rightarrow> bytes \<Rightarrow> PseudoTcp \<Rightarrow> WriteResult \<times> PseudoTcp" where
  "write_packet e pkt s =
     (let wres = env_write e (tcp_calls s) pkt
      in (wres, notify (TcpWritePacket pkt wres) (s\<lparr>tcp_calls := Suc (tcp_calls s)\<rparr>)))"

definition fresh_memory :: "tcp_env \<Rightarrow> u32 \<Rightarrow> bytes" where
  "fresh_memory e n = map (env_fresh e) [0..<unat n]"

definition TimeDiff32 :: "u32 \<Rightarrow> u32 \<Rightarrow> int" where
  "TimeDiff32 later earlier = sint (later - earlier)"

definition long_to_bytes :: "u32 \<Rightarrow> bytes" where
  "long_to_bytes val = obj_bytes 4 (HostToNetwork32 val)"

definition short_to_bytes :: "u16 \<Rightarrow> bytes" where
  "short_to_bytes val = obj_bytes 2 (HostToNetwork16 val)"

definition bytes_to_long :: "bytes \<Rightarrow> u32" where
  "bytes_to_long buf = NetworkToHost32 (obj_load (take 4 buf))"

definition bytes_to_short :: "bytes \<Rightarrow> u16" where
  "bytes_to_short buf = NetworkToHost16 (obj_load (take 2 buf))"

text \<open>The shifts of 32-bit values by a scale factor, which are undefined from 32 on.\<close>

definition shift_left :: "u32 \<Rightarrow> u8 \<Rightarrow> u32 option" where
  "shift_left v k = (if unat k < 32 then Some (push_bit (unat k) v) else None)"

definition shift_right :: "u32 \<Rightarrow> u8 \<Rightarrow> u32 option" where
  "shift_right v k = (if unat k < 32 then Some (drop_bit (unat k) v) else None)"

section \<open>Construction, buffers and options\<close>

definition new_PseudoTcp :: "tcp_env \<Rightarrow> u32 \<Rightarrow> PseudoTcp" where
  "new_PseudoTcp e conv =
     (let now = env_now e 0; mss = MIN_PACKET - PACKET_OVERHEAD in
      \<lparr>m_shutdown = SD_NONE, m_error = no_error, m_state = TCP_LISTEN, m_conv = conv,
       m_bReadEnable = True, m_bWriteEnable = False, m_bOutgoing = False, m_lasttraffic = now,
       m_rlist = [], m_rbuf_len = DEFAULT_RCV_BUF_SIZE, m_rcv_nxt = 0, m_rcv_wnd = DEFAULT_RCV_BUF_SIZE,
       m_lastrecv = now, m_rwnd_scale = 0, m_rbuf = new_FifoBuffer (fresh_memory e DEFAULT_RCV_BUF_SIZE),
       m_slist = [], m_sbuf_len = DEFAULT_SND_BUF_SIZE, m_snd_nxt = 0, m_snd_wnd = 1, m_lastsend = now,
       m_snd_una = 0, m_swnd_scale = 0, m_sbuf = new_FifoBuffer (fresh_memory e DEFAULT_SND_BUF_SIZE),
       m_mss = mss, m_msslevel = 0, m_largest = 0, m_mtu_advise = MAX_PACKET, m_rto_base = 0,
       m_ts_recent = 0, m_ts_lastack = 0, m_rx_rttvar = 0, m_rx_srtt = 0, m_rx_rto = DEF_RTO,
       m_ssthresh = DEFAULT_RCV_BUF_SIZE, m_cwnd = 2 * mss, m_dup_acks = 0, m_recover = 0, m_t_ack = 0,
       m_use_nagling = True, m_ack_delay = DEF_ACK_DELAY, m_support_wnd_scale = True,
       tcp_calls = 1, tcp_trace = []\<rparr>)"

definition closedown :: "errno \<Rightarrow> PseudoTcp \<Rightarrow> PseudoTcp" where
  "closedown err s = notify (OnTcpClosed err) (s\<lparr>m_state := TCP_CLOSED\<rparr>)"

fun adjust_level :: "u32 \<Rightarrow> u16 list \<Rightarrow> u32 \<Rightarrow> u32" where
  "adjust_level advise (p # q # rest) level =
     (if q > 0 then if ucast p \<le> advise then level else adjust_level advise (q # rest) (level + 1)
      else level)"
| "adjust_level advise ps level = level"

definition adjustMTU :: "PseudoTcp \<Rightarrow> PseudoTcp" where
  "adjustMTU s =
     (let mss = m_mtu_advise s - PACKET_OVERHEAD in
      s\<lparr>m_msslevel := adjust_level (m_mtu_advise s) PACKET_MAXIMUMS 0, m_mss := mss,
        m_ssthresh := max (m_ssthresh s) (2 * mss), m_cwnd := max (m_cwnd s) mss\<rparr>)"

definition isReceiveBufferFull :: "PseudoTcp \<Rightarrow> bool" where
  "isReceiveBufferFull s \<longleftrightarrow> GetWriteRemaining (m_rbuf s) = 0"

definition disableWindowScale :: "PseudoTcp \<Rightarrow> PseudoTcp" where
  "disableWindowScale s = s\<lparr>m_support_wnd_scale := False\<rparr>"

definition resizeSendBuffer :: "tcp_env \<Rightarrow> u32 \<Rightarrow> PseudoTcp \<Rightarrow> PseudoTcp" where
  "resizeSendBuffer e new_size s =
     s\<lparr>m_sbuf_len := new_size, m_sbuf := snd (SetCapacity (fresh_memory e new_size) (m_sbuf s))\<rparr>"

function scale_size :: "u8 \<Rightarrow> u32 \<Rightarrow> u8 \<times> u32" where
  "scale_size scale_factor new_size =
     (if new_size > 0xFFFF then scale_size (scale_factor + 1) (drop_bit 1 new_size)
      else (scale_factor, new_size))"
  by pat_completeness auto
termination
proof (relation "measure (\<lambda>(_, n). unat n)")
  fix k :: u8 and n :: u32
  assume "n > 0xFFFF"
  then have "0 < unat n" by (simp add: word_less_nat_alt)
  then show "((k + 1, drop_bit 1 n), (k, n)) \<in> measure (\<lambda>(_, n). unat n)"
    by (simp add: drop_bit_eq_div unat_div)
qed simp

declare scale_size.simps [simp del]

definition resizeReceiveBuffer :: "tcp_env \<Rightarrow> u32 \<Rightarrow> PseudoTcp \<Rightarrow> PseudoTcp option" where
  "resizeReceiveBuffer e new_size s =
     (case scale_size 0 new_size of
        (scale_factor, scaled) \<Rightarrow> do {
          size \<leftarrow> shift_left scaled scale_factor;
          (case SetCapacity (fresh_memory e size) (m_rbuf s) of
             (result, rbuf) \<Rightarrow>
               if \<not> result then None
               else Some (s\<lparr>m_rbuf := rbuf, m_rbuf_len := size, m_rwnd_scale := scale_factor,
                            m_ssthresh := size, m_rcv_wnd := of_nat (GetWriteRemaining rbuf)\<rparr>))
        })"

definition GetOption :: "Option \<Rightarrow> PseudoTcp \<Rightarrow> int" where
  "GetOption opt s =
     (case opt of
        OPT_NODELAY \<Rightarrow> if m_use_nagling s then 0 else 1
      | OPT_ACKDELAY \<Rightarrow> sint (m_ack_delay s)
      | OPT_SNDBUF \<Rightarrow> sint (m_sbuf_len s)
      | OPT_RCVBUF \<Rightarrow> sint (m_rbuf_len s))"

definition SetOption :: "tcp_env \<Rightarrow> Option \<Rightarrow> int \<Rightarrow> PseudoTcp \<Rightarrow> PseudoTcp option" where
  "SetOption e opt value s =
     (case opt of
        OPT_NODELAY \<Rightarrow> Some (s\<lparr>m_use_nagling := (value = 0)\<rparr>)
      | OPT_ACKDELAY \<Rightarrow> Some (s\<lparr>m_ack_delay := word_of_int value\<rparr>)
      | OPT_SNDBUF \<Rightarrow>
          if m_state s = TCP_LISTEN then Some (resizeSendBuffer e (word_of_int value) s) else None
      | OPT_RCVBUF \<Rightarrow>
          if m_state s = TCP_LISTEN then resizeReceiveBuffer e (word_of_int value) s else None)"

definition GetCongestionWindow :: "PseudoTcp \<Rightarrow> u32" where
  "GetCongestionWindow s = m_cwnd s"

definition GetBytesInFlight :: "PseudoTcp \<Rightarrow> u32" where
  "GetBytesInFlight s = m_snd_nxt s - m_snd_una s"

definition GetBytesBufferedNotSent :: "PseudoTcp \<Rightarrow> u32" where
  "GetBytesBufferedNotSent s = m_snd_una s + of_nat (GetBuffered (m_sbuf s)) - m_snd_nxt s"

definition GetRoundTripTimeEstimateMs :: "PseudoTcp \<Rightarrow> u32" where
  "GetRoundTripTimeEstimateMs s = m_rx_srtt s"

definition PseudoTcp_Close :: "bool \<Rightarrow> PseudoTcp \<Rightarrow> PseudoTcp" where
  "PseudoTcp_Close force s = s\<lparr>m_shutdown := (if force then SD_FORCEFUL else SD_GRACEFUL)\<rparr>"

definition GetError :: "PseudoTcp \<Rightarrow> errno" where
  "GetError s = m_error s"

section \<open>Sending\<close>

definition queue :: "bytes \<Rightarrow> u32 \<Rightarrow> bool \<Rightarrow> PseudoTcp \<Rightarrow> (u32 \<times> PseudoTcp) option" where
  "queue data len0 bCtrl s =
     (let available_space = of_nat (GetWriteRemaining (m_sbuf s)) in
      if len0 > available_space \<and> bCtrl then None
      else
        (let len = (if len0 > available_space then available_space else len0);
             slist = (if m_slist s \<noteq> [] \<and> ss_bCtrl (last (m_slist s)) = bCtrl \<and> ss_xmit (last (m_slist s)) = 0
                      then butlast (m_slist s) @
                        [(last (m_slist s))\<lparr>ss_len := ss_len (last (m_slist s)) + len\<rparr>]
                      else m_slist s @
                        [new_SSegment (m_snd_una s + of_nat (GetBuffered (m_sbuf s))) len bCtrl])
         in case Write (take (unat len) data) (m_sbuf s) of
              (result, written, sbuf) \<Rightarrow> Some (of_nat written, s\<lparr>m_slist := slist, m_sbuf := sbuf\<rparr>)))"

definition packet :: "tcp_env \<Rightarrow> u32 \<Rightarrow> u8 \<Rightarrow> u32 \<Rightarrow> u32 \<Rightarrow> PseudoTcp \<Rightarrow> (WriteResult \<times> PseudoTcp) option" where
  "packet e seq flags offset len s0 =
     (if \<not> HEADER_SIZE + len \<le> MAX_PACKET then None
      else case Now e s0 of (now, s) \<Rightarrow> do {
        wnd \<leftarrow> shift_right (m_rcv_wnd s) (m_rwnd_scale s);
        payload \<leftarrow>
          (if len \<noteq> 0 then
             (case ReadOffset (unat len) (unat offset) (m_sbuf s) of
                (result, bs) \<Rightarrow> if result = SR_SUCCESS \<and> of_nat (length bs) = len then Some bs else None)
           else Some []);
        (let header = long_to_bytes (m_conv s) @ long_to_bytes seq @ long_to_bytes (m_rcv_nxt s) @
               [0, flags] @ short_to_bytes (ucast wnd) @ long_to_bytes now @ long_to_bytes (m_ts_recent s)
         in case write_packet e (header @ payload) (s\<lparr>m_ts_lastack := m_rcv_nxt s\<rparr>) of
              (wres, s') \<Rightarrow>
                if wres \<noteq> WR_SUCCESS \<and> len \<noteq> 0 then Some (wres, s')
                else Some (WR_SUCCESS,
                  s'\<lparr>m_t_ack := 0, m_lastsend := (if len > 0 then now else m_lastsend s'),
                     m_lasttraffic := now, m_bOutgoing := True\<rparr>))
      })"

definition levels_left :: "u32 \<Rightarrow> nat" where
  "levels_left level = 11 - unat (level + 1)"

lemma levels_left_Suc:
  assumes "unat (level + 1) < 11"
  shows "levels_left (level + 1) < levels_left level"
proof -
  have "unat (level + 1 + 1) = unat (level + 1) + 1"
    using assms unat_word_ariths(1) [of "level + 1" 1] by simp
  with assms show ?thesis by (simp add: levels_left_def)
qed

text \<open>The inner loop of \<open>transmit\<close>, which steps down the table of packet sizes.\<close>

function lower_mss :: "u32 \<Rightarrow> PseudoTcp \<Rightarrow> (bool \<times> PseudoTcp) option" where
  "lower_mss nTransmit s =
     (let k = unat (m_msslevel s + 1) in
      if k \<ge> length PACKET_MAXIMUMS then None
      else if PACKET_MAXIMUMS ! k = 0 then Some (False, s)
      else
        (let mss = ucast (PACKET_MAXIMUMS ! k) - PACKET_OVERHEAD;
             s' = s\<lparr>m_msslevel := m_msslevel s + 1, m_mss := mss, m_cwnd := 2 * mss\<rparr>
         in if mss < nTransmit then Some (True, s') else lower_mss nTransmit s'))"
  by pat_completeness auto
termination
  by (relation "measure (\<lambda>(_, s). levels_left (m_msslevel s))")
    (auto simp: PACKET_MAXIMUMS_def intro: levels_left_Suc)

declare lower_mss.simps [simp del]

lemma lower_mss_level:
  "lower_mss n s = Some (True, s') \<Longrightarrow> levels_left (m_msslevel s') < levels_left (m_msslevel s)"
proof (induction n s rule: lower_mss.induct)
  case (1 n s)
  let ?s' = "s\<lparr>m_msslevel := m_msslevel s + 1,
      m_mss := ucast (PACKET_MAXIMUMS ! unat (m_msslevel s + 1)) - PACKET_OVERHEAD,
      m_cwnd := 2 * (ucast (PACKET_MAXIMUMS ! unat (m_msslevel s + 1)) - PACKET_OVERHEAD)\<rparr>"
  have k: "unat (m_msslevel s + 1) < length PACKET_MAXIMUMS" "PACKET_MAXIMUMS ! unat (m_msslevel s + 1) \<noteq> 0"
    using 1(2) by (subst (asm) lower_mss.simps, auto simp: Let_def split: if_splits)+
  then have lt: "levels_left (m_msslevel s + 1) < levels_left (m_msslevel s)"
    by (intro levels_left_Suc) (simp add: PACKET_MAXIMUMS_def)
  have "s' = ?s' \<or> levels_left (m_msslevel s') < levels_left (m_msslevel ?s')"
    using 1 k by (subst (asm) (2) lower_mss.simps) (auto simp: Let_def split: if_splits)
  with lt show ?case by auto
qed

text \<open>What \<open>packet\<close> and \<open>lower_mss\<close> leave unchanged.\<close>

definition send_frame :: "PseudoTcp \<Rightarrow> PseudoTcp" where
  "send_frame s = s\<lparr>tcp_calls := 0, tcp_trace := [], m_ts_lastack := 0, m_t_ack := 0, m_lastsend := 0,
     m_lasttraffic := 0, m_bOutgoing := False, m_msslevel := 0, m_mss := 0, m_cwnd := 0\<rparr>"

lemma send_frame_iff:
  "send_frame s' = send_frame s \<longleftrightarrow>
   m_shutdown s' = m_shutdown s \<and> m_error s' = m_error s \<and> m_state s' = m_state s \<and> m_conv s' = m_conv s \<and>
   m_bReadEnable s' = m_bReadEnable s \<and> m_bWriteEnable s' = m_bWriteEnable s \<and> m_rlist s' = m_rlist s \<and>
   m_rbuf_len s' = m_rbuf_len s \<and> m_rcv_nxt s' = m_rcv_nxt s \<and> m_rcv_wnd s' = m_rcv_wnd s \<and>
   m_lastrecv s' = m_lastrecv s \<and> m_rwnd_scale s' = m_rwnd_scale s \<and> m_rbuf s' = m_rbuf s \<and>
   m_slist s' = m_slist s \<and> m_sbuf_len s' = m_sbuf_len s \<and> m_snd_nxt s' = m_snd_nxt s \<and>
   m_snd_wnd s' = m_snd_wnd s \<and> m_snd_una s' = m_snd_una s \<and> m_swnd_scale s' = m_swnd_scale s \<and>
   m_sbuf s' = m_sbuf s \<and> m_largest s' = m_largest s \<and> m_mtu_advise s' = m_mtu_advise s \<and>
   m_rto_base s' = m_rto_base s \<and> m_ts_recent s' = m_ts_recent s \<and> m_rx_rttvar s' = m_rx_rttvar s \<and>
   m_rx_srtt s' = m_rx_srtt s \<and> m_rx_rto s' = m_rx_rto s \<and> m_ssthresh s' = m_ssthresh s \<and>
   m_dup_acks s' = m_dup_acks s \<and> m_recover s' = m_recover s \<and> m_use_nagling s' = m_use_nagling s \<and>
   m_ack_delay s' = m_ack_delay s \<and> m_support_wnd_scale s' = m_support_wnd_scale s"
  by (cases s; cases s') (auto simp: send_frame_def)

lemma packet_frame:
  assumes "packet e seq flags off len s = Some (w, s')"
  shows "send_frame s' = send_frame s \<and> m_msslevel s' = m_msslevel s \<and> m_mss s' = m_mss s \<and> m_cwnd s' = m_cwnd s"
  using assms by (auto simp: packet_def Now_def write_packet_def notify_def Let_def send_frame_def
      split: if_splits prod.splits Option.bind_splits)

text \<open>The segment size stays or becomes one of the table, and the level stays in the table.\<close>

definition mss_change :: "PseudoTcp \<Rightarrow> PseudoTcp \<Rightarrow> bool" where
  "mss_change s s' \<longleftrightarrow>
     (m_mss s' = m_mss s \<or> 180 \<le> m_mss s' \<and> m_mss s' \<le> 65419) \<and>
     (unat (m_msslevel s) \<le> 9 \<longrightarrow> unat (m_msslevel s') \<le> 9)"

lemma mss_change_refl: "m_mss s' = m_mss s \<Longrightarrow> m_msslevel s' = m_msslevel s \<Longrightarrow> mss_change s s'"
  by (simp add: mss_change_def)

lemma mss_change_trans: "mss_change s s' \<Longrightarrow> mss_change s' s'' \<Longrightarrow> mss_change s s''"
  by (auto simp: mss_change_def)

lemma lower_mss_frame:
  "lower_mss n s = Some (ok, s') \<Longrightarrow>
   send_frame s' = send_frame s \<and>
   mss_change s s' \<and>
   (ok \<longrightarrow> 180 \<le> m_mss s' \<and> m_mss s' \<le> 65419 \<and> m_mss s' < n)"
proof (induction n s rule: lower_mss.induct)
  case (1 n s)
  let ?k = "unat (m_msslevel s + 1)"
  let ?s' = "s\<lparr>m_msslevel := m_msslevel s + 1, m_mss := ucast (PACKET_MAXIMUMS ! ?k) - PACKET_OVERHEAD,
      m_cwnd := 2 * (ucast (PACKET_MAXIMUMS ! ?k) - PACKET_OVERHEAD)\<rparr>"
  have big: "180 \<le> m_mss ?s' \<and> m_mss ?s' \<le> 65419 \<and> unat (m_msslevel ?s') \<le> 9" if "PACKET_MAXIMUMS ! ?k \<noteq> 0" "?k < 11"
  proof -
    have "\<forall>k < 11. PACKET_MAXIMUMS ! k \<noteq> 0 \<longrightarrow>
        180 \<le> (ucast (PACKET_MAXIMUMS ! k) - PACKET_OVERHEAD :: u32) \<and>
        (ucast (PACKET_MAXIMUMS ! k) - PACKET_OVERHEAD :: u32) \<le> 65419 \<and> k \<le> 9" by code_simp
    with that show ?thesis by simp
  qed
  show ?case
  proof (cases "?k < 11 \<and> PACKET_MAXIMUMS ! ?k \<noteq> 0")
    case True
    have "length PACKET_MAXIMUMS = 11" by (simp add: PACKET_MAXIMUMS_def)
    with True 1(2) have "(ok, s') = (True, ?s') \<and> m_mss ?s' < n \<or> \<not> m_mss ?s' < n \<and> lower_mss n ?s' = Some (ok, s')"
      by (subst (asm) lower_mss.simps) (auto simp: Let_def split: if_splits)
    then show ?thesis
    proof
      assume "\<not> m_mss ?s' < n \<and> lower_mss n ?s' = Some (ok, s')"
      with 1(1) [OF refl _ _ refl refl] True have
        "send_frame s' = send_frame ?s'"
        "mss_change ?s' s'"
        "ok \<longrightarrow> 180 \<le> m_mss s' \<and> m_mss s' \<le> 65419 \<and> m_mss s' < n"
        by (auto simp: PACKET_MAXIMUMS_def)
      with big True show ?thesis by (auto simp: send_frame_def mss_change_def)
    qed (use big True in \<open>auto simp: send_frame_def mss_change_def\<close>)
  next
    case False
    with 1(2) have "s' = s \<and> \<not> ok"
      by (subst (asm) lower_mss.simps) (auto simp: Let_def PACKET_MAXIMUMS_def split: if_splits)
    then show ?thesis by (simp add: mss_change_def)
  qed
qed

text \<open>The outer loop of \<open>transmit\<close>: the number of bytes sent, or none when the packet failed.\<close>

function transmit_loop :: "tcp_env \<Rightarrow> SSegment \<Rightarrow> u32 \<Rightarrow> PseudoTcp \<Rightarrow> (u32 option \<times> PseudoTcp) option" where
  "transmit_loop e seg nTransmit s = do {
     (wres, s1) \<leftarrow>
       packet e (ss_seq seg) (if ss_bCtrl seg then FLAG_CTL else 0) (ss_seq seg - m_snd_una s) nTransmit s;
     (case wres of
        WR_SUCCESS \<Rightarrow> Some (Some nTransmit, s1)
      | WR_FAIL \<Rightarrow> Some (None, s1)
      | WR_TOO_LARGE \<Rightarrow> do {
          (ok, s2) \<leftarrow> lower_mss nTransmit s1;
          (if ok then transmit_loop e seg (m_mss s2) s2 else Some (None, s2))
        })
   }"
  by pat_completeness auto
termination
proof (relation "measure (\<lambda>(_, _, _, s). levels_left (m_msslevel s))")
  fix e seg n s p wres s1 q ok s2
  assume "packet e (ss_seq seg) (if ss_bCtrl seg then FLAG_CTL else 0) (ss_seq seg - m_snd_una s) n s = Some p"
    "(wres, s1) = p" "lower_mss n s1 = Some q" "(ok, s2) = q" ok
  then have p: "packet e (ss_seq seg) (if ss_bCtrl seg then FLAG_CTL else 0) (ss_seq seg - m_snd_una s) n s = Some (wres, s1)"
    and l: "lower_mss n s1 = Some (True, s2)" by auto
  have "m_msslevel s1 = m_msslevel s" using packet_frame [OF p] by simp
  then show "((e, seg, m_mss s2, s2), e, seg, n, s) \<in> measure (\<lambda>(_, _, _, s). levels_left (m_msslevel s))"
    using lower_mss_level [OF l] by simp
qed simp

declare transmit_loop.simps [simp del]

definition transmit :: "tcp_env \<Rightarrow> nat \<Rightarrow> u32 \<Rightarrow> PseudoTcp \<Rightarrow> (bool \<times> PseudoTcp) option" where
  "transmit e i now s =
     (if i \<ge> length (m_slist s) then None
      else let seg = m_slist s ! i in
        if ss_xmit seg \<ge> (if m_state s = TCP_ESTABLISHED then 15 else 30) then Some (False, s)
        else do {
          (sent, s1) \<leftarrow> transmit_loop e seg (min (ss_len seg) (m_mss s)) s;
          (case sent of
             None \<Rightarrow> Some (False, s1)
           | Some nTransmit \<Rightarrow>
               (let seg1 = (if nTransmit < ss_len seg then seg\<lparr>ss_len := nTransmit\<rparr> else seg);
                    sub = (if nTransmit < ss_len seg
                           then [(new_SSegment (ss_seq seg + nTransmit) (ss_len seg - nTransmit) (ss_bCtrl seg))
                                   \<lparr>ss_xmit := ss_xmit seg\<rparr>]
                           else []);
                    snd_nxt = (if ss_xmit seg = 0 then m_snd_nxt s1 + ss_len seg1 else m_snd_nxt s1)
                in Some (True,
                     s1\<lparr>m_slist := take i (m_slist s1) @ seg1\<lparr>ss_xmit := ss_xmit seg + 1\<rparr> # sub @
                          drop (Suc i) (m_slist s1),
                        m_snd_nxt := snd_nxt,
                        m_rto_base := (if m_rto_base s1 = 0 then now else m_rto_base s1)\<rparr>)))
        })"

lemma transmit_loop_frame:
  "transmit_loop e seg n s = Some (sent, s') \<Longrightarrow>
   send_frame s' = send_frame s \<and>
   mss_change s s' \<and>
   (\<forall>k. sent = Some k \<longrightarrow> k \<le> n \<and> (0 < n \<longrightarrow> 0 < k))"
proof (induction e seg n s rule: transmit_loop.induct)
  case (1 e seg n s)
  let ?p = "packet e (ss_seq seg) (if ss_bCtrl seg then FLAG_CTL else 0) (ss_seq seg - m_snd_una s) n s"
  from 1(2) obtain wres s1 where p: "?p = Some (wres, s1)"
    by (subst (asm) transmit_loop.simps) (auto split: Option.bind_splits)
  note f1 = packet_frame [OF p]
  show ?case
  proof (cases "wres = WR_TOO_LARGE")
    case False
    with 1(2) p have "s' = s1 \<and> (sent = None \<or> sent = Some n)"
      by (subst (asm) transmit_loop.simps) (auto split: WriteResult.splits)
    with f1 show ?thesis by (auto simp: mss_change_def)
  next
    case True
    with 1(2) p obtain ok s2 where l: "lower_mss n s1 = Some (ok, s2)"
      and r: "if ok then transmit_loop e seg (m_mss s2) s2 = Some (sent, s') else s' = s2 \<and> sent = None"
      by (subst (asm) transmit_loop.simps) (auto split: Option.bind_splits if_splits)
    note f2 = lower_mss_frame [OF l]
    show ?thesis
    proof (cases ok)
      case True
      with \<open>wres = WR_TOO_LARGE\<close> 1(1) [OF p refl _ l refl] r have
        "send_frame s' = send_frame s2 \<and> mss_change s2 s' \<and>
         (\<forall>k. sent = Some k \<longrightarrow> k \<le> m_mss s2 \<and> (0 < m_mss s2 \<longrightarrow> 0 < k))" by simp
      moreover have "0 < m_mss s2" "m_mss s2 \<le> n" using f2 True by (auto intro: less_le_trans [of 0 "180 :: u32"])
      ultimately show ?thesis using f1 f2 True by (auto simp: mss_change_def intro: order_trans)
    qed (use r f1 f2 in \<open>auto simp: mss_change_def\<close>)
  qed
qed

text \<open>What \<open>transmit\<close> and \<open>attemptSend\<close> leave unchanged.\<close>

definition out_frame :: "PseudoTcp \<Rightarrow> PseudoTcp" where
  "out_frame s = (send_frame s)\<lparr>m_slist := [], m_snd_nxt := 0, m_rto_base := 0\<rparr>"

lemma out_frame_iff:
  "out_frame s' = out_frame s \<longleftrightarrow>
   m_shutdown s' = m_shutdown s \<and> m_error s' = m_error s \<and> m_state s' = m_state s \<and> m_conv s' = m_conv s \<and>
   m_bReadEnable s' = m_bReadEnable s \<and> m_bWriteEnable s' = m_bWriteEnable s \<and> m_rlist s' = m_rlist s \<and>
   m_rbuf_len s' = m_rbuf_len s \<and> m_rcv_nxt s' = m_rcv_nxt s \<and> m_rcv_wnd s' = m_rcv_wnd s \<and>
   m_lastrecv s' = m_lastrecv s \<and> m_rwnd_scale s' = m_rwnd_scale s \<and> m_rbuf s' = m_rbuf s \<and>
   m_sbuf_len s' = m_sbuf_len s \<and> m_snd_wnd s' = m_snd_wnd s \<and> m_snd_una s' = m_snd_una s \<and>
   m_swnd_scale s' = m_swnd_scale s \<and> m_sbuf s' = m_sbuf s \<and> m_largest s' = m_largest s \<and>
   m_mtu_advise s' = m_mtu_advise s \<and> m_ts_recent s' = m_ts_recent s \<and> m_rx_rttvar s' = m_rx_rttvar s \<and>
   m_rx_srtt s' = m_rx_srtt s \<and> m_rx_rto s' = m_rx_rto s \<and> m_ssthresh s' = m_ssthresh s \<and>
   m_dup_acks s' = m_dup_acks s \<and> m_recover s' = m_recover s \<and> m_use_nagling s' = m_use_nagling s \<and>
   m_ack_delay s' = m_ack_delay s \<and> m_support_wnd_scale s' = m_support_wnd_scale s"
  by (cases s; cases s') (auto simp: out_frame_def send_frame_def)

lemma out_frame_send: "send_frame s' = send_frame s \<Longrightarrow> out_frame s' = out_frame s"
  by (simp add: out_frame_def)

text \<open>The list of segments after \<open>k\<close> bytes of the segment at index \<open>i\<close> have been sent.\<close>

definition sent_list :: "nat \<Rightarrow> u32 \<Rightarrow> SSegment list \<Rightarrow> SSegment list" where
  "sent_list i k l =
     (let g = l ! i in
      take i l @ g\<lparr>ss_len := k, ss_xmit := ss_xmit g + 1\<rparr> #
        (if k < ss_len g
         then [\<lparr>ss_seq = ss_seq g + k, ss_len = ss_len g - k, ss_xmit = ss_xmit g, ss_bCtrl = ss_bCtrl g\<rparr>]
         else []) @ drop (Suc i) l)"

lemma transmit_fail:
  "transmit e i now s = Some (False, s') \<Longrightarrow>
   send_frame s' = send_frame s \<and> mss_change s s'"
  by (auto simp: transmit_def Let_def intro: mss_change_refl split: if_splits Option.bind_splits option.splits
      dest!: transmit_loop_frame)

lemma transmit_sent:
  assumes "transmit e i now s = Some (True, s')"
  shows "\<exists>k. i < length (m_slist s) \<and> k \<le> ss_len (m_slist s ! i) \<and> k \<le> m_mss s \<and>
    (0 < ss_len (m_slist s ! i) \<and> 0 < m_mss s \<longrightarrow> 0 < k) \<and> ss_xmit (m_slist s ! i) < 30 \<and>
    m_slist s' = sent_list i k (m_slist s) \<and>
    m_snd_nxt s' = (if ss_xmit (m_slist s ! i) = 0 then m_snd_nxt s + k else m_snd_nxt s) \<and>
    out_frame s' = out_frame s \<and> mss_change s s'"
proof -
  let ?seg = "m_slist s ! i"
  from assms have i: "i < length (m_slist s)" and x: "ss_xmit ?seg < (if m_state s = TCP_ESTABLISHED then 15 else 30)"
    by (auto simp: transmit_def Let_def not_le split: if_splits)
  with assms obtain k s1 where l: "transmit_loop e ?seg (min (ss_len ?seg) (m_mss s)) s = Some (Some k, s1)"
    by (auto simp: transmit_def Let_def not_le split: if_splits Option.bind_splits option.splits)
  note f = transmit_loop_frame [OF l]
  have k: "k \<le> min (ss_len ?seg) (m_mss s)" using f by simp
  then have kl: "k \<le> ss_len ?seg" and km: "k \<le> m_mss s" by simp_all
  have eq: "s' = s1\<lparr>m_slist := sent_list i k (m_slist s1),
      m_snd_nxt := (if ss_xmit ?seg = 0 then m_snd_nxt s1 + k else m_snd_nxt s1),
      m_rto_base := (if m_rto_base s1 = 0 then now else m_rto_base s1)\<rparr>"
  proof -
    have sl: "m_slist s1 ! i = ?seg" using f by (simp add: send_frame_iff)
    have "ss_len ?seg = k" if "\<not> k < ss_len ?seg" using that kl by simp
    then have seg: "(if k < ss_len ?seg then ?seg\<lparr>ss_len := k\<rparr> else ?seg) = ?seg\<lparr>ss_len := k\<rparr>" by auto
    show ?thesis
      using assms i x by (simp add: transmit_def Let_def not_le not_less l seg sent_list_def new_SSegment_def sl
          split: if_split_asm)
  qed
  have "out_frame s' = out_frame s1" unfolding eq by (simp add: out_frame_def send_frame_def)
  moreover have "out_frame s1 = out_frame s" using f by (blast intro: out_frame_send)
  moreover have "m_slist s1 = m_slist s" "m_snd_nxt s1 = m_snd_nxt s" using f by (simp_all add: send_frame_iff)
  moreover have "ss_xmit ?seg < 30" using x by (auto split: if_splits intro: less_trans)
  ultimately show ?thesis
    using f i kl km by (intro exI [of _ k]) (simp add: eq mss_change_def)
qed

section \<open>The send loop\<close>

definition next_unsent :: "SSegment list \<Rightarrow> nat option" where
  "next_unsent l =
     (let i = length (takeWhile (\<lambda>g. ss_xmit g > 0) l) in if i < length l then Some i else None)"

text \<open>Breaking the segment at index \<open>i\<close> into two when it has more than \<open>n\<close> bytes.\<close>

definition split_segment :: "nat \<Rightarrow> u32 \<Rightarrow> SSegment list \<Rightarrow> SSegment list" where
  "split_segment i n l =
     (let g = l ! i in
      if ss_len g > n
      then take i l @ g\<lparr>ss_len := n\<rparr> # new_SSegment (ss_seq g + n) (ss_len g - n) (ss_bCtrl g) # drop (Suc i) l
      else l)"

text \<open>The bytes that the windows allow to be sent now.\<close>

definition sendable :: "PseudoTcp \<Rightarrow> u32" where
  "sendable s =
     (let cwnd = (if m_dup_acks s = 1 \<or> m_dup_acks s = 2
                  then m_cwnd s + ucast (m_dup_acks s) * m_mss s else m_cwnd s);
          nWindow = min (m_snd_wnd s) cwnd;
          nInFlight = m_snd_nxt s - m_snd_una s;
          nUseable = (if nInFlight < nWindow then nWindow - nInFlight else 0);
          nAvailable = min (of_nat (GetBuffered (m_sbuf s)) - nInFlight) (m_mss s)
      in if nAvailable > nUseable then if nUseable * 4 < nWindow then 0 else nUseable else nAvailable)"

datatype send_step = Send_Done PseudoTcp | Send_More PseudoTcp

definition attemptSend_step :: "tcp_env \<Rightarrow> SendFlags \<Rightarrow> u32 \<Rightarrow> PseudoTcp \<Rightarrow> send_step option" where
  "attemptSend_step e sflags now s =
     (let nAvailable = sendable s in
      if nAvailable = 0 then
        if sflags = sfNone then Some (Send_Done s)
        else if sflags = sfImmediateAck \<or> m_t_ack s \<noteq> 0 then
          map_option (\<lambda>(_, s'). Send_Done s') (packet e (m_snd_nxt s) 0 0 0 s)
        else (case Now e s of (now', s') \<Rightarrow> Some (Send_Done (s'\<lparr>m_t_ack := now'\<rparr>)))
      else if m_use_nagling s \<and> m_snd_nxt s > m_snd_una s \<and> nAvailable < m_mss s then Some (Send_Done s)
      else do {
        i \<leftarrow> next_unsent (m_slist s);
        (ok, s') \<leftarrow> transmit e i now (s\<lparr>m_slist := split_segment i nAvailable (m_slist s)\<rparr>);
        Some (if ok then Send_More s' else Send_Done s')
      })"

text \<open>
  Every round of the loop that goes on turns unsent bytes into sent ones or an empty unsent segment
  into a sent one; \<open>unsent_weight\<close> counts both, so the loop ends.
\<close>

definition unsent_weight :: "SSegment list \<Rightarrow> nat" where
  "unsent_weight l = sum_list (map (\<lambda>g. if ss_xmit g = 0 then 2 * unat (ss_len g) + 1 else 0) l)"

lemma unsent_weight_append [simp]: "unsent_weight (l @ l') = unsent_weight l + unsent_weight l'"
  by (simp add: unsent_weight_def)

lemma unsent_weight_Cons [simp]:
  "unsent_weight (g # l) = (if ss_xmit g = 0 then 2 * unat (ss_len g) + 1 else 0) + unsent_weight l"
  by (simp add: unsent_weight_def)

lemma unsent_weight_Nil [simp]: "unsent_weight [] = 0"
  by (simp add: unsent_weight_def)

lemma next_unsent_Some:
  assumes "next_unsent l = Some i"
  shows "i < length l" "ss_xmit (l ! i) = 0" "\<And>j. j < i \<Longrightarrow> ss_xmit (l ! j) > 0"
proof -
  let ?P = "\<lambda>g. ss_xmit g > 0"
  have i: "i = length (takeWhile ?P l)" "i < length l"
    using assms by (auto simp: next_unsent_def Let_def split: if_splits)
  then show "i < length l" by simp
  show "ss_xmit (l ! i) = 0" using i nth_length_takeWhile [of ?P l] by (simp add: word_gt_0)
  show "ss_xmit (l ! j) > 0" if "j < i" for j
    using that i(1) nth_mem [of j "takeWhile ?P l"] by (simp add: takeWhile_nth) (metis set_takeWhileD takeWhile_nth nth_mem)
qed

lemma sendable_le_mss: "sendable s \<le> m_mss s"
  by (auto simp: sendable_def Let_def min_def not_less split: if_splits intro: order_trans less_imp_le)

lemma length_split_segment: "i < length l \<Longrightarrow> i < length (split_segment i n l)"
  by (auto simp: split_segment_def Let_def)

lemma split_segment_nth:
  assumes "i < length l"
  shows "split_segment i n l ! i = (l ! i)\<lparr>ss_len := min (ss_len (l ! i)) n\<rparr>"
  using assms by (auto simp: split_segment_def Let_def nth_append min_def)

lemma attemptSend_more:
  assumes "attemptSend_step e sflags now s = Some (Send_More s')"
  shows "\<exists>i k. next_unsent (m_slist s) = Some i \<and> sendable s \<noteq> 0 \<and> k \<le> sendable s \<and>
    k \<le> ss_len (m_slist s ! i) \<and> (ss_len (m_slist s ! i) \<noteq> 0 \<longrightarrow> k \<noteq> 0) \<and>
    m_slist s' = sent_list i k (split_segment i (sendable s) (m_slist s)) \<and>
    m_snd_nxt s' = m_snd_nxt s + k \<and> out_frame s' = out_frame s \<and>
    mss_change s s'"
proof -
  let ?l = "\<lambda>i. split_segment i (sendable s) (m_slist s)"
  from assms have n: "sendable s \<noteq> 0"
    by (auto simp: attemptSend_step_def Let_def Now_def split: if_splits)
  with assms obtain i where i: "next_unsent (m_slist s) = Some i"
    and t: "transmit e i now (s\<lparr>m_slist := ?l i\<rparr>) = Some (True, s')"
    by (auto simp: attemptSend_step_def Let_def split: if_splits Option.bind_splits)
  note il = next_unsent_Some [OF i]
  let ?t = "s\<lparr>m_slist := ?l i\<rparr>"
  obtain k where t: "i < length (m_slist ?t) \<and> k \<le> ss_len (m_slist ?t ! i) \<and> k \<le> m_mss ?t \<and>
    (0 < ss_len (m_slist ?t ! i) \<and> 0 < m_mss ?t \<longrightarrow> 0 < k) \<and> ss_xmit (m_slist ?t ! i) < 30 \<and>
    m_slist s' = sent_list i k (m_slist ?t) \<and>
    m_snd_nxt s' = (if ss_xmit (m_slist ?t ! i) = 0 then m_snd_nxt ?t + k else m_snd_nxt ?t) \<and>
    out_frame s' = out_frame ?t \<and> mss_change ?t s'"
    using transmit_sent [OF t] by (rule exE)
  note k = t [simplified]
  have "out_frame (s\<lparr>m_slist := ?l i\<rparr>) = out_frame s" by (simp add: out_frame_def send_frame_def)
  moreover have "0 < m_mss s" using n sendable_le_mss [of s] by (auto simp: word_gt_0)
  moreover have "k \<le> sendable s" "k \<le> ss_len (m_slist s ! i)"
    using k il(1) by (auto simp: split_segment_nth)
  ultimately show ?thesis
    using i n k il by (intro exI [of _ i] exI [of _ k]) (simp add: split_segment_nth min_def word_gt_0 mss_change_def split: if_splits)
qed

lemma attemptSend_weight:
  assumes "attemptSend_step e sflags now s = Some (Send_More s')"
  shows "unsent_weight (m_slist s') < unsent_weight (m_slist s)"
proof -
  let ?l = "m_slist s" and ?n = "sendable s"
  from attemptSend_more [OF assms] obtain i k where i: "next_unsent ?l = Some i" and n: "?n \<noteq> 0" "k \<le> ?n"
    and k: "k \<le> ss_len (?l ! i)" "ss_len (?l ! i) \<noteq> 0 \<longrightarrow> k \<noteq> 0"
    and sl: "m_slist s' = sent_list i k (split_segment i ?n ?l)" by auto
  define g where "g = ?l ! i"
  note il = next_unsent_Some [OF i]
  have l: "unsent_weight ?l = unsent_weight (take i ?l) + (2 * unat (ss_len g) + 1) + unsent_weight (drop (Suc i) ?l)"
    using il(1,2) by (subst id_take_nth_drop [OF il(1)]) (simp add: g_def)
  have k0: "0 < unat k" if "ss_len g \<noteq> 0" using k that by (simp add: g_def unat_gt_0)
  have lt: "unat a < unat b" if "a < b" for a b :: u32 using that by (simp add: word_less_nat_alt)
  show ?thesis
  proof (cases "ss_len g > ?n")
    case True
    then have "split_segment i ?n ?l = take i ?l @ g\<lparr>ss_len := ?n\<rparr> #
        new_SSegment (ss_seq g + ?n) (ss_len g - ?n) (ss_bCtrl g) # drop (Suc i) ?l"
      by (simp add: split_segment_def g_def Let_def)
    then have "unsent_weight (m_slist s') \<le> unsent_weight (take i ?l) + (2 * unat (?n - k) + 1) +
        (2 * unat (ss_len g - ?n) + 1) + unsent_weight (drop (Suc i) ?l)"
      using il(1,2) by (simp add: sl sent_list_def Let_def nth_append new_SSegment_def g_def)
    moreover have "ss_len g \<noteq> 0" using True by auto
    ultimately show ?thesis
      using n(2) True lt [OF True] k0 unfolding l by (simp add: unat_sub less_imp_le word_le_nat_alt)
  next
    case False
    then have "split_segment i ?n ?l = ?l" by (simp add: split_segment_def g_def Let_def)
    then have "unsent_weight (m_slist s') = unsent_weight (take i ?l) +
        (if k < ss_len g then 2 * unat (ss_len g - k) + 1 else 0) + unsent_weight (drop (Suc i) ?l)"
      using il(2) by (simp add: sl sent_list_def Let_def g_def)
    moreover have "unat (ss_len g - k) < unat (ss_len g)" if "k < ss_len g"
    proof -
      have "ss_len g \<noteq> 0" using that by auto
      then show ?thesis using lt [OF that] k0 that by (simp add: unat_sub less_imp_le)
    qed
    ultimately show ?thesis unfolding l by simp
  qed
qed

function attemptSend_loop :: "tcp_env \<Rightarrow> SendFlags \<Rightarrow> u32 \<Rightarrow> PseudoTcp \<Rightarrow> PseudoTcp option" where
  "attemptSend_loop e sflags now s =
     (case attemptSend_step e sflags now s of
        None \<Rightarrow> None
      | Some r \<Rightarrow> (case r of Send_Done s' \<Rightarrow> Some s' | Send_More s' \<Rightarrow> attemptSend_loop e sfNone now s'))"
  by pat_completeness auto
termination
  by (relation "measure (\<lambda>(_, _, _, s). unsent_weight (m_slist s))") (auto intro: attemptSend_weight)

declare attemptSend_loop.simps [simp del]

definition attemptSend :: "tcp_env \<Rightarrow> SendFlags \<Rightarrow> PseudoTcp \<Rightarrow> PseudoTcp option" where
  "attemptSend e sflags s0 =
     (case Now e s0 of
        (now, s) \<Rightarrow>
          attemptSend_loop e sflags now
            (if TimeDiff32 now (m_lastsend s) > uint (m_rx_rto s) then s\<lparr>m_cwnd := m_mss s\<rparr> else s))"

end
