(* ===== verification/Tcp_Process.thy ===== *)
theory Tcp_Process
  imports Pseudo_Tcp
begin

text \<open>
  The receiving half and the interface of \<open>PseudoTcp\<close> (\<open>pseudo_tcp.cc\<close>): the options of the connect
  message, \<open>process\<close>, \<open>parse\<close>, the clock, and the calls of the user. \<open>process\<close> is one long function in
  the code; its sections are the definitions \<open>process_control\<close>, \<open>update_rtt\<close>, \<open>free_acked\<close>, \<open>process_ack\<close>,
  \<open>trim_segment\<close>, \<open>store_data\<close> and \<open>recover_segments\<close>, composed in the same order. A section that can
  return early gives \<open>Inl\<close> of the state it leaves.
\<close>

section \<open>The connect message and its options\<close>

definition queueConnectMessage :: "PseudoTcp \<Rightarrow> PseudoTcp option" where
  "queueConnectMessage s =
     (let buf = WriteUInt8 CTL_CONNECT new_ByteBufferWriter;
          buf' = (if m_support_wnd_scale s
                  then WriteUInt8 (m_rwnd_scale s) (WriteUInt8 1 (WriteUInt8 TCP_OPT_WND_SCALE buf)) else buf);
          len = of_nat (buf_size buf')
      in map_option snd (queue (buf_data buf') len True (s\<lparr>m_snd_wnd := len\<rparr>)))"

definition applyWindowScaleOption :: "u8 \<Rightarrow> PseudoTcp \<Rightarrow> PseudoTcp" where
  "applyWindowScaleOption scale_factor s = s\<lparr>m_swnd_scale := scale_factor\<rparr>"

definition applyOption :: "u8 \<Rightarrow> bytes \<Rightarrow> u32 \<Rightarrow> PseudoTcp \<Rightarrow> PseudoTcp" where
  "applyOption kind data len s =
     (if kind = TCP_OPT_MSS then s
      else if kind = TCP_OPT_WND_SCALE then
        if len \<noteq> 1 then s else applyWindowScaleOption (hd data) s
      else s)"

lemma ReadUInt8_Length: "Length (snd (ReadUInt8 r)) = Length r - 1"
  by (simp add: ReadUInt8_def ReadBytes_def Length_def)

lemma ReadUInt8_pair: "(k, r') = ReadUInt8 r \<Longrightarrow> Length r' = Length r - 1"
  by (metis ReadUInt8_Length snd_conv)

lemma Consume_Length: "Length (snd (Consume n r)) \<le> Length r"
  by (auto simp: Consume_def Length_def)

text \<open>The loop of \<open>parseOptions\<close>: whether it ended regularly, the kinds it has seen, and the state.\<close>

function parse_options :: "ByteBufferReader \<Rightarrow> u8 list \<Rightarrow> PseudoTcp \<Rightarrow> bool \<times> u8 list \<times> PseudoTcp" where
  "parse_options buf options_specified s =
     (if Length buf = 0 then (True, options_specified, s)
      else case ReadUInt8 buf of (k, buf1) \<Rightarrow>
        (let kind = (case k of None \<Rightarrow> TCP_OPT_EOL | Some v \<Rightarrow> v) in
         if kind = TCP_OPT_EOL then (True, options_specified, s)
         else if kind = TCP_OPT_NOOP then parse_options buf1 options_specified s
         else case ReadUInt8 buf1 of (l, buf2) \<Rightarrow>
           (let opt_len = (case l of None \<Rightarrow> 0 | Some v \<Rightarrow> v) in
            if unat opt_len \<le> Length buf2 then
              parse_options (snd (Consume (unat opt_len) buf2)) (kind # options_specified)
                (applyOption kind (unread buf2) (ucast opt_len) s)
            else (False, options_specified, s))))"
  by pat_completeness auto
termination
  by (relation "measure (\<lambda>(buf, _, _). Length buf)")
    (auto dest!: ReadUInt8_pair intro: le_less_trans [OF Consume_Length])

declare parse_options.simps [simp del]

definition parseOptions :: "tcp_env \<Rightarrow> bytes \<Rightarrow> PseudoTcp \<Rightarrow> PseudoTcp option" where
  "parseOptions e data s =
     (case parse_options (new_ByteBufferReader data) [] s of
        (regular, options_specified, s') \<Rightarrow>
          if regular \<and> TCP_OPT_WND_SCALE \<notin> set options_specified \<and> m_rwnd_scale s' > 0
          then map_option (\<lambda>s''. s''\<lparr>m_swnd_scale := 0\<rparr>) (resizeReceiveBuffer e DEFAULT_RCV_BUF_SIZE s')
          else Some s')"

section \<open>Sections of process\<close>

definition process_control :: "tcp_env \<Rightarrow> Segment \<Rightarrow> PseudoTcp \<Rightarrow> (PseudoTcp + bool \<times> PseudoTcp) option" where
  "process_control e seg s =
     (if sg_flags seg AND FLAG_CTL = 0 then Some (Inr (False, s))
      else if sg_len seg = 0 then Some (Inl s)
      else if hd (sg_data seg) = CTL_CONNECT then do {
        s1 \<leftarrow> parseOptions e (take (unat (sg_len seg - 1)) (drop 1 (sg_data seg))) s;
        (if m_state s1 = TCP_LISTEN then
           map_option (\<lambda>s2. Inr (True, s2)) (queueConnectMessage (s1\<lparr>m_state := TCP_SYN_RECEIVED\<rparr>))
         else if m_state s1 = TCP_SYN_SENT then
           Some (Inr (True, notify OnTcpOpen (adjustMTU (s1\<lparr>m_state := TCP_ESTABLISHED\<rparr>))))
         else Some (Inr (True, s1)))
      }
      else Some (Inl s))"

definition clamp_rto :: "u32 \<Rightarrow> u32" where
  "clamp_rto tmp_rto =
     (if tmp_rto < MIN_RTO then MIN_RTO else if tmp_rto \<ge> MAX_RTO then MAX_RTO else tmp_rto)"

definition update_rtt :: "u32 \<Rightarrow> Segment \<Rightarrow> PseudoTcp \<Rightarrow> PseudoTcp" where
  "update_rtt now seg s =
     (if sg_tsecr seg = 0 then s
      else
        (let rtt = TimeDiff32 now (sg_tsecr seg) in
         if rtt \<ge> 0 then
           (let u = word_of_int rtt :: u32;
                s1 = (if m_rx_srtt s = 0
                      then s\<lparr>m_rx_srtt := u, m_rx_rttvar := word_of_int (rtt div 2)\<rparr>
                      else
                        (let abs_err = (if u > m_rx_srtt s then u - m_rx_srtt s else m_rx_srtt s - u)
                         in s\<lparr>m_rx_rttvar := (3 * m_rx_rttvar s + abs_err) div 4,
                              m_rx_srtt := (7 * m_rx_srtt s + u) div 8\<rparr>))
            in s1\<lparr>m_rx_rto := clamp_rto (max 1 (4 * m_rx_rttvar s1))\<rparr>)
         else s))"

fun free_acked :: "u32 \<Rightarrow> SSegment list \<Rightarrow> u32 \<Rightarrow> (SSegment list \<times> u32) option" where
  "free_acked nFree [] largest = (if nFree > 0 then None else Some ([], largest))"
| "free_acked nFree (g # gs) largest =
     (if nFree > 0 then
        if nFree < ss_len g then Some (g\<lparr>ss_len := ss_len g - nFree\<rparr> # gs, largest)
        else free_acked (nFree - ss_len g) gs (if ss_len g > largest then ss_len g else largest)
      else Some (g # gs, largest))"

text \<open>The congestion window after a new acknowledgment, inside and outside of fast recovery.\<close>

definition ack_congestion :: "tcp_env \<Rightarrow> u32 \<Rightarrow> u32 \<Rightarrow> PseudoTcp \<Rightarrow> (PseudoTcp + PseudoTcp) option" where
  "ack_congestion e now nAcked s =
     (if m_dup_acks s \<ge> 3 then
        if m_snd_una s \<ge> m_recover s then
          Some (Inr (s\<lparr>m_cwnd := min (m_ssthresh s) (m_snd_nxt s - m_snd_una s + m_mss s), m_dup_acks := 0\<rparr>))
        else do {
          (ok, s1) \<leftarrow> transmit e 0 now s;
          Some (if ok then Inr (s1\<lparr>m_cwnd := m_cwnd s1 + (m_mss s1 - min nAcked (m_cwnd s1))\<rparr>)
                else Inl (closedown ECONNABORTED s1))
        }
      else if m_cwnd s < m_ssthresh s then Some (Inr (s\<lparr>m_dup_acks := 0, m_cwnd := m_cwnd s + m_mss s\<rparr>))
      else if m_cwnd s = 0 then None
      else Some (Inr (s\<lparr>m_dup_acks := 0, m_cwnd := m_cwnd s + max 1 (m_mss s * m_mss s div m_cwnd s)\<rparr>)))"

text \<open>A new acknowledgment: the round-trip time, the window and the acknowledged bytes.\<close>

definition process_new_ack :: "tcp_env \<Rightarrow> u32 \<Rightarrow> Segment \<Rightarrow> PseudoTcp \<Rightarrow> (PseudoTcp + PseudoTcp) option" where
  "process_new_ack e now seg s0 =
     (let s1 = update_rtt now seg s0; nAcked = sg_ack seg - m_snd_una s1 in do {
        wnd \<leftarrow> shift_left (ucast (sg_wnd seg)) (m_swnd_scale s1);
        sbuf \<leftarrow> ConsumeReadData (unat nAcked) (m_sbuf s1);
        (slist, largest) \<leftarrow> free_acked nAcked (m_slist s1) (m_largest s1);
        ack_congestion e now nAcked
          (s1\<lparr>m_snd_wnd := wnd, m_snd_una := sg_ack seg,
              m_rto_base := (if sg_ack seg = m_snd_nxt s1 then 0 else now),
              m_sbuf := sbuf, m_slist := slist, m_largest := largest\<rparr>)
      })"

definition process_dup_ack :: "tcp_env \<Rightarrow> u32 \<Rightarrow> Segment \<Rightarrow> PseudoTcp \<Rightarrow> (PseudoTcp + PseudoTcp) option" where
  "process_dup_ack e now seg s0 = do {
     wnd \<leftarrow> shift_left (ucast (sg_wnd seg)) (m_swnd_scale s0);
     (let s = s0\<lparr>m_snd_wnd := wnd\<rparr> in
      if sg_len seg > 0 then Some (Inr s)
      else if m_snd_una s \<noteq> m_snd_nxt s then
        (let s1 = s\<lparr>m_dup_acks := m_dup_acks s + 1\<rparr> in
         if m_dup_acks s1 = 3 then do {
           (ok, s2) \<leftarrow> transmit e 0 now s1;
           Some (if ok then
                   (let nInFlight = m_snd_nxt s2 - m_snd_una s2;
                        ssthresh = max (nInFlight div 2) (2 * m_mss s2)
                    in Inr (s2\<lparr>m_recover := m_snd_nxt s2, m_ssthresh := ssthresh,
                               m_cwnd := ssthresh + 3 * m_mss s2\<rparr>))
                 else Inl (closedown ECONNABORTED s2))
         }
         else if m_dup_acks s1 > 3 then Some (Inr (s1\<lparr>m_cwnd := m_cwnd s1 + m_mss s1\<rparr>))
         else Some (Inr s1))
      else Some (Inr (s\<lparr>m_dup_acks := 0\<rparr>)))
   }"

definition process_ack :: "tcp_env \<Rightarrow> u32 \<Rightarrow> Segment \<Rightarrow> PseudoTcp \<Rightarrow> (PseudoTcp + PseudoTcp) option" where
  "process_ack e now seg s =
     (if sg_ack seg > m_snd_una s \<and> sg_ack seg \<le> m_snd_nxt s then process_new_ack e now seg s
      else if sg_ack seg = m_snd_una s then process_dup_ack e now seg s
      else Some (Inr s))"

definition open_passive :: "bool \<Rightarrow> PseudoTcp \<Rightarrow> PseudoTcp" where
  "open_passive bConnect s =
     (if m_state s = TCP_SYN_RECEIVED \<and> \<not> bConnect
      then notify OnTcpOpen (adjustMTU (s\<lparr>m_state := TCP_ESTABLISHED\<rparr>)) else s)"

definition notify_writeable :: "PseudoTcp \<Rightarrow> PseudoTcp" where
  "notify_writeable s =
     (if m_bWriteEnable s \<and> of_nat (GetBuffered (m_sbuf s)) < (m_sbuf_len s + m_rbuf_len s) div 2
      then notify OnTcpWriteable (s\<lparr>m_bWriteEnable := False\<rparr>) else s)"

definition ack_flags :: "Segment \<Rightarrow> PseudoTcp \<Rightarrow> SendFlags" where
  "ack_flags seg s =
     (if sg_seq seg \<noteq> m_rcv_nxt s then sfImmediateAck
      else if sg_len seg \<noteq> 0 then if m_ack_delay s = 0 then sfImmediateAck else sfDelayedAck
      else sfNone)"

text \<open>Fitting the segment to the receive buffer: the part that was received before is cut off in front,
  the part that does not fit is cut off behind.\<close>

definition trim_front :: "Segment \<Rightarrow> PseudoTcp \<Rightarrow> Segment" where
  "trim_front seg s =
     (if sg_seq seg < m_rcv_nxt s then
        (let nAdjust = m_rcv_nxt s - sg_seq seg in
         if nAdjust < sg_len seg
         then seg\<lparr>sg_seq := sg_seq seg + nAdjust, sg_data := drop (unat nAdjust) (sg_data seg),
                  sg_len := sg_len seg - nAdjust\<rparr>
         else seg\<lparr>sg_len := 0\<rparr>)
      else seg)"

definition trim_back :: "Segment \<Rightarrow> PseudoTcp \<Rightarrow> Segment" where
  "trim_back seg s =
     (let available_space = of_nat (GetWriteRemaining (m_rbuf s)) in
      if sg_seq seg + sg_len seg - m_rcv_nxt s > available_space then
        (let nAdjust = sg_seq seg + sg_len seg - m_rcv_nxt s - available_space in
         if nAdjust < sg_len seg then seg\<lparr>sg_len := sg_len seg - nAdjust\<rparr> else seg\<lparr>sg_len := 0\<rparr>)
      else seg)"

definition trim_segment :: "Segment \<Rightarrow> PseudoTcp \<Rightarrow> Segment" where
  "trim_segment seg s = trim_back (trim_front seg s) s"

fun insert_rsegment :: "RSegment \<Rightarrow> RSegment list \<Rightarrow> RSegment list" where
  "insert_rsegment r [] = [r]"
| "insert_rsegment r (x # xs) = (if rs_seq x < rs_seq r then x # insert_rsegment r xs else r # x # xs)"

text \<open>Storing the data of a trimmed segment: whether earlier segments may be recovered, whether there is
  new data, and the state.\<close>

definition store_data :: "Segment \<Rightarrow> PseudoTcp \<Rightarrow> (PseudoTcp + bool \<times> bool \<times> PseudoTcp) option" where
  "store_data seg s =
     (if sg_flags seg AND FLAG_CTL \<noteq> 0 \<or> m_shutdown s \<noteq> SD_NONE then
        if sg_seq seg = m_rcv_nxt s then
          (let s1 = s\<lparr>m_rcv_nxt := m_rcv_nxt s + sg_len seg\<rparr> in
           if GetBuffered (m_rbuf s1) = 0 then do {
             rbuf \<leftarrow> ConsumeWriteBuffer (unat (sg_len seg)) (m_rbuf s1);
             rbuf' \<leftarrow> ConsumeReadData (unat (sg_len seg)) rbuf;
             Some (Inr (True, False, s1\<lparr>m_rbuf := rbuf'\<rparr>))
           }
           else Some (Inr (False, False, s1)))
        else Some (Inr (False, False, s))
      else
        (case WriteOffset (take (unat (sg_len seg)) (sg_data seg)) (unat (sg_seq seg - m_rcv_nxt s)) (m_rbuf s) of
           (result, _, rbuf) \<Rightarrow>
             if result = SR_BLOCK then Some (Inl (s\<lparr>m_rbuf := rbuf\<rparr>))
             else if result \<noteq> SR_SUCCESS then None
             else if sg_seq seg = m_rcv_nxt s then do {
               rbuf' \<leftarrow> ConsumeWriteBuffer (unat (sg_len seg)) rbuf;
               Some (Inr (True, True, s\<lparr>m_rbuf := rbuf', m_rcv_nxt := m_rcv_nxt s + sg_len seg,
                                        m_rcv_wnd := m_rcv_wnd s - sg_len seg\<rparr>))
             }
             else Some (Inr (False, False, s\<lparr>m_rbuf := rbuf,
                    m_rlist := insert_rsegment \<lparr>rs_seq = sg_seq seg, rs_len = sg_len seg\<rparr> (m_rlist s)\<rparr>))))"

text \<open>The segments at the front of \<open>m_rlist\<close> that start at or before the next expected byte.\<close>

fun recover_segments :: "RSegment list \<Rightarrow> SendFlags \<Rightarrow> bool \<Rightarrow> PseudoTcp \<Rightarrow> (SendFlags \<times> bool \<times> PseudoTcp) option" where
  "recover_segments [] sflags bNewData s = Some (sflags, bNewData, s\<lparr>m_rlist := []\<rparr>)"
| "recover_segments (r # rs) sflags bNewData s =
     (if rs_seq r \<le> m_rcv_nxt s then
        if rs_seq r + rs_len r > m_rcv_nxt s then
          (let nAdjust = rs_seq r + rs_len r - m_rcv_nxt s in do {
             rbuf \<leftarrow> ConsumeWriteBuffer (unat nAdjust) (m_rbuf s);
             recover_segments rs sfImmediateAck True
               (s\<lparr>m_rbuf := rbuf, m_rcv_nxt := m_rcv_nxt s + nAdjust, m_rcv_wnd := m_rcv_wnd s - nAdjust\<rparr>)
           })
        else recover_segments rs sflags bNewData s
      else Some (sflags, bNewData, s\<lparr>m_rlist := r # rs\<rparr>))"

definition process_data :: "Segment \<Rightarrow> SendFlags \<Rightarrow> PseudoTcp \<Rightarrow> (PseudoTcp + SendFlags \<times> bool \<times> PseudoTcp) option" where
  "process_data seg sflags s =
     (if sg_len seg > 0 then do {
        r \<leftarrow> store_data seg s;
        (case r of
           Inl s' \<Rightarrow> Some (Inl s')
         | Inr (bRecover, bNewData, s') \<Rightarrow>
             if bRecover then map_option Inr (recover_segments (m_rlist s') sflags bNewData s')
             else Some (Inr (sflags, bNewData, s')))
      }
      else Some (Inr (sflags, False, s)))"

definition notify_readable :: "bool \<Rightarrow> PseudoTcp \<Rightarrow> PseudoTcp" where
  "notify_readable bNewData s =
     (if bNewData \<and> m_bReadEnable s then notify OnTcpReadable (s\<lparr>m_bReadEnable := False\<rparr>) else s)"

section \<open>Processing a segment\<close>

definition finish_segment :: "tcp_env \<Rightarrow> bool \<Rightarrow> Segment \<Rightarrow> PseudoTcp \<Rightarrow> (bool \<times> PseudoTcp) option" where
  "finish_segment e bConnect seg s =
     (let s1 = notify_writeable (open_passive bConnect s) in do {
        d \<leftarrow> process_data (trim_segment seg s1) (ack_flags seg s1) s1;
        (case d of
           Inl s' \<Rightarrow> Some (False, s')
         | Inr (sflags, bNewData, s2) \<Rightarrow>
             map_option (\<lambda>s3. (True, notify_readable bNewData s3)) (attemptSend e sflags s2))
      })"

definition process :: "tcp_env \<Rightarrow> Segment \<Rightarrow> PseudoTcp \<Rightarrow> (bool \<times> PseudoTcp) option" where
  "process e seg s0 =
     (if sg_conv seg \<noteq> m_conv s0 then Some (False, s0)
      else case Now e s0 of (now, s1) \<Rightarrow>
        (let s2 = s1\<lparr>m_lasttraffic := now, m_lastrecv := now, m_bOutgoing := False\<rparr> in
         if m_state s2 = TCP_CLOSED then Some (False, s2)
         else if sg_flags seg AND FLAG_RST \<noteq> 0 then Some (False, closedown ECONNRESET s2)
         else do {
           c \<leftarrow> process_control e seg s2;
           (case c of
              Inl s' \<Rightarrow> Some (False, s')
            | Inr (bConnect, s3) \<Rightarrow> do {
                a \<leftarrow> process_ack e now seg
                  (if sg_seq seg \<le> m_ts_lastack s3 \<and> m_ts_lastack s3 < sg_seq seg + sg_len seg
                   then s3\<lparr>m_ts_recent := sg_tsval seg\<rparr> else s3);
                (case a of Inl s' \<Rightarrow> Some (False, s') | Inr s4 \<Rightarrow> finish_segment e bConnect seg s4)
              })
         }))"

definition parse :: "tcp_env \<Rightarrow> bytes \<Rightarrow> PseudoTcp \<Rightarrow> (bool \<times> PseudoTcp) option" where
  "parse e buffer s =
     (if of_nat (length buffer) < HEADER_SIZE then Some (False, s)
      else process e
        \<lparr>sg_conv = bytes_to_long buffer, sg_seq = bytes_to_long (drop 4 buffer),
         sg_ack = bytes_to_long (drop 8 buffer), sg_flags = buffer ! 13,
         sg_wnd = bytes_to_short (drop 14 buffer), sg_data = drop (unat HEADER_SIZE) buffer,
         sg_len = of_nat (length buffer) - HEADER_SIZE,
         sg_tsval = bytes_to_long (drop 16 buffer), sg_tsecr = bytes_to_long (drop 20 buffer)\<rparr> s)"

definition NotifyPacket :: "tcp_env \<Rightarrow> bytes \<Rightarrow> PseudoTcp \<Rightarrow> (bool \<times> PseudoTcp) option" where
  "NotifyPacket e buffer s =
     (if length buffer > unat MAX_PACKET then Some (False, s) else parse e buffer s)"

section \<open>Clock and user interface\<close>

definition Connect :: "tcp_env \<Rightarrow> PseudoTcp \<Rightarrow> (bool \<times> PseudoTcp) option" where
  "Connect e s =
     (if m_state s \<noteq> TCP_LISTEN then Some (False, s\<lparr>m_error := EINVAL\<rparr>)
      else do {
        s1 \<leftarrow> queueConnectMessage (s\<lparr>m_state := TCP_SYN_SENT\<rparr>);
        s2 \<leftarrow> attemptSend e sfNone s1;
        Some (True, s2)
      })"

definition NotifyMTU :: "u16 \<Rightarrow> PseudoTcp \<Rightarrow> PseudoTcp" where
  "NotifyMTU mtu s =
     (let s1 = s\<lparr>m_mtu_advise := ucast mtu\<rparr> in if m_state s1 = TCP_ESTABLISHED then adjustMTU s1 else s1)"

text \<open>The three checks of \<open>NotifyClock\<close>: the retransmission timer, the probe of a closed window, and the
  delayed acknowledgment. The first two can close the connection, which ends the call.\<close>

definition clock_retransmit :: "tcp_env \<Rightarrow> u32 \<Rightarrow> PseudoTcp \<Rightarrow> (PseudoTcp + PseudoTcp) option" where
  "clock_retransmit e now s =
     (if m_rto_base s \<noteq> 0 \<and> TimeDiff32 (m_rto_base s + m_rx_rto s) now \<le> 0 \<and> m_slist s \<noteq> [] then do {
        (ok, s1) \<leftarrow> transmit e 0 now s;
        (if \<not> ok then Some (Inl (closedown ECONNABORTED s1))
         else
           (let nInFlight = m_snd_nxt s1 - m_snd_una s1;
                rto_limit = (if m_state s1 \<in> {TCP_LISTEN, TCP_SYN_SENT, TCP_SYN_RECEIVED} then DEF_RTO else MAX_RTO)
            in Some (Inr (s1\<lparr>m_ssthresh := max (nInFlight div 2) (2 * m_mss s1), m_cwnd := m_mss s1,
                             m_rx_rto := min rto_limit (m_rx_rto s1 * 2), m_rto_base := now\<rparr>))))
      }
      else Some (Inr s))"

definition clock_probe :: "tcp_env \<Rightarrow> u32 \<Rightarrow> PseudoTcp \<Rightarrow> (PseudoTcp + PseudoTcp) option" where
  "clock_probe e now s =
     (if m_snd_wnd s = 0 \<and> TimeDiff32 (m_lastsend s + m_rx_rto s) now \<le> 0 then
        if TimeDiff32 now (m_lastrecv s) \<ge> 15000 then Some (Inl (closedown ECONNABORTED s))
        else do {
          (_, s1) \<leftarrow> packet e (m_snd_nxt s - 1) 0 0 0 s;
          Some (Inr (s1\<lparr>m_lastsend := now, m_rx_rto := min MAX_RTO (m_rx_rto s1 * 2)\<rparr>))
        }
      else Some (Inr s))"

definition clock_ack :: "tcp_env \<Rightarrow> u32 \<Rightarrow> PseudoTcp \<Rightarrow> PseudoTcp option" where
  "clock_ack e now s =
     (if m_t_ack s \<noteq> 0 \<and> TimeDiff32 (m_t_ack s + m_ack_delay s) now \<le> 0
      then map_option snd (packet e (m_snd_nxt s) 0 0 0 s) else Some s)"

definition NotifyClock :: "tcp_env \<Rightarrow> u32 \<Rightarrow> PseudoTcp \<Rightarrow> PseudoTcp option" where
  "NotifyClock e now s =
     (if m_state s = TCP_CLOSED then Some s
      else do {
        r \<leftarrow> clock_retransmit e now s;
        (case r of
           Inl s' \<Rightarrow> Some s'
         | Inr s1 \<Rightarrow> do {
             p \<leftarrow> clock_probe e now s1;
             (case p of Inl s' \<Rightarrow> Some s' | Inr s2 \<Rightarrow> clock_ack e now s2)
           })
      })"

text \<open>\<open>None\<close>: the socket is ready to be destroyed.\<close>

definition clock_check :: "u32 \<Rightarrow> PseudoTcp \<Rightarrow> int option" where
  "clock_check now s =
     (if m_shutdown s = SD_FORCEFUL then None
      else if m_shutdown s = SD_GRACEFUL \<and>
        (m_state s \<noteq> TCP_ESTABLISHED \<or> GetBuffered (m_sbuf s) = 0 \<and> m_t_ack s = 0) then None
      else if m_state s = TCP_CLOSED then Some CLOSED_TIMEOUT
      else
        (let t0 = DEFAULT_TIMEOUT;
             t1 = (if m_t_ack s \<noteq> 0 then min t0 (TimeDiff32 (m_t_ack s + m_ack_delay s) now) else t0);
             t2 = (if m_rto_base s \<noteq> 0 then min t1 (TimeDiff32 (m_rto_base s + m_rx_rto s) now) else t1);
             t3 = (if m_snd_wnd s = 0 then min t2 (TimeDiff32 (m_lastsend s + m_rx_rto s) now) else t2)
         in Some t3))"

definition GetNextClock :: "u32 \<Rightarrow> PseudoTcp \<Rightarrow> int option" where
  "GetNextClock now s = clock_check now s"

text \<open>\<open>Recv\<close> and \<open>Send\<close>: the bytes received or the number of bytes queued, or \<open>None\<close> for the result -1.\<close>

definition PseudoTcp_Recv :: "tcp_env \<Rightarrow> nat \<Rightarrow> PseudoTcp \<Rightarrow> (bytes option \<times> PseudoTcp) option" where
  "PseudoTcp_Recv e len s =
     (if m_state s \<noteq> TCP_ESTABLISHED then Some (None, s\<lparr>m_error := ENOTCONN\<rparr>)
      else case Read len (m_rbuf s) of (result, bs, rbuf) \<Rightarrow>
        (let s1 = s\<lparr>m_rbuf := rbuf\<rparr> in
         if result = SR_BLOCK then Some (None, s1\<lparr>m_bReadEnable := True, m_error := EWOULDBLOCK\<rparr>)
         else if result \<noteq> SR_SUCCESS then None
         else
           (let available_space = of_nat (GetWriteRemaining (m_rbuf s1)) in
            if available_space - m_rcv_wnd s1 \<ge> min (m_rbuf_len s1 div 2) (m_mss s1) then
              (let s2 = s1\<lparr>m_rcv_wnd := available_space\<rparr> in
               if m_rcv_wnd s1 = 0 then map_option (\<lambda>s3. (Some bs, s3)) (attemptSend e sfImmediateAck s2)
               else Some (Some bs, s2))
            else Some (Some bs, s1))))"

definition PseudoTcp_Send :: "tcp_env \<Rightarrow> bytes \<Rightarrow> PseudoTcp \<Rightarrow> (u32 option \<times> PseudoTcp) option" where
  "PseudoTcp_Send e data s =
     (if m_state s \<noteq> TCP_ESTABLISHED then Some (None, s\<lparr>m_error := ENOTCONN\<rparr>)
      else if GetWriteRemaining (m_sbuf s) = 0
      then Some (None, s\<lparr>m_bWriteEnable := True, m_error := EWOULDBLOCK\<rparr>)
      else do {
        (written, s1) \<leftarrow> queue data (of_nat (length data)) False s;
        s2 \<leftarrow> attemptSend e sfNone s1;
        Some (Some written, s2)
      })"

end
