(* ===== verification/Tcp_Invariant.thy ===== *)
theory Tcp_Invariant
  imports Tcp_Process
begin

text \<open>
  What every sequence of calls keeps true of a \<open>PseudoTcp\<close> object.

  \<open>tcp_reachable\<close> are the states that the public operations reach from a new object, whatever the clock,
  the network and the peer do. \<open>ledger\<close> is the account of the send side: the segments of \<open>m_slist\<close> divide
  the bytes of the send buffer among them, the transmitted ones come first, and their bytes are those
  between \<open>m_snd_una\<close> and \<open>m_snd_nxt\<close>. \<open>limits_ok\<close> bounds the retransmission timeout, the window scale and the
  level in the table of packet sizes.
\<close>

section \<open>The account of the send side\<close>

definition seg_bytes :: "SSegment list \<Rightarrow> nat" where
  "seg_bytes l = sum_list (map (\<lambda>g. unat (ss_len g)) l)"

lemma seg_bytes_simps [simp]:
  "seg_bytes [] = 0" "seg_bytes (g # l) = unat (ss_len g) + seg_bytes l" "seg_bytes (l @ l') = seg_bytes l + seg_bytes l'"
  by (simp_all add: seg_bytes_def)

definition divided :: "SSegment list \<Rightarrow> SSegment list \<Rightarrow> SSegment list \<Rightarrow> bool" where
  "divided l done todo \<longleftrightarrow> l = done @ todo \<and> (\<forall>g \<in> set done. ss_xmit g \<noteq> 0) \<and> (\<forall>g \<in> set todo. ss_xmit g = 0)"

definition send_account :: "FifoBuffer \<Rightarrow> SSegment list \<Rightarrow> u32 \<Rightarrow> u32 \<Rightarrow> bool" where
  "send_account sbuf slist snd_nxt snd_una \<longleftrightarrow>
     fifo_ok sbuf \<and> ff_state sbuf = SS_OPEN \<and> ff_buffer_length sbuf < 2 ^ 32 \<and>
     seg_bytes slist = ff_data_length sbuf \<and>
     (\<exists>done todo. divided slist done todo \<and> snd_nxt - snd_una = of_nat (seg_bytes done))"

definition ledger :: "PseudoTcp \<Rightarrow> bool" where
  "ledger s \<longleftrightarrow> send_account (m_sbuf s) (m_slist s) (m_snd_nxt s) (m_snd_una s)"

lemmas ledger_account = ledger_def send_account_def

text \<open>Sending \<open>k\<close> bytes of a transmitted segment, or of the first one that is not.\<close>

definition sent_part :: "u32 \<Rightarrow> SSegment \<Rightarrow> SSegment list" where
  "sent_part k g = g\<lparr>ss_len := k, ss_xmit := ss_xmit g + 1\<rparr> #
     (if k < ss_len g
      then [\<lparr>ss_seq = ss_seq g + k, ss_len = ss_len g - k, ss_xmit = ss_xmit g, ss_bCtrl = ss_bCtrl g\<rparr>]
      else [])"

lemma sent_list_at: "sent_list (length as) k (as @ g # bs) = as @ sent_part k g @ bs"
  by (simp add: sent_list_def sent_part_def Let_def)

lemma seg_bytes_sent_part [simp]: "k \<le> ss_len g \<Longrightarrow> seg_bytes (sent_part k g) = unat (ss_len g)"
  by (auto simp: sent_part_def unat_sub less_imp_le word_less_nat_alt word_le_nat_alt)

lemma divided_sent:
  assumes "divided l done todo" "i < length l" "i \<le> length done" "k \<le> ss_len (l ! i)" "ss_xmit (l ! i) < 30"
  shows "\<exists>done' todo'. divided (sent_list i k l) done' todo' \<and> seg_bytes (sent_list i k l) = seg_bytes l \<and>
    seg_bytes done' = (if ss_xmit (l ! i) = 0 then seg_bytes done + unat k else seg_bytes done)"
proof (cases "i < length done")
  case True
  then obtain as g bs where d: "done = as @ g # bs" "i = length as"
    using id_take_nth_drop [OF True] by (metis length_take min.absorb4)
  with assms(1) have l: "l = as @ g # bs @ todo" "l ! i = g" "ss_xmit g \<noteq> 0" by (auto simp: divided_def)
  have "ss_xmit g + 1 \<noteq> 0" using assms(5) l(2) by (auto simp: word_less_nat_alt unat_word_ariths unat_eq_0 [symmetric])
  then have "divided (sent_list i k l) (as @ sent_part k g @ bs) todo"
    using assms(1) l d by (auto simp: divided_def sent_list_at sent_part_def)
  then show ?thesis
    using assms(4) l d by (intro exI [of _ "as @ sent_part k g @ bs"] exI [of _ todo]) (simp add: sent_list_at)
next
  case False
  then have i: "i = length done" using assms(3) by simp
  with assms(1,2) obtain g bs where t: "todo = g # bs" by (cases todo) (auto simp: divided_def)
  with assms(1) i have l: "l = done @ g # bs" "l ! i = g" "ss_xmit g = 0" by (auto simp: divided_def)
  let ?g1 = "hd (sent_part k g)" and ?sub = "tl (sent_part k g)"
  have p: "sent_part k g = ?g1 # ?sub" by (simp add: sent_part_def)
  have "divided (sent_list i k l) (done @ [?g1]) (?sub @ bs)"
    using assms(1) l t i by (auto simp: divided_def sent_list_at sent_part_def)
  moreover have "seg_bytes (done @ [?g1]) = seg_bytes done + unat k" by (simp add: sent_part_def)
  ultimately show ?thesis
    using assms(4) l i by (intro exI [of _ "done @ [?g1]"] exI [of _ "?sub @ bs"]) (simp add: sent_list_at)
qed

lemma divided_takeWhile:
  assumes "divided l done todo"
  shows "takeWhile (\<lambda>g. ss_xmit g > 0) l = done"
proof -
  have "takeWhile (\<lambda>g. ss_xmit g > 0) todo = []"
    using assms by (cases todo) (auto simp: divided_def)
  then show ?thesis using assms by (simp add: divided_def takeWhile_append2 word_gt_0)
qed

lemma divided_next:
  assumes "divided l done todo" "next_unsent l = Some i"
  shows "i = length done" "i < length l"
  using assms(2) divided_takeWhile [OF assms(1)] by (auto simp: next_unsent_def Let_def split: if_splits)

lemma divided_split:
  assumes "divided l done todo" "i = length done" "i < length l"
  shows "\<exists>todo'. divided (split_segment i n l) done todo' \<and> seg_bytes (split_segment i n l) = seg_bytes l"
proof -
  from assms obtain g bs where t: "todo = g # bs" by (cases todo) (auto simp: divided_def)
  with assms have l: "l = done @ g # bs" "l ! i = g" "ss_xmit g = 0" by (auto simp: divided_def)
  show ?thesis
  proof (cases "ss_len g > n")
    case True
    then have "split_segment i n l = done @ g\<lparr>ss_len := n\<rparr> # new_SSegment (ss_seq g + n) (ss_len g - n) (ss_bCtrl g) # bs"
      using l assms(2) by (simp add: split_segment_def Let_def)
    moreover have "unat n + unat (ss_len g - n) = unat (ss_len g)"
      using True by (simp add: unat_sub less_imp_le word_less_nat_alt)
    ultimately show ?thesis
      using assms(1) l t
      by (intro exI [of _ "g\<lparr>ss_len := n\<rparr> # new_SSegment (ss_seq g + n) (ss_len g - n) (ss_bCtrl g) # bs"])
        (auto simp: divided_def new_SSegment_def)
  next
    case False
    then have "split_segment i n l = l" using l by (simp add: split_segment_def Let_def)
    with assms(1) show ?thesis by auto
  qed
qed

lemma ledger_divided:
  assumes "ledger s"
  obtains dn td where "divided (m_slist s) dn td" "m_snd_nxt s - m_snd_una s = of_nat (seg_bytes dn)"
    "takeWhile (\<lambda>g. ss_xmit g > 0) (m_slist s) = dn" "seg_bytes dn < 2 ^ 32"
proof -
  obtain dn td where d: "divided (m_slist s) dn td" "m_snd_nxt s - m_snd_una s = of_nat (seg_bytes dn)"
    using assms by (auto simp: ledger_account)
  have "seg_bytes dn \<le> seg_bytes (m_slist s)" using d(1) by (simp add: divided_def)
  also have "\<dots> < 2 ^ 32" using assms by (auto simp: ledger_account fifo_ok_def)
  finally show ?thesis using d divided_takeWhile [OF d(1)] that by blast
qed

lemma ledger_transmit:
  assumes "ledger s" "transmit e i now s = Some (ok, s')" "i \<le> length (takeWhile (\<lambda>g. ss_xmit g > 0) (m_slist s))"
  shows "ledger s'"
proof (cases ok)
  case False
  with transmit_fail [of e i now s s'] assms(2) have "send_frame s' = send_frame s" by simp
  then show ?thesis using assms(1) by (simp add: send_frame_iff ledger_account)
next
  case True
  with assms(2) have t: "transmit e i now s = Some (True, s')" by simp
  let ?g = "m_slist s ! i"
  from transmit_sent [OF t] obtain k where k: "i < length (m_slist s)" "k \<le> ss_len ?g" "ss_xmit ?g < 30"
    "m_slist s' = sent_list i k (m_slist s)"
    "m_snd_nxt s' = (if ss_xmit ?g = 0 then m_snd_nxt s + k else m_snd_nxt s)"
    "out_frame s' = out_frame s" by auto
  from ledger_divided [OF assms(1)] obtain dn td where d: "divided (m_slist s) dn td"
    "m_snd_nxt s - m_snd_una s = of_nat (seg_bytes dn)" "takeWhile (\<lambda>g. ss_xmit g > 0) (m_slist s) = dn" by metis
  from divided_sent [OF d(1) k(1) _ k(2,3)] assms(3) d(3) obtain dn' td' where
    d': "divided (m_slist s') dn' td'" "seg_bytes (m_slist s') = seg_bytes (m_slist s)"
    "seg_bytes dn' = (if ss_xmit ?g = 0 then seg_bytes dn + unat k else seg_bytes dn)" by (auto simp: k(4))
  have "m_sbuf s' = m_sbuf s" "m_snd_una s' = m_snd_una s" using k(6) by (simp_all add: out_frame_iff)
  moreover have "m_snd_nxt s' - m_snd_una s = of_nat (seg_bytes dn')"
    using k(5) d(2) d'(3) by (simp add: algebra_simps split: if_splits)
  ultimately show ?thesis using assms(1) d' by (auto simp: ledger_account)
qed

lemma Write_frame:
  "ff_state (snd (snd (Write bs f))) = ff_state f" "ff_buffer_length (snd (snd (Write bs f))) = ff_buffer_length f"
  by (simp_all add: Write_def WriteOffsetLocked_def Let_def)

text \<open>A segment of the connect message or of the user is added behind the others.\<close>

lemma ledger_queue:
  assumes "ledger s" "queue data len b s = Some (w, s')" "unat len \<le> length data"
  shows "ledger s'"
proof -
  let ?a = "of_nat (GetWriteRemaining (m_sbuf s)) :: u32"
  define n where "n = (if len > ?a then ?a else len)"
  let ?l = "m_slist s"
  define l' where "l' = (if ?l \<noteq> [] \<and> ss_bCtrl (last ?l) = b \<and> ss_xmit (last ?l) = 0
     then butlast ?l @ [(last ?l)\<lparr>ss_len := ss_len (last ?l) + n\<rparr>]
     else ?l @ [new_SSegment (m_snd_una s + of_nat (GetBuffered (m_sbuf s))) n b])"
  have f: "fifo_ok (m_sbuf s)" "ff_state (m_sbuf s) = SS_OPEN" "ff_buffer_length (m_sbuf s) < 2 ^ 32"
    "seg_bytes ?l = ff_data_length (m_sbuf s)" using assms(1) by (auto simp: ledger_account)
  have fl: "ff_data_length (m_sbuf s) \<le> ff_buffer_length (m_sbuf s)" using f(1) by (simp add: fifo_ok_def)
  have ua: "unat ?a = ff_buffer_length (m_sbuf s) - ff_data_length (m_sbuf s)"
    using f by (simp add: GetWriteRemaining_def unat_of_nat)
  have n: "unat n \<le> unat ?a" "unat n \<le> length data"
    using assms(3) by (auto simp: n_def word_less_nat_alt not_less word_le_nat_alt)
  have s': "s' = s\<lparr>m_slist := l', m_sbuf := snd (snd (Write (take (unat n) data) (m_sbuf s)))\<rparr>"
    using assms(2) by (auto simp: queue_def Let_def n_def l'_def split: if_splits prod.splits)
  have w: "ff_data_length (m_sbuf s') = ff_data_length (m_sbuf s) + unat n" "fifo_ok (m_sbuf s')"
    using Write_eq [OF f(1), of "take (unat n) data"] f(2) n ua length_fifo_contents [of "m_sbuf s'"]
      length_fifo_contents [of "m_sbuf s"]
    by (simp_all add: s' del: length_fifo_contents)
  obtain dn td where d: "divided ?l dn td" "m_snd_nxt s - m_snd_una s = of_nat (seg_bytes dn)"
    using assms(1) by (auto simp: ledger_account)
  have "\<exists>td'. divided l' dn td' \<and> seg_bytes l' = seg_bytes ?l + unat n"
  proof (cases "?l \<noteq> [] \<and> ss_bCtrl (last ?l) = b \<and> ss_xmit (last ?l) = 0")
    case True
    have "td \<noteq> []" using True d(1) by (auto simp: divided_def)
    then obtain ts g where td: "td = ts @ [g]" by (metis rev_exhaust)
    then have g: "last ?l = g" "butlast ?l = dn @ ts" using d(1) by (auto simp: divided_def butlast_append)
    have "unat (ss_len g) + unat n < 2 ^ 32"
      using f(3,4) n(1) d(1) td fl unfolding ua by (auto simp: divided_def)
    then have "unat (ss_len g + n) = unat (ss_len g) + unat n" by (simp add: unat_word_ariths)
    then show ?thesis
      using True g d(1) td by (intro exI [of _ "ts @ [g\<lparr>ss_len := ss_len g + n\<rparr>]"]) (auto simp: l'_def divided_def)
  next
    case False
    then show ?thesis
      using d(1) by (intro exI [of _ "td @ [new_SSegment (m_snd_una s + of_nat (GetBuffered (m_sbuf s))) n b]"])
        (auto simp: l'_def divided_def new_SSegment_def)
  qed
  then show ?thesis using w f d(2) by (auto simp: ledger_account s' Write_frame)
qed

section \<open>The send loop\<close>

text \<open>What a round of the loop, and so \<open>attemptSend\<close>, keeps.\<close>

definition sending_ok :: "PseudoTcp \<Rightarrow> PseudoTcp \<Rightarrow> bool" where
  "sending_ok s s' \<longleftrightarrow> out_frame s' = out_frame s \<and> mss_change s s' \<and> (ledger s \<longrightarrow> ledger s')"

lemma sending_ok_refl: "sending_ok s s"
  by (simp add: sending_ok_def mss_change_refl)

lemma sending_ok_trans: "sending_ok s s' \<Longrightarrow> sending_ok s' s'' \<Longrightarrow> sending_ok s s''"
  by (auto simp: sending_ok_def intro: mss_change_trans)

lemma sending_ok_send_frame:
  assumes "send_frame s' = send_frame s" "mss_change s s'"
  shows "sending_ok s s'"
  using assms(2) out_frame_send [OF assms(1)] assms(1) [unfolded send_frame_iff]
  by (simp add: sending_ok_def ledger_def)

lemma sending_ok_packet: "packet e seq flags off len s = Some (w, s') \<Longrightarrow> sending_ok s s'"
  using packet_frame [of e seq flags off len s w s'] by (auto intro!: sending_ok_send_frame mss_change_refl)

lemma transmit_frame:
  assumes "transmit e i now s = Some (ok, s')"
  shows "out_frame s' = out_frame s \<and> mss_change s s'"
proof (cases ok)
  case True
  with assms have "transmit e i now s = Some (True, s')" by simp
  from transmit_sent [OF this] show ?thesis by blast
next
  case False
  with assms have "transmit e i now s = Some (False, s')" by simp
  from transmit_fail [OF this] show ?thesis by (blast intro: out_frame_send)
qed

lemma sending_ok_transmit_0: "transmit e 0 now s = Some (ok, s') \<Longrightarrow> sending_ok s s'"
  using transmit_frame [of e 0 now s ok s'] ledger_transmit [of s e 0 now ok s'] by (simp add: sending_ok_def)

lemma sending_ok_more:
  assumes "next_unsent (m_slist s) = Some i"
    "transmit e i now (s\<lparr>m_slist := split_segment i n (m_slist s)\<rparr>) = Some (ok, s')"
  shows "sending_ok s s'"
proof -
  let ?t = "s\<lparr>m_slist := split_segment i n (m_slist s)\<rparr>"
  have t: "out_frame ?t = out_frame s" by (simp add: out_frame_def send_frame_def)
  note transmit_frame [OF assms(2)]
  moreover have "ledger s'" if l: "ledger s"
  proof -
    from ledger_divided [OF l] obtain dn td where d: "divided (m_slist s) dn td"
      "m_snd_nxt s - m_snd_una s = of_nat (seg_bytes dn)" by metis
    note i = divided_next [OF d(1) assms(1)]
    from divided_split [OF d(1) i, of n] obtain td' where
      d': "divided (m_slist ?t) dn td'" "seg_bytes (m_slist ?t) = seg_bytes (m_slist s)" by auto
    then have "ledger ?t" using l d(2) by (auto simp: ledger_account)
    from ledger_transmit [OF this assms(2)] divided_takeWhile [OF d'(1)] i(1) show ?thesis by simp
  qed
  ultimately show ?thesis using t by (simp add: sending_ok_def mss_change_def)
qed

lemma attemptSend_step_ok:
  assumes "attemptSend_step e sflags now s = Some r" "r = Send_Done s' \<or> r = Send_More s'"
  shows "sending_ok s s'"
proof -
  have "sending_ok s (s\<lparr>tcp_calls := c, m_t_ack := t\<rparr>)" for c t
    by (rule sending_ok_send_frame) (simp_all add: send_frame_def mss_change_refl)
  then show ?thesis
    using assms by (auto simp: attemptSend_step_def Let_def Now_def sending_ok_refl
        split: if_splits Option.bind_splits dest: sending_ok_packet sending_ok_more)
qed

lemma attemptSend_loop_ok: "attemptSend_loop e sflags now s = Some s' \<Longrightarrow> sending_ok s s'"
proof (induction e sflags now s rule: attemptSend_loop.induct)
  case (1 e sflags now s)
  from 1(2) obtain r where r: "attemptSend_step e sflags now s = Some r"
    by (subst (asm) attemptSend_loop.simps) (auto split: option.splits)
  show ?case
  proof (cases r)
    case (Send_Done t)
    with 1(2) r have "s' = t" by (subst (asm) attemptSend_loop.simps) simp
    with Send_Done r show ?thesis by (auto intro: attemptSend_step_ok)
  next
    case (Send_More t)
    with 1(2) r have "attemptSend_loop e sfNone now t = Some s'" by (subst (asm) attemptSend_loop.simps) simp
    with 1(1) [OF r] Send_More have "sending_ok t s'" by simp
    with Send_More r show ?thesis by (blast intro: attemptSend_step_ok sending_ok_trans)
  qed
qed

lemma attemptSend_ok:
  assumes "attemptSend e sflags s = Some s'"
  shows "sending_ok s s'"
proof -
  let ?t = "s\<lparr>tcp_calls := Suc (tcp_calls s)\<rparr>"
  have "sending_ok s t" if "t = ?t \<or> t = ?t\<lparr>m_cwnd := m_mss ?t\<rparr>" for t
    using that by (intro sending_ok_send_frame) (auto simp: send_frame_def mss_change_def)
  with assms show ?thesis
    by (auto simp: attemptSend_def Now_def split: if_splits dest!: attemptSend_loop_ok intro: sending_ok_trans)
qed

section \<open>Acknowledged bytes\<close>

lemma free_acked_divided:
  assumes "divided l dn td" "unat n \<le> seg_bytes dn"
  shows "\<exists>l' big dn'. free_acked n l largest = Some (l', big) \<and> divided l' dn' td \<and>
    seg_bytes dn' + unat n = seg_bytes dn"
  using assms
proof (induction dn arbitrary: l n largest)
  case Nil
  then have "n = 0" "l = td" by (simp_all add: divided_def unat_eq_0)
  then have "free_acked n l largest = Some (l, largest)" by (cases td) simp_all
  with Nil \<open>n = 0\<close> show ?case by auto
next
  case (Cons g dn)
  then have l: "l = g # dn @ td" by (simp add: divided_def)
  show ?case
  proof (cases "n = 0")
    case True
    with Cons(2) l show ?thesis by (intro exI [of _ l] exI [of _ largest] exI [of _ "g # dn"]) simp
  next
    case False
    show ?thesis
    proof (cases "n < ss_len g")
      case True
      let ?g = "g\<lparr>ss_len := ss_len g - n\<rparr>"
      have "divided (?g # dn @ td) (?g # dn) td" using Cons(2) by (auto simp: divided_def)
      moreover have "unat (ss_len g - n) + unat n = unat (ss_len g)"
        using True by (simp add: unat_sub less_imp_le word_less_nat_alt)
      ultimately show ?thesis
        using True \<open>n \<noteq> 0\<close> l
        by (intro exI [of _ "?g # dn @ td"] exI [of _ largest] exI [of _ "?g # dn"]) (simp add: word_gt_0)
    next
      case False
      then have u: "unat (n - ss_len g) = unat n - unat (ss_len g)" "unat (ss_len g) \<le> unat n"
        by (simp_all add: unat_sub word_le_nat_alt not_less)
      let ?big = "if ss_len g > largest then ss_len g else largest"
      have "divided (dn @ td) dn td" using Cons(2) by (auto simp: divided_def)
      moreover have "unat (n - ss_len g) \<le> seg_bytes dn" using Cons(3) u by simp
      ultimately obtain l' big dn' where
        "free_acked (n - ss_len g) (dn @ td) ?big = Some (l', big)" "divided l' dn' td"
        "seg_bytes dn' + unat (n - ss_len g) = seg_bytes dn" using Cons(1) [of "dn @ td" "n - ss_len g" ?big] by blast
      with u False \<open>n \<noteq> 0\<close> l show ?thesis by (auto simp: word_gt_0)
    qed
  qed
qed

text \<open>The acknowledged bytes are in flight, hence the assertions on the way hold.\<close>

lemma ack_room:
  assumes "ledger s" "m_snd_una s < ack" "ack \<le> m_snd_nxt s"
  shows "\<exists>sbuf l' big. ConsumeReadData (unat (ack - m_snd_una s)) (m_sbuf s) = Some sbuf \<and>
    free_acked (ack - m_snd_una s) (m_slist s) (m_largest s) = Some (l', big) \<and>
    ledger (s\<lparr>m_snd_una := ack, m_sbuf := sbuf, m_slist := l', m_largest := big\<rparr>)"
proof -
  let ?n = "ack - m_snd_una s"
  from ledger_divided [OF assms(1)] obtain dn td where d: "divided (m_slist s) dn td"
    "m_snd_nxt s - m_snd_una s = of_nat (seg_bytes dn)" "seg_bytes dn < 2 ^ 32" by metis
  have u: "unat ?n = unat ack - unat (m_snd_una s)" "0 < unat ?n"
    "unat (m_snd_nxt s - m_snd_una s) = unat (m_snd_nxt s) - unat (m_snd_una s)"
    using assms(2,3) by (auto simp: unat_sub word_less_nat_alt word_le_nat_alt)
  have "unat (m_snd_nxt s - m_snd_una s) = seg_bytes dn" using d(2,3) by (simp add: unat_of_nat)
  then have n: "unat ?n \<le> seg_bytes dn" using u assms(2,3) by (simp add: word_less_nat_alt word_le_nat_alt)
  from free_acked_divided [OF d(1) n] obtain l' big dn' where
    f: "free_acked ?n (m_slist s) (m_largest s) = Some (l', big)" "divided l' dn' td"
    "seg_bytes dn' + unat ?n = seg_bytes dn" by blast
  have b: "fifo_ok (m_sbuf s)" "seg_bytes (m_slist s) = ff_data_length (m_sbuf s)" using assms(1) by (auto simp: ledger_account)
  then have "unat ?n \<le> ff_data_length (m_sbuf s)" "0 < ff_buffer_length (m_sbuf s)"
    using n u(2) d(1) by (auto simp: divided_def fifo_ok_def)
  from ConsumeReadData_spec [OF b(1) this] obtain sbuf where
    c: "ConsumeReadData (unat ?n) (m_sbuf s) = Some sbuf" "fifo_ok sbuf" "ff_state sbuf = ff_state (m_sbuf s)"
    "ff_buffer_length sbuf = ff_buffer_length (m_sbuf s)" "fifo_contents sbuf = drop (unat ?n) (fifo_contents (m_sbuf s))" by auto
  have "ff_data_length sbuf = ff_data_length (m_sbuf s) - unat ?n" 
    using c(5) by (metis length_drop length_fifo_contents)
  moreover have "seg_bytes l' + unat ?n = seg_bytes (m_slist s)" using f d(1) by (simp add: divided_def)
  moreover have "m_snd_nxt s - ack = of_nat (seg_bytes dn')"
  proof -
    have "m_snd_nxt s - ack = of_nat (seg_bytes dn) - ?n" using d(2) by (simp add: algebra_simps)
    also have "\<dots> = of_nat (seg_bytes dn')" unfolding f(3) [symmetric] by simp
    finally show ?thesis .
  qed
  ultimately have "ledger (s\<lparr>m_snd_una := ack, m_sbuf := sbuf, m_slist := l', m_largest := big\<rparr>)"
    using assms(1) c f(2) b by (auto simp: ledger_account)
  with c(1) f(1) show ?thesis by blast
qed

section \<open>The invariant of the object\<close>

definition limits_ok :: "PseudoTcp \<Rightarrow> bool" where
  "limits_ok s \<longleftrightarrow>
     MIN_RTO \<le> m_rx_rto s \<and> m_rx_rto s \<le> MAX_RTO \<and> unat (m_rwnd_scale s) \<le> 16 \<and> unat (m_msslevel s) \<le> 9 \<and>
     (m_mss s \<le> MAX_PACKET - PACKET_OVERHEAD \<or> - PACKET_OVERHEAD \<le> m_mss s) \<and> m_mtu_advise s \<le> MAX_PACKET"

definition tcp_ok :: "PseudoTcp \<Rightarrow> bool" where
  "tcp_ok s \<longleftrightarrow> ledger s \<and> limits_ok s"

lemma tcp_ok_cong:
  assumes "m_slist s' = m_slist s" "m_sbuf s' = m_sbuf s" "m_snd_nxt s' = m_snd_nxt s" "m_snd_una s' = m_snd_una s"
    "m_rx_rto s' = m_rx_rto s" "m_rwnd_scale s' = m_rwnd_scale s" "m_msslevel s' = m_msslevel s" "m_mss s' = m_mss s"
    "m_mtu_advise s' = m_mtu_advise s"
  shows "tcp_ok s' = tcp_ok s"
  using assms by (simp add: tcp_ok_def limits_ok_def ledger_def)

lemma max_mss: "MAX_PACKET - PACKET_OVERHEAD = 65419"
  by (simp add: tcp_constants)

lemma tcp_ok_sending:
  assumes "tcp_ok s" "sending_ok s s'"
  shows "tcp_ok s'"
  using assms by (auto simp: tcp_ok_def sending_ok_def limits_ok_def out_frame_iff mss_change_def max_mss)

text \<open>A size below the overhead wraps around; any other leaves room for the header.\<close>

lemma mss_range:
  assumes "a \<le> MAX_PACKET"
  shows "a - PACKET_OVERHEAD \<le> MAX_PACKET - PACKET_OVERHEAD \<or> - PACKET_OVERHEAD \<le> a - PACKET_OVERHEAD"
proof (cases "PACKET_OVERHEAD \<le> a")
  case True
  then have "a - PACKET_OVERHEAD \<le> MAX_PACKET - PACKET_OVERHEAD"
    using assms by (simp add: word_le_nat_alt unat_sub tcp_constants)
  then show ?thesis by simp
next
  case False
  then have "unat a < 116" by (simp add: word_le_nat_alt tcp_constants)
  then have "(0xFFFFFF8C :: u32) \<le> a + 0xFFFFFF8C" by (simp add: word_le_nat_alt unat_word_ariths)
  moreover have "- PACKET_OVERHEAD = 0xFFFFFF8C" by (simp add: tcp_constants)
  ultimately have "- PACKET_OVERHEAD \<le> a - PACKET_OVERHEAD" by (metis diff_conv_add_uminus)
  then show ?thesis by simp
qed

lemma tcp_ok_adjustMTU:
  assumes "tcp_ok s"
  shows "tcp_ok (adjustMTU s)"
proof -
  have lev: "unat (adjust_level m PACKET_MAXIMUMS 0) \<le> 9" for m by (simp add: PACKET_MAXIMUMS_def)
  have "m_mtu_advise s - PACKET_OVERHEAD \<le> MAX_PACKET - PACKET_OVERHEAD \<or> - PACKET_OVERHEAD \<le> m_mtu_advise s - PACKET_OVERHEAD"
    using assms mss_range by (simp add: tcp_ok_def limits_ok_def)
  with lev assms show ?thesis by (auto simp: tcp_ok_def limits_ok_def ledger_def adjustMTU_def Let_def)
qed

lemma scale_size_le:
  "unat n < 2 ^ (16 + j) \<Longrightarrow> unat k + j \<le> 16 \<Longrightarrow> unat (fst (scale_size k n)) \<le> 16"
proof (induction k n arbitrary: j rule: scale_size.induct)
  case (1 k n)
  show ?case
  proof (cases "n > 0xFFFF")
    case True
    then have big: "65535 < unat n" by (simp add: word_less_nat_alt)
    with 1(2) obtain i where j: "j = Suc i" by (cases j) auto
    have "unat (k + 1) = unat k + 1" using 1(3) j by (simp add: unat_word_ariths)
    moreover have "unat (drop_bit 1 n) < 2 ^ (16 + i)" 
    proof -
      have "unat n < 2 ^ (16 + i) * 2" using 1(2) j by (simp add: power_add)
      then have "unat n div 2 < 2 ^ (16 + i)" by (rule less_mult_imp_div_less)
      then show ?thesis by (simp add: drop_bit_eq_div unat_div)
    qed
    ultimately have "unat (fst (scale_size (k + 1) (drop_bit 1 n))) \<le> 16" using 1(1) [OF True, of i] 1(3) j by simp
    with True show ?thesis by (subst scale_size.simps) simp
  next
    case False
    with 1(3) show ?thesis by (subst scale_size.simps) simp
  qed
qed

lemma resizeReceiveBuffer_eq:
  assumes "resizeReceiveBuffer e n s = Some s'"
  shows "\<exists>rbuf len k t w. s' = s\<lparr>m_rbuf := rbuf, m_rbuf_len := len, m_rwnd_scale := k, m_ssthresh := t,
    m_rcv_wnd := w\<rparr> \<and> unat k \<le> 16"
proof -
  have "unat n < 2 ^ (16 + 16)" using unsigned_less [of n] by simp
  then have "unat (fst (scale_size 0 n)) \<le> 16" by (rule scale_size_le) simp
  with assms show ?thesis
    by (auto simp: resizeReceiveBuffer_def split: prod.splits if_splits Option.bind_splits) blast
qed

lemma parse_options_eq: "\<exists>k. snd (snd (parse_options buf os s)) = s\<lparr>m_swnd_scale := k\<rparr>"
proof (induction buf os s rule: parse_options.induct)
  case (1 buf os s)
  obtain k b1 where k: "ReadUInt8 buf = (k, b1)" by fastforce
  obtain l b2 where l: "ReadUInt8 b1 = (l, b2)" by fastforce
  have self: "\<exists>k. s = s\<lparr>m_swnd_scale := k\<rparr>" by (rule exI [of _ "m_swnd_scale s"]) simp
  have opt: "\<exists>k. applyOption v d n s = s\<lparr>m_swnd_scale := k\<rparr>" for v d n
    using self by (auto simp: applyOption_def applyWindowScaleOption_def)
  note IH = 1(1) [OF _ k [symmetric] refl] 1(2) [OF _ k [symmetric] refl _ _ l [symmetric] refl]
  let ?kind = "case k of None \<Rightarrow> TCP_OPT_EOL | Some v \<Rightarrow> v" and ?n = "case l of None \<Rightarrow> 0 | Some v \<Rightarrow> v"
  consider "Length buf = 0 \<or> ?kind = TCP_OPT_EOL" | "Length buf \<noteq> 0" "?kind \<noteq> TCP_OPT_EOL" "?kind = TCP_OPT_NOOP"
    | "Length buf \<noteq> 0" "?kind \<noteq> TCP_OPT_EOL" "?kind \<noteq> TCP_OPT_NOOP" "unat ?n \<le> Length b2"
    | "Length buf \<noteq> 0" "?kind \<noteq> TCP_OPT_EOL" "?kind \<noteq> TCP_OPT_NOOP" "\<not> unat ?n \<le> Length b2" by blast
  then show ?case
  proof cases
    case 1
    then have "snd (snd (parse_options buf os s)) = s" by (subst parse_options.simps) (auto simp: k Let_def)
    with self show ?thesis by simp
  next
    case 2
    then have "parse_options buf os s = parse_options b1 os s" by (subst parse_options.simps) (simp add: k Let_def)
    with IH(1) [OF 2] show ?thesis by simp
  next
    case 3
    then have "parse_options buf os s = parse_options (snd (Consume (unat ?n) b2)) (?kind # os)
        (applyOption ?kind (unread b2) (ucast ?n) s)" by (subst parse_options.simps) (simp add: k l Let_def)
    moreover obtain j where "applyOption ?kind (unread b2) (ucast ?n) s = s\<lparr>m_swnd_scale := j\<rparr>" using opt by blast
    ultimately show ?thesis using IH(2) [OF 3] by auto
  next
    case 4
    then have "snd (snd (parse_options buf os s)) = s" by (subst parse_options.simps) (simp add: k l Let_def)
    with self show ?thesis by simp
  qed
qed

lemma tcp_ok_parseOptions:
  assumes "tcp_ok s" "parseOptions e data s = Some s'"
  shows "tcp_ok s'" "m_state s' = m_state s"
proof -
  obtain b os t where p: "parse_options (new_ByteBufferReader data) [] s = (b, os, t)"
    by (cases "parse_options (new_ByteBufferReader data) [] s") auto
  with parse_options_eq [of "new_ByteBufferReader data" "[]" s] obtain k where t: "t = s\<lparr>m_swnd_scale := k\<rparr>" by auto
  have "tcp_ok s' \<and> m_state s' = m_state s"
    using assms p t by (auto simp: parseOptions_def tcp_ok_def limits_ok_def ledger_def
        split: if_splits dest!: resizeReceiveBuffer_eq)
  then show "tcp_ok s'" "m_state s' = m_state s" by simp_all
qed

lemma tcp_ok_queueConnectMessage:
  assumes "tcp_ok s" "queueConnectMessage s = Some s'"
  shows "tcp_ok s'"
proof -
  obtain data n w where q: "queue data (of_nat (length data)) True (s\<lparr>m_snd_wnd := n\<rparr>) = Some (w, s')"
    using assms(2) by (auto simp: queueConnectMessage_def Let_def buf_size_def)
  have "unat (of_nat (length data) :: u32) \<le> length data" by (simp add: unat_of_nat)
  moreover have "tcp_ok (s\<lparr>m_snd_wnd := n\<rparr>)" using assms(1) by (simp add: tcp_ok_def limits_ok_def ledger_def)
  ultimately show ?thesis
    using ledger_queue [OF _ q] q by (auto simp: tcp_ok_def limits_ok_def queue_def Let_def split: if_splits prod.splits)
qed

lemmas tcp_ok_fields = tcp_ok_def limits_ok_def ledger_def

text \<open>The members that the invariant does not mention.\<close>

lemma tcp_ok_update [simp]:
  "tcp_ok (s\<lparr>m_shutdown := x0\<rparr>) = tcp_ok s"  "tcp_ok (s\<lparr>m_error := x1\<rparr>) = tcp_ok s"
  "tcp_ok (s\<lparr>m_state := x2\<rparr>) = tcp_ok s"  "tcp_ok (s\<lparr>m_bReadEnable := x3\<rparr>) = tcp_ok s"
  "tcp_ok (s\<lparr>m_bWriteEnable := x4\<rparr>) = tcp_ok s"  "tcp_ok (s\<lparr>m_bOutgoing := x5\<rparr>) = tcp_ok s"
  "tcp_ok (s\<lparr>m_lasttraffic := x6\<rparr>) = tcp_ok s"  "tcp_ok (s\<lparr>m_rlist := x7\<rparr>) = tcp_ok s"
  "tcp_ok (s\<lparr>m_rbuf_len := x8\<rparr>) = tcp_ok s"  "tcp_ok (s\<lparr>m_rcv_nxt := x9\<rparr>) = tcp_ok s"
  "tcp_ok (s\<lparr>m_rcv_wnd := x10\<rparr>) = tcp_ok s"  "tcp_ok (s\<lparr>m_lastrecv := x11\<rparr>) = tcp_ok s"
  "tcp_ok (s\<lparr>m_rbuf := x12\<rparr>) = tcp_ok s"  "tcp_ok (s\<lparr>m_sbuf_len := x13\<rparr>) = tcp_ok s"
  "tcp_ok (s\<lparr>m_snd_wnd := x14\<rparr>) = tcp_ok s"  "tcp_ok (s\<lparr>m_lastsend := x15\<rparr>) = tcp_ok s"
  "tcp_ok (s\<lparr>m_swnd_scale := x16\<rparr>) = tcp_ok s"  "tcp_ok (s\<lparr>m_largest := x17\<rparr>) = tcp_ok s"
  "tcp_ok (s\<lparr>m_rto_base := x18\<rparr>) = tcp_ok s"  "tcp_ok (s\<lparr>m_ts_recent := x19\<rparr>) = tcp_ok s"
  "tcp_ok (s\<lparr>m_ts_lastack := x20\<rparr>) = tcp_ok s"  "tcp_ok (s\<lparr>m_rx_rttvar := x21\<rparr>) = tcp_ok s"
  "tcp_ok (s\<lparr>m_rx_srtt := x22\<rparr>) = tcp_ok s"  "tcp_ok (s\<lparr>m_ssthresh := x23\<rparr>) = tcp_ok s"
  "tcp_ok (s\<lparr>m_cwnd := x24\<rparr>) = tcp_ok s"  "tcp_ok (s\<lparr>m_dup_acks := x25\<rparr>) = tcp_ok s"
  "tcp_ok (s\<lparr>m_recover := x26\<rparr>) = tcp_ok s"  "tcp_ok (s\<lparr>m_t_ack := x27\<rparr>) = tcp_ok s"
  "tcp_ok (s\<lparr>m_use_nagling := x28\<rparr>) = tcp_ok s"  "tcp_ok (s\<lparr>m_ack_delay := x29\<rparr>) = tcp_ok s"
  "tcp_ok (s\<lparr>m_support_wnd_scale := x30\<rparr>) = tcp_ok s"  "tcp_ok (s\<lparr>tcp_calls := x31\<rparr>) = tcp_ok s"
  "tcp_ok (s\<lparr>tcp_trace := x32\<rparr>) = tcp_ok s"
  by (simp_all add: tcp_ok_fields)

lemma tcp_ok_closedown [simp]: "tcp_ok (closedown err s) = tcp_ok s"
  by (simp add: tcp_ok_fields closedown_def notify_def)

lemma tcp_ok_notify [simp]: "tcp_ok (notify ev s) = tcp_ok s"
  by (simp add: tcp_ok_fields notify_def)

lemma tcp_ok_process_control:
  assumes "tcp_ok s" "process_control e seg s = Some r" "r = Inl s' \<or> r = Inr (b, s')"
  shows "tcp_ok s'"
proof -
  note po = tcp_ok_parseOptions(1) [OF assms(1)]
  have qc: "tcp_ok v" if "queueConnectMessage (u\<lparr>m_state := x\<rparr>) = Some v" "tcp_ok u" for u v x
    using tcp_ok_queueConnectMessage [OF _ that(1)] that(2) by simp
  show ?thesis
    using assms by (auto simp: process_control_def split: if_splits Option.bind_splits
        dest!: po intro: qc intro!: tcp_ok_adjustMTU)
qed

lemma clamp_rto_bounds: "MIN_RTO \<le> clamp_rto t \<and> clamp_rto t \<le> MAX_RTO"
  by (auto simp: clamp_rto_def MIN_RTO_def MAX_RTO_def not_less)

lemma update_rtt_frame:
  "m_slist (update_rtt now seg s) = m_slist s" "m_sbuf (update_rtt now seg s) = m_sbuf s"
  "m_snd_nxt (update_rtt now seg s) = m_snd_nxt s" "m_snd_una (update_rtt now seg s) = m_snd_una s"
  "m_largest (update_rtt now seg s) = m_largest s"
  by (simp_all add: update_rtt_def Let_def)

lemma tcp_ok_update_rtt: "tcp_ok s \<Longrightarrow> tcp_ok (update_rtt now seg s)"
  using clamp_rto_bounds by (auto simp: tcp_ok_fields update_rtt_def Let_def)

lemma tcp_ok_ack_congestion:
  assumes "tcp_ok s" "ack_congestion e now n s = Some r" "r = Inl s' \<or> r = Inr s'"
  shows "tcp_ok s'"
proof -
  have "tcp_ok t" if "transmit e 0 now s = Some (ok, t)" for ok t
    by (rule tcp_ok_sending [OF assms(1) sending_ok_transmit_0 [OF that]])
  then show ?thesis
    using assms by (auto simp: ack_congestion_def split: if_splits Option.bind_splits)
qed

lemma tcp_ok_process_new_ack:
  assumes "tcp_ok s" "m_snd_una s < sg_ack seg" "sg_ack seg \<le> m_snd_nxt s"
    "process_new_ack e now seg s = Some r" "r = Inl s' \<or> r = Inr s'"
  shows "tcp_ok s'"
proof -
  let ?s1 = "update_rtt now seg s"
  have ok1: "tcp_ok ?s1" by (rule tcp_ok_update_rtt [OF assms(1)])
  have "ledger ?s1" using ok1 by (simp add: tcp_ok_def)
  then have a: "\<exists>sbuf l' big. ConsumeReadData (unat (sg_ack seg - m_snd_una ?s1)) (m_sbuf ?s1) = Some sbuf \<and>
      free_acked (sg_ack seg - m_snd_una ?s1) (m_slist ?s1) (m_largest ?s1) = Some (l', big) \<and>
      ledger (?s1\<lparr>m_snd_una := sg_ack seg, m_sbuf := sbuf, m_slist := l', m_largest := big\<rparr>)"
    by (rule ack_room) (use assms(2,3) in \<open>simp_all add: update_rtt_frame\<close>)
  with assms(4) obtain w sbuf l' big where
    g: "ack_congestion e now (sg_ack seg - m_snd_una ?s1)
       (?s1\<lparr>m_snd_wnd := w, m_snd_una := sg_ack seg,
          m_rto_base := (if sg_ack seg = m_snd_nxt ?s1 then 0 else now),
          m_sbuf := sbuf, m_slist := l', m_largest := big\<rparr>) = Some r"
    and l: "ledger (?s1\<lparr>m_snd_una := sg_ack seg, m_sbuf := sbuf, m_slist := l', m_largest := big\<rparr>)"
    by (auto simp: process_new_ack_def Let_def split: Option.bind_splits)
  show ?thesis
    by (rule tcp_ok_ack_congestion [OF _ g assms(5)]) (use ok1 l in \<open>simp add: tcp_ok_fields\<close>)
qed

lemma tcp_ok_process_dup_ack:
  assumes "tcp_ok s" "process_dup_ack e now seg s = Some r" "r = Inl s' \<or> r = Inr s'"
  shows "tcp_ok s'"
proof -
  have "tcp_ok t" if "transmit e 0 now (s\<lparr>m_snd_wnd := w, m_dup_acks := d\<rparr>) = Some (ok, t)" for ok t w d
    by (rule tcp_ok_sending [OF _ sending_ok_transmit_0 [OF that]]) (simp add: assms(1))
  then show ?thesis
    using assms by (auto simp: process_dup_ack_def Let_def split: if_splits Option.bind_splits)
qed

lemma tcp_ok_process_ack:
  assumes "tcp_ok s" "process_ack e now seg s = Some r" "r = Inl s' \<or> r = Inr s'"
  shows "tcp_ok s'"
  using assms by (auto simp: process_ack_def split: if_splits intro: tcp_ok_process_new_ack tcp_ok_process_dup_ack)

section \<open>Every operation keeps the invariant\<close>

lemma tcp_ok_open_passive: "tcp_ok s \<Longrightarrow> tcp_ok (open_passive b s)"
  by (simp add: open_passive_def tcp_ok_adjustMTU)

lemma tcp_ok_notify_writeable: "tcp_ok (notify_writeable s) = tcp_ok s"
  by (simp add: notify_writeable_def)

lemma tcp_ok_recover_segments:
  "recover_segments l f b s = Some (f', b', s') \<Longrightarrow> tcp_ok s' = tcp_ok s"
  by (induction l f b s rule: recover_segments.induct) (auto simp: Let_def split: if_splits Option.bind_splits)

lemma tcp_ok_process_data:
  assumes "process_data seg f s = Some r" "r = Inl s' \<or> r = Inr (f', b, s')"
  shows "tcp_ok s' = tcp_ok s"
proof -
  have "tcp_ok t = tcp_ok s" if "store_data seg s = Some (Inl t) \<or> store_data seg s = Some (Inr (x, y, t))" for x y t
    using that by (auto simp: store_data_def Let_def split: if_splits Option.bind_splits prod.splits)
  then show ?thesis
    using assms by (auto simp: process_data_def split: if_splits Option.bind_splits sum.splits
        dest!: tcp_ok_recover_segments)
qed

lemma tcp_ok_finish_segment:
  assumes "tcp_ok s" "finish_segment e b seg s = Some (r, s')"
  shows "tcp_ok s'"
proof -
  let ?s1 = "notify_writeable (open_passive b s)"
  have ok1: "tcp_ok ?s1" using assms(1) by (simp add: tcp_ok_notify_writeable tcp_ok_open_passive)
  have snd: "tcp_ok u" if "attemptSend e f t = Some u" "tcp_ok t" for f t u
    by (rule tcp_ok_sending [OF that(2) attemptSend_ok [OF that(1)]])
  obtain d where d: "process_data (trim_segment seg ?s1) (ack_flags seg ?s1) ?s1 = Some d"
    using assms(2) by (auto simp: finish_segment_def Let_def split: Option.bind_splits)
  show ?thesis
  proof (cases d)
    case (Inl t)
    with assms(2) d have "s' = t" by (simp add: finish_segment_def Let_def)
    with Inl tcp_ok_process_data [OF d, of t] ok1 show ?thesis by simp
  next
    case (Inr x)
    then obtain f n t where x: "d = Inr (f, n, t)" by (cases x) auto
    with assms(2) d obtain u where "attemptSend e f t = Some u" "s' = notify_readable n u"
      by (auto simp: finish_segment_def Let_def)
    with snd x tcp_ok_process_data [OF d, of t f n] ok1 show ?thesis by (auto simp: notify_readable_def)
  qed
qed

lemma tcp_ok_process:
  assumes "tcp_ok s" "process e seg s = Some (r, s')"
  shows "tcp_ok s'"
proof -
  let ?now = "env_now e (tcp_calls s)"
  let ?s2 = "s\<lparr>tcp_calls := Suc (tcp_calls s), m_lasttraffic := ?now, m_lastrecv := ?now, m_bOutgoing := False\<rparr>"
  have ok2: "tcp_ok ?s2" using assms(1) by simp
  show ?thesis
  proof (cases "sg_conv seg \<noteq> m_conv s \<or> m_state s = TCP_CLOSED \<or> sg_flags seg AND FLAG_RST \<noteq> 0")
    case True
    with assms show ?thesis by (auto simp: process_def Now_def Let_def split: if_splits)
  next
    case False
    with assms(2) obtain c where c: "process_control e seg ?s2 = Some c"
      by (auto simp: process_def Now_def Let_def split: Option.bind_splits)
    show ?thesis
    proof (cases c)
      case (Inl t)
      with assms(2) False c have "s' = t" by (auto simp: process_def Now_def Let_def)
      with Inl tcp_ok_process_control [OF ok2 c, of t] show ?thesis by simp
    next
      case (Inr x)
      then obtain b s3 where x: "c = Inr (b, s3)" by (cases x) auto
      let ?s4 = "if sg_seq seg \<le> m_ts_lastack s3 \<and> m_ts_lastack s3 < sg_seq seg + sg_len seg
        then s3\<lparr>m_ts_recent := sg_tsval seg\<rparr> else s3"
      have ok4: "tcp_ok ?s4" using tcp_ok_process_control [OF ok2 c, of s3 b] x by simp
      from assms(2) False c x obtain a where a: "process_ack e ?now seg ?s4 = Some a"
        and r: "(case a of Inl t \<Rightarrow> Some (False, t) | Inr s5 \<Rightarrow> finish_segment e b seg s5) = Some (r, s')"
        by (auto simp: process_def Now_def Let_def split: Option.bind_splits)
      have "tcp_ok t" if "a = Inl t \<or> a = Inr t" for t using tcp_ok_process_ack [OF ok4 a that] .
      with r show ?thesis by (auto split: sum.splits intro: tcp_ok_finish_segment)
    qed
  qed
qed

lemma tcp_ok_NotifyPacket:
  assumes "tcp_ok s" "NotifyPacket e buffer s = Some (r, s')"
  shows "tcp_ok s'"
  using assms by (auto simp: NotifyPacket_def parse_def split: if_splits intro: tcp_ok_process)

lemma double_rto:
  assumes "MIN_RTO \<le> r" "r \<le> MAX_RTO" "limit = DEF_RTO \<or> limit = MAX_RTO"
  shows "MIN_RTO \<le> min limit (r * 2) \<and> min limit (r * 2) \<le> MAX_RTO"
proof -
  have "unat (r * 2) = unat r * 2" "250 \<le> unat r" "unat r \<le> 60000"
    using assms(1,2) by (auto simp: word_le_nat_alt tcp_constants unat_word_ariths)
  with assms(3) show ?thesis by (auto simp: min_def word_le_nat_alt tcp_constants)
qed

lemma tcp_ok_rto:
  assumes "tcp_ok s" "limit = DEF_RTO \<or> limit = MAX_RTO"
  shows "tcp_ok (s\<lparr>m_rx_rto := min limit (m_rx_rto s * 2)\<rparr>)"
  using assms double_rto [of "m_rx_rto s" limit] by (simp add: tcp_ok_fields)

lemma tcp_ok_clock_retransmit:
  assumes "tcp_ok s" "clock_retransmit e now s = Some r" "r = Inl s' \<or> r = Inr s'"
  shows "tcp_ok s'"
proof -
  have t: "tcp_ok t" if "transmit e 0 now s = Some (ok, t)" for ok t
    by (rule tcp_ok_sending [OF assms(1) sending_ok_transmit_0 [OF that]])
  have u: "tcp_ok (t\<lparr>m_ssthresh := a, m_cwnd := c, m_rx_rto := min l (m_rx_rto t * 2)\<rparr>)"
    if "tcp_ok t" "l = DEF_RTO \<or> l = MAX_RTO" for t l a c using tcp_ok_rto [OF that] by (simp add: tcp_ok_fields)
  show ?thesis
    using assms t u by (auto simp: clock_retransmit_def Let_def split: if_splits Option.bind_splits)
qed

lemma tcp_ok_clock_probe:
  assumes "tcp_ok s" "clock_probe e now s = Some r" "r = Inl s' \<or> r = Inr s'"
  shows "tcp_ok s'"
proof -
  have "tcp_ok (t\<lparr>m_lastsend := x, m_rx_rto := min MAX_RTO (m_rx_rto t * 2)\<rparr>)"
    if "packet e q 0 0 0 s = Some (w, t)" for q w t x
    using tcp_ok_rto [OF tcp_ok_sending [OF assms(1) sending_ok_packet [OF that]], of MAX_RTO]
    by (simp add: tcp_ok_fields)
  with assms show ?thesis by (auto simp: clock_probe_def split: if_splits Option.bind_splits)
qed

lemma tcp_ok_NotifyClock:
  assumes "tcp_ok s" "NotifyClock e now s = Some s'"
  shows "tcp_ok s'"
proof -
  have a: "tcp_ok u" if "clock_ack e now t = Some u" "tcp_ok t" for t u
    using that tcp_ok_sending sending_ok_packet by (fastforce simp: clock_ack_def split: if_splits)
  have p: "tcp_ok u" if "clock_probe e now t = Some (Inl u) \<or> clock_probe e now t = Some (Inr u)" "tcp_ok t" for t u
    using that tcp_ok_clock_probe by blast
  have r: "tcp_ok u" if "clock_retransmit e now s = Some (Inl u) \<or> clock_retransmit e now s = Some (Inr u)" for u
    using that assms(1) tcp_ok_clock_retransmit by blast
  show ?thesis
    using assms by (auto simp: NotifyClock_def split: if_splits Option.bind_splits sum.splits)
      (blast intro: a p r)+
qed

lemma tcp_ok_attemptSend: "tcp_ok s \<Longrightarrow> attemptSend e f s = Some s' \<Longrightarrow> tcp_ok s'"
  by (rule tcp_ok_sending [OF _ attemptSend_ok])

lemma tcp_ok_Connect:
  assumes "tcp_ok s" "Connect e s = Some (r, s')"
  shows "tcp_ok s'"
proof -
  have "tcp_ok u" if "queueConnectMessage (s\<lparr>m_state := TCP_SYN_SENT\<rparr>) = Some t" "attemptSend e sfNone t = Some u" for t u
    using tcp_ok_attemptSend [OF tcp_ok_queueConnectMessage [OF _ that(1)] that(2)] assms(1) by simp
  with assms show ?thesis by (auto simp: Connect_def split: if_splits Option.bind_splits)
qed

lemma tcp_ok_NotifyMTU:
  assumes "tcp_ok s"
  shows "tcp_ok (NotifyMTU mtu s)"
proof -
  have "(ucast mtu :: u32) \<le> MAX_PACKET"
    using unsigned_less [where ?'a = nat, of mtu]
    by (simp add: MAX_PACKET_def word_le_nat_alt unsigned_ucast_eq take_bit_nat_def)
  then have "tcp_ok (s\<lparr>m_mtu_advise := ucast mtu\<rparr>)" using assms by (simp add: tcp_ok_fields)
  then show ?thesis by (simp add: NotifyMTU_def Let_def tcp_ok_adjustMTU)
qed

lemma tcp_ok_queue:
  assumes "tcp_ok s" "queue data len b s = Some (w, s')" "unat len \<le> length data"
  shows "tcp_ok s'"
  using assms ledger_queue [OF _ assms(2,3)]
  by (auto simp: tcp_ok_def limits_ok_def queue_def Let_def split: if_splits prod.splits)

lemma tcp_ok_Send:
  assumes "tcp_ok s" "PseudoTcp_Send e data s = Some (r, s')"
  shows "tcp_ok s'"
proof -
  have "unat (of_nat (length data) :: u32) \<le> length data" by (simp add: unat_of_nat)
  then have "tcp_ok u" if "queue data (of_nat (length data)) False s = Some (w, t)" "attemptSend e sfNone t = Some u" for w t u
    using tcp_ok_attemptSend [OF tcp_ok_queue [OF assms(1) that(1)] that(2)] by simp
  with assms show ?thesis by (auto simp: PseudoTcp_Send_def split: if_splits Option.bind_splits)
qed

lemma tcp_ok_Recv:
  assumes "tcp_ok s" "PseudoTcp_Recv e n s = Some (r, s')"
  shows "tcp_ok s'"
  using assms by (auto simp: PseudoTcp_Recv_def Let_def split: if_splits prod.splits intro: tcp_ok_attemptSend [rotated])

lemma tcp_ok_SetOption:
  assumes "tcp_ok s" "SetOption e opt v s = Some s'"
  shows "tcp_ok s'"
proof -
  have "tcp_ok (resizeSendBuffer e n s)" for n
  proof -
    have f: "fifo_ok (m_sbuf s)" "ff_buffer_length (m_sbuf s) < 2 ^ 32" using assms(1) by (auto simp: tcp_ok_def ledger_account)
    have "length (fresh_memory e n) < 2 ^ 32" using unsigned_less [of n] by (simp add: fresh_memory_def)
    with f assms(1) show ?thesis
      by (simp add: resizeSendBuffer_def tcp_ok_fields send_account_def SetCapacity_eq [OF f(1)])
  qed
  with assms show ?thesis
    by (auto simp: SetOption_def tcp_ok_fields split: Option.splits if_splits dest!: resizeReceiveBuffer_eq)
qed

section \<open>Reachable states\<close>

text \<open>
  One call of the user, the network or the clock. The size given to \<open>NotifyMTU\<close> is at least the overhead of
  a packet: below it, the computation of the segment size wraps around.
\<close>

inductive tcp_step :: "tcp_env \<Rightarrow> PseudoTcp \<Rightarrow> PseudoTcp \<Rightarrow> bool" for e where
  step_connect: "Connect e s = Some (r, s') \<Longrightarrow> tcp_step e s s'"
| step_packet: "NotifyPacket e buffer s = Some (b, s') \<Longrightarrow> tcp_step e s s'"
| step_clock: "NotifyClock e now s = Some s' \<Longrightarrow> tcp_step e s s'"
| step_mtu: "tcp_step e s (NotifyMTU mtu s)"
| step_send: "PseudoTcp_Send e data s = Some (w, s') \<Longrightarrow> tcp_step e s s'"
| step_recv: "PseudoTcp_Recv e n s = Some (bs, s') \<Longrightarrow> tcp_step e s s'"
| step_close: "tcp_step e s (PseudoTcp_Close force s)"
| step_option: "SetOption e opt v s = Some s' \<Longrightarrow> tcp_step e s s'"
| step_no_scale: "tcp_step e s (disableWindowScale s)"

inductive tcp_reachable :: "tcp_env \<Rightarrow> u32 \<Rightarrow> PseudoTcp \<Rightarrow> bool" for e conv where
  reach_new: "tcp_reachable e conv (new_PseudoTcp e conv)"
| reach_step: "tcp_reachable e conv s \<Longrightarrow> tcp_step e s s' \<Longrightarrow> tcp_reachable e conv s'"

lemma tcp_ok_new: "tcp_ok (new_PseudoTcp e conv)"
proof -
  have "length (fresh_memory e DEFAULT_SND_BUF_SIZE) < 2 ^ 32" by (simp add: fresh_memory_def tcp_constants)
  moreover have "divided [] [] []" by (simp add: divided_def)
  ultimately show ?thesis
    by (auto simp: new_PseudoTcp_def Let_def tcp_ok_fields send_account_def new_FifoBuffer_def fifo_ok_def
        tcp_constants)
qed

lemma tcp_ok_step: "tcp_step e s s' \<Longrightarrow> tcp_ok s \<Longrightarrow> tcp_ok s'"
  by (erule tcp_step.cases)
    (auto simp: PseudoTcp_Close_def disableWindowScale_def intro: tcp_ok_Connect tcp_ok_NotifyPacket
      tcp_ok_NotifyClock tcp_ok_NotifyMTU tcp_ok_Send tcp_ok_Recv tcp_ok_SetOption)

lemma tcp_ok_reachable: "tcp_reachable e conv s \<Longrightarrow> tcp_ok s"
  by (induction rule: tcp_reachable.induct) (auto intro: tcp_ok_new tcp_ok_step)

section \<open>Behaviour outside of the intention\<close>

text \<open>The window scale of the peer is not checked: from 32 on, the next acknowledgment shifts by the width.\<close>

lemma window_scale_unchecked:
  assumes "32 \<le> unat k" "sg_ack g = m_snd_una s"
  shows "process_ack e now g (applyOption TCP_OPT_WND_SCALE [k] 1 s) = None"
  using assms by (simp add: process_ack_def process_dup_ack_def shift_left_def applyOption_def
      applyWindowScaleOption_def TCP_OPT_MSS_def TCP_OPT_WND_SCALE_def)

text \<open>A size below the overhead of a packet wraps around to an enormous segment size.\<close>

lemma small_mtu_wraps: "m_state s = TCP_ESTABLISHED \<Longrightarrow> m_mss (NotifyMTU 100 s) = 0xFFFFFFF0"
  by (simp add: NotifyMTU_def adjustMTU_def Let_def tcp_constants)

text \<open>An acknowledgment that is due is dropped when Nagle's algorithm holds back a partial segment.\<close>

lemma nagle_drops_ack:
  assumes "sendable s \<noteq> 0" "m_use_nagling s" "m_snd_una s < m_snd_nxt s" "sendable s < m_mss s"
  shows "attemptSend_step e sfImmediateAck now s = Some (Send_Done s)"
  using assms by (simp add: attemptSend_step_def)

text \<open>
  An acknowledgment of a part of the first segment shortens the segment but leaves its sequence number, which
  then lies before \<open>m_snd_una\<close>: the offset of the next retransmission wraps around and the assertion on
  \<open>ReadOffset\<close> fails.
\<close>

lemma partial_ack_breaks_retransmit:
  assumes "m_slist s = h # gs" "ss_seq h = m_snd_una s - n" "0 < n" "unat n < 2 ^ 31"
    "ss_len h \<noteq> 0" "m_mss s \<noteq> 0" "ss_xmit h < 15" "ff_data_length (m_sbuf s) < 2 ^ 31" "fifo_ok (m_sbuf s)"
  shows "transmit e 0 now s = None"
proof -
  let ?off = "ss_seq h - m_snd_una s" and ?n = "min (ss_len h) (m_mss s)"
  have "?off = - n" using assms(2) by simp
  moreover have "(unat (- n) + unat n) mod 2 ^ 32 = 0" using unat_word_ariths(1) [of "- n" n] by simp
  moreover have "0 < unat n" using assms(3) by (simp add: word_less_nat_alt)
  ultimately have "2 ^ 32 \<le> unat ?off + unat n" by (metis add_gr_0 mod_less not_less neq0_conv)
  then have "ff_data_length (m_sbuf s) \<le> unat ?off" using assms(4,8) by simp
  moreover have "?n \<noteq> 0" using assms(5,6) by (simp add: min_def)
  ultimately have "packet e q f ?off ?n s = None" for q f
    using assms(9) by (auto simp: packet_def Now_def ReadOffset_def ReadOffsetLocked_eq split: Option.bind_splits)
  then have "transmit_loop e h ?n s = None" by (subst transmit_loop.simps) simp
  with assms(1,7) show ?thesis by (auto simp: transmit_def Let_def not_le intro: less_trans)
qed

lemma partial_ack_keeps_seq:
  "0 < n \<Longrightarrow> n < ss_len g \<Longrightarrow>
   free_acked n (g # gs) largest = Some (g\<lparr>ss_len := ss_len g - n\<rparr> # gs, largest) \<and>
   ss_seq (g\<lparr>ss_len := ss_len g - n\<rparr>) = ss_seq g"
  by simp

section \<open>Properties\<close>

lemma packet_empty:
  assumes "limits_ok s"
  shows "packet e seq flags off 0 s \<noteq> None"
  using assms by (simp add: packet_def Now_def shift_right_def limits_ok_def write_packet_def Let_def tcp_constants)

lemma account_views:
  assumes "ledger s"
  shows "\<exists>done todo. divided (m_slist s) done todo \<and> unat (GetBytesInFlight s) = seg_bytes done \<and>
    unat (GetBytesBufferedNotSent s) = seg_bytes todo"
proof -
  from ledger_divided [OF assms] obtain dn td where d: "divided (m_slist s) dn td"
    "m_snd_nxt s - m_snd_una s = of_nat (seg_bytes dn)" "seg_bytes dn < 2 ^ 32" by metis
  have b: "seg_bytes dn + seg_bytes td = ff_data_length (m_sbuf s)" "ff_data_length (m_sbuf s) < 2 ^ 32"
    using assms d(1) by (auto simp: ledger_account divided_def fifo_ok_def)
  have "GetBytesBufferedNotSent s = of_nat (ff_data_length (m_sbuf s)) - (m_snd_nxt s - m_snd_una s)"
    by (simp add: GetBytesBufferedNotSent_def GetBuffered_def algebra_simps)
  also have "\<dots> = of_nat (seg_bytes td)" unfolding d(2) b(1) [symmetric] by simp
  finally show ?thesis
    using d b by (intro exI [of _ dn] exI [of _ td]) (simp add: GetBytesInFlight_def unat_of_nat)
qed

lemma sendable_unsent:
  assumes "ledger s" "sendable s \<noteq> 0"
  shows "next_unsent (m_slist s) \<noteq> None"
proof
  assume n: "next_unsent (m_slist s) = None"
  from ledger_divided [OF assms(1)] obtain dn td where d: "divided (m_slist s) dn td"
    "m_snd_nxt s - m_snd_una s = of_nat (seg_bytes dn)" "takeWhile (\<lambda>g. ss_xmit g > 0) (m_slist s) = dn" by metis
  with n have "td = []" by (auto simp: next_unsent_def Let_def divided_def split: if_splits)
  with d assms(1) have "of_nat (GetBuffered (m_sbuf s)) - (m_snd_nxt s - m_snd_una s) = 0"
    by (simp add: ledger_account divided_def GetBuffered_def)
  then have "sendable s = 0" by (simp add: sendable_def Let_def)
  with assms(2) show False by simp
qed

text \<open>C8. In every reachable state, whatever packets, sizes and times it was told of: the retransmission timeout is
  between 250 ms and one minute however often it was doubled or estimated anew; the window scale of the own side is
  at most 16; the level points into the table of packet sizes with an entry behind it; the largest segment fits into
  a packet with its header, or is the wrapped difference of a reported MTU below the overhead of a packet; and a
  packet without payload can always be built. The window scale the peer announces is not bounded.\<close>

theorem tcp_limits:
  assumes "tcp_reachable e conv s"
  shows "MIN_RTO \<le> m_rx_rto s \<and> m_rx_rto s \<le> MAX_RTO \<and> unat (m_rwnd_scale s) \<le> 16 \<and>
    unat (m_msslevel s + 1) < length PACKET_MAXIMUMS \<and>
    (unat HEADER_SIZE + unat (m_mss s) \<le> unat MAX_PACKET \<or> - PACKET_OVERHEAD \<le> m_mss s) \<and>
    packet e seq flags off 0 s \<noteq> None"
proof -
  have l: "limits_ok s" using tcp_ok_reachable [OF assms] by (simp add: tcp_ok_def)
  then have "unat (m_msslevel s + 1) < 11" by (simp add: limits_ok_def unat_word_ariths)
  moreover have "unat HEADER_SIZE + unat (m_mss s) \<le> unat MAX_PACKET" if "m_mss s \<le> MAX_PACKET - PACKET_OVERHEAD"
    using that by (simp add: max_mss word_le_nat_alt [of "m_mss s"]) (simp add: tcp_constants)
  ultimately show ?thesis
    using l packet_empty [OF l] by (auto simp: limits_ok_def PACKET_MAXIMUMS_def)
qed

definition sample_env :: tcp_env where
  "sample_env = \<lparr>env_now = (\<lambda>n. 1000 + of_nat n), env_write = (\<lambda>_ _. WR_SUCCESS), env_fresh = (\<lambda>_. 0)\<rparr>"

theorem tcp_limits_witness:
  "tcp_reachable sample_env 7 (NotifyMTU 1400 (new_PseudoTcp sample_env 7)) \<and>
   MIN_RTO \<le> m_rx_rto (NotifyMTU 1400 (new_PseudoTcp sample_env 7)) \<and>
   packet sample_env 0 0 0 0 (NotifyMTU 1400 (new_PseudoTcp sample_env 7)) \<noteq> None"
proof -
  have r: "tcp_reachable sample_env 7 (NotifyMTU 1400 (new_PseudoTcp sample_env 7))"
    by (intro reach_step [OF reach_new] step_mtu)
  with tcp_limits [OF r] show ?thesis by blast
qed

text \<open>C4. In every reachable state the segments of the send list divide the buffered bytes among them,
  the transmitted ones first: \<open>GetBytesInFlight\<close> is the size of the transmitted ones and
  \<open>GetBytesBufferedNotSent\<close> that of the others. Hence an acknowledgment inside the window never runs out of
  buffered bytes or segments to free, and when the windows allow sending there is a segment to send: the
  assertions of both loops hold, whatever the peer, the network and the clock do.\<close>

theorem tcp_send_account:
  assumes "tcp_reachable e conv s"
  shows "(\<exists>done todo. divided (m_slist s) done todo \<and> seg_bytes done + seg_bytes todo = GetBuffered (m_sbuf s) \<and>
      unat (GetBytesInFlight s) = seg_bytes done \<and> unat (GetBytesBufferedNotSent s) = seg_bytes todo) \<and>
    (m_snd_una s < ack \<and> ack \<le> m_snd_nxt s \<longrightarrow>
      ConsumeReadData (unat (ack - m_snd_una s)) (m_sbuf s) \<noteq> None \<and>
      free_acked (ack - m_snd_una s) (m_slist s) (m_largest s) \<noteq> None) \<and>
    (sendable s \<noteq> 0 \<longrightarrow> next_unsent (m_slist s) \<noteq> None)"
proof -
  have l: "ledger s" using tcp_ok_reachable [OF assms] by (simp add: tcp_ok_def)
  from account_views [OF l] obtain dn td where d: "divided (m_slist s) dn td"
    "unat (GetBytesInFlight s) = seg_bytes dn" "unat (GetBytesBufferedNotSent s) = seg_bytes td" by blast
  moreover have "seg_bytes dn + seg_bytes td = GetBuffered (m_sbuf s)"
    using l d(1) by (simp add: ledger_account divided_def GetBuffered_def)
  ultimately show ?thesis using ack_room [OF l, of ack] sendable_unsent [OF l] by blast
qed

text \<open>The connect message of a new object is four bytes in flight.\<close>

lemma sample_first_send:
  assumes t: "m_slist t = [new_SSegment 0 4 True]" "m_snd_una t = 0" "m_snd_nxt t = 0" "m_snd_wnd t = 4"
    "m_rwnd_scale t = 0" "m_mss t = 180" "m_cwnd t = 360" "m_dup_acks t = 0" "m_rto_base t = 0" "m_state t = TCP_SYN_SENT"
    and fd: "ff_data_length (m_sbuf t) = 4" and ro: "ReadOffset 4 0 (m_sbuf t) = (SR_SUCCESS, [0, 3, 1, 0])"
  shows "\<exists>v. attemptSend_loop sample_env sfNone now t = Some v \<and> m_snd_nxt v = 4 \<and> m_snd_una v = 0"
proof -
  have sd: "sendable t = 4" using t fd by (simp add: sendable_def Let_def GetBuffered_def)
  have "\<exists>u. packet sample_env 0 FLAG_CTL 0 4 t = Some (WR_SUCCESS, u)"
    using t ro by (simp add: packet_def Now_def shift_right_def write_packet_def Let_def tcp_constants)
      (simp add: sample_env_def)
  then obtain u where p: "packet sample_env 0 FLAG_CTL 0 4 t = Some (WR_SUCCESS, u)" by blast
  note pf = packet_frame [OF p]
  have "transmit_loop sample_env (new_SSegment 0 4 True) 4 t = Some (Some 4, u)"
    using t p by (subst transmit_loop.simps) (simp add: new_SSegment_def)
  then have "\<exists>v. transmit sample_env 0 now t = Some (True, v) \<and> m_snd_nxt v = 4 \<and> m_snd_una v = 0 \<and> m_sbuf v = m_sbuf t"
    using t pf by (auto simp: transmit_def Let_def new_SSegment_def send_frame_iff)
  then obtain v where v: "transmit sample_env 0 now t = Some (True, v)" "m_snd_nxt v = 4" "m_snd_una v = 0"
    "m_sbuf v = m_sbuf t" by blast
  have "split_segment 0 4 (m_slist t) = m_slist t" using t by (simp add: split_segment_def new_SSegment_def)
  moreover have "next_unsent (m_slist t) = Some 0" using t by (simp add: next_unsent_def new_SSegment_def)
  ultimately have m: "attemptSend_step sample_env sfNone now t = Some (Send_More v)"
    using sd v(1) t(2,3) by (simp add: attemptSend_step_def)
  have "sendable v = 0" using v fd by (simp add: sendable_def Let_def GetBuffered_def)
  then have "attemptSend_loop sample_env sfNone now v = Some v"
    by (subst attemptSend_loop.simps) (simp add: attemptSend_step_def)
  with m attemptSend_loop.simps [of sample_env sfNone now t] v show ?thesis by simp
qed

lemma sample_connect:
  "\<exists>s. Connect sample_env (new_PseudoTcp sample_env 7) = Some (True, s) \<and> GetBytesInFlight s = 4 \<and>
     m_snd_una s < m_snd_nxt s"
proof -
  define n where "n = new_PseudoTcp sample_env 7"
  let ?b = "[0, 3, 1, 0] :: bytes"
  have n: "m_state n = TCP_LISTEN" "m_slist n = []" "m_snd_una n = 0" "m_snd_nxt n = 0" "m_support_wnd_scale n"
    "m_rwnd_scale n = 0" "m_mss n = 180" "m_cwnd n = 360" "m_dup_acks n = 0" "m_lastsend n = 1000" "m_rx_rto n = 3000"
    "m_rto_base n = 0" "tcp_calls n = 1" "m_sbuf n = new_FifoBuffer (fresh_memory sample_env DEFAULT_SND_BUF_SIZE)"
    by (simp_all add: n_def new_PseudoTcp_def Let_def tcp_constants sample_env_def)
  have sb: "fifo_ok (m_sbuf n)" "ff_data_length (m_sbuf n) = 0" "ff_buffer_length (m_sbuf n) = 92160"
    "ff_state (m_sbuf n) = SS_OPEN" "fifo_contents (m_sbuf n) = []"
    by (simp_all add: n(14)) (simp_all add: new_FifoBuffer_def fresh_memory_def tcp_constants)
  define f where "f = snd (snd (Write ?b (m_sbuf n)))"
  have f: "fifo_ok f" "fifo_contents f = ?b" using Write_eq [OF sb(1), of ?b] sb by (simp_all add: f_def)
  have fd: "ff_data_length f = 4" using f(2) length_fifo_contents [of f] by (simp del: length_fifo_contents)
  have ro: "ReadOffset 4 0 f = (SR_SUCCESS, ?b)" using f fd by (simp add: ReadOffset_def ReadOffsetLocked_eq)
  let ?s1 = "n\<lparr>m_state := TCP_SYN_SENT, m_snd_wnd := 4, m_slist := [new_SSegment 0 4 True], m_sbuf := f\<rparr>"
  let ?w = "WriteUInt8 0 (WriteUInt8 1 (WriteUInt8 TCP_OPT_WND_SCALE (WriteUInt8 CTL_CONNECT new_ByteBufferWriter)))"
  have w: "buf_data ?w = ?b" "buf_size ?w = 4"
    by (simp_all add: buf_size_def buf_data_writes buf_data_new_writer CTL_CONNECT_def TCP_OPT_WND_SCALE_def obj_bytes_1)
  have "queue ?b 4 True (n\<lparr>m_state := TCP_SYN_SENT, m_snd_wnd := 4\<rparr>) = Some (of_nat (fst (snd (Write ?b (m_sbuf n)))), ?s1)"
    using n sb by (simp add: queue_def Let_def GetWriteRemaining_def GetBuffered_def f_def split: prod.splits)
  then have q: "queueConnectMessage (n\<lparr>m_state := TCP_SYN_SENT\<rparr>) = Some ?s1"
    using n w by (simp add: queueConnectMessage_def Let_def)
  have "TimeDiff32 1001 1000 = 1" by (simp add: TimeDiff32_def)
  then have "attemptSend sample_env sfNone ?s1 = attemptSend_loop sample_env sfNone 1001 (?s1\<lparr>tcp_calls := Suc (Suc 0)\<rparr>)"
    using n by (simp add: attemptSend_def Now_def sample_env_def)
  moreover from sample_first_send [of "?s1\<lparr>tcp_calls := Suc (Suc 0)\<rparr>" 1001] n fd ro obtain v where
    "attemptSend_loop sample_env sfNone 1001 (?s1\<lparr>tcp_calls := Suc (Suc 0)\<rparr>) = Some v" "m_snd_nxt v = 4" "m_snd_una v = 0"
    by auto
  ultimately show ?thesis using q n(1) by (auto simp: Connect_def n_def [symmetric] GetBytesInFlight_def)
qed

theorem tcp_send_account_witness:
  "\<exists>s done todo. tcp_reachable sample_env 7 s \<and> divided (m_slist s) done todo \<and> seg_bytes done = 4 \<and>
     ConsumeReadData (unat (m_snd_nxt s - m_snd_una s)) (m_sbuf s) \<noteq> None"
proof -
  obtain s where s: "Connect sample_env (new_PseudoTcp sample_env 7) = Some (True, s)" "GetBytesInFlight s = 4"
    "m_snd_una s < m_snd_nxt s" using sample_connect by blast
  have r: "tcp_reachable sample_env 7 s" by (rule reach_step [OF reach_new step_connect [OF s(1)]])
  from tcp_send_account [OF r, of "m_snd_nxt s"] s(2,3) obtain dn td where
    "divided (m_slist s) dn td" "4 = seg_bytes dn" 
    "ConsumeReadData (unat (m_snd_nxt s - m_snd_una s)) (m_sbuf s) \<noteq> None" by auto
  with r show ?thesis by (intro exI [of _ s] exI [of _ dn] exI [of _ td]) simp
qed

end
