(* ===== verification/Tcp_Stream.thy ===== *)
theory Tcp_Stream
  imports Tcp_Invariant
begin

text \<open>
  In-order delivery by the receiving half of \<open>PseudoTcp\<close>.

  The peer sends a byte stream, the function \<open>str\<close> from sequence numbers to bytes, in segments that may
  arrive in any order, repeatedly, overlapping and cut differently. \<open>rx_ok\<close> relates the receive buffer to the
  stream: the readable cells hold the bytes from \<open>base\<close> to the next expected one, and the cells behind them
  hold the stream wherever a segment of \<open>m_rlist\<close> says so. Sequence numbers do not wrap around in a stream
  of less than 4 GiB, to which the statements are restricted, since the code compares them unsigned.
\<close>

section \<open>The receive buffer and the stream\<close>

definition holds_stream :: "(nat \<Rightarrow> u8) \<Rightarrow> nat \<Rightarrow> FifoBuffer \<Rightarrow> nat \<Rightarrow> bool" where
  "holds_stream str base f q \<longleftrightarrow> base \<le> q \<and> q < base + ff_buffer_length f \<and> fifo_cell f (q - base) = str q"

definition seg_end :: "RSegment \<Rightarrow> nat" where
  "seg_end r = unat (rs_seq r) + unat (rs_len r)"

definition rx_ok :: "(nat \<Rightarrow> u8) \<Rightarrow> nat \<Rightarrow> FifoBuffer \<Rightarrow> nat \<Rightarrow> RSegment list \<Rightarrow> bool" where
  "rx_ok str base f nxt rlist \<longleftrightarrow>
     fifo_ok f \<and> ff_state f = SS_OPEN \<and> ff_buffer_length f < 2 ^ 32 \<and> base + ff_data_length f = nxt \<and>
     (\<forall>q. base \<le> q \<and> q < nxt \<longrightarrow> holds_stream str base f q) \<and>
     (\<forall>r \<in> set rlist. seg_end r < 2 ^ 32 \<and>
        (\<forall>q. nxt \<le> q \<and> unat (rs_seq r) \<le> q \<and> q < seg_end r \<longrightarrow> holds_stream str base f q))"

lemma rx_ok_contents:
  assumes "rx_ok str base f nxt rlist"
  shows "fifo_contents f = map str [base..<nxt]"
proof (rule nth_equalityI)
  show "length (fifo_contents f) = length (map str [base..<nxt])" using assms by (auto simp: rx_ok_def)
  fix i assume "i < length (fifo_contents f)"
  with assms have "holds_stream str base f (base + i)" "i < ff_data_length f" "base + i < nxt" by (auto simp: rx_ok_def)
  then show "fifo_contents f ! i = map str [base..<nxt] ! i" by (simp add: fifo_contents_def holds_stream_def)
qed

text \<open>Bytes that hold the stream behind the readable ones can be made readable.\<close>

lemma rx_ok_consume:
  assumes "rx_ok str base f nxt rlist" "\<And>q. nxt \<le> q \<Longrightarrow> q < nxt + k \<Longrightarrow> holds_stream str base f q"
    "nxt + k \<le> base + ff_buffer_length f"
  shows "\<exists>f'. ConsumeWriteBuffer k f = Some f' \<and> rx_ok str base f' (nxt + k) rlist \<and>
    ff_buffer_length f' = ff_buffer_length f"
proof -
  have f: "fifo_ok f" "base + ff_data_length f = nxt" using assms(1) by (auto simp: rx_ok_def)
  have "k \<le> ff_buffer_length f - ff_data_length f" using f(2) assms(3) by simp
  from ConsumeWriteBuffer_spec [OF f(1) this] obtain f' where c: "ConsumeWriteBuffer k f = Some f'" "fifo_ok f'"
    "ff_data_length f' = ff_data_length f + k" "ff_buffer_length f' = ff_buffer_length f" "ff_state f' = ff_state f"
    "fifo_cell f' = fifo_cell f" by blast
  have h: "holds_stream str base f' q = holds_stream str base f q" for q using c by (simp add: holds_stream_def)
  have "holds_stream str base f q" if "base \<le> q" "q < nxt + k" for q
    using that assms(1,2) by (cases "q < nxt") (auto simp: rx_ok_def)
  then have "rx_ok str base f' (nxt + k) rlist"
    using assms(1) c f(2) by (auto simp: rx_ok_def h)
  with c show ?thesis by blast
qed

text \<open>Writing bytes of the stream behind the readable ones.\<close>

lemma rx_ok_write:
  assumes "rx_ok str base f nxt rlist" "nxt \<le> seq" "seq + length bs \<le> base + ff_buffer_length f" "bs \<noteq> []"
    "\<And>i. i < length bs \<Longrightarrow> bs ! i = str (seq + i)"
  shows "\<exists>f'. WriteOffset bs (seq - nxt) f = (SR_SUCCESS, length bs, f') \<and> rx_ok str base f' nxt rlist \<and>
    ff_buffer_length f' = ff_buffer_length f \<and>
    (\<forall>q. seq \<le> q \<and> q < seq + length bs \<longrightarrow> holds_stream str base f' q)"
proof -
  have f: "fifo_ok f" "ff_state f = SS_OPEN" "base + ff_data_length f = nxt" using assms(1) by (auto simp: rx_ok_def)
  let ?off = "seq - nxt" and ?d = "ff_data_length f"
  have "0 < length bs" using assms(4) by simp
  then have room: "?d + ?off < ff_buffer_length f" using f(3) assms(2,3) by linarith
  have st: "ff_state f \<noteq> SS_CLOSED" using f(2) by simp
  have cp: "min (length bs) (ff_buffer_length f - ?d - ?off) = length bs" using f(3) assms(2,3) by simp
  from WriteOffset_spec [OF f(1) st room, of bs, unfolded cp] obtain f' where
    w: "WriteOffset bs ?off f = (SR_SUCCESS, length bs, f')" "fifo_ok f'" "ff_data_length f' = ?d"
      "ff_buffer_length f' = ff_buffer_length f" "ff_state f' = ff_state f"
      "\<forall>i < ff_buffer_length f. fifo_cell f' i = (if ?d + ?off \<le> i \<and> i < ?d + ?off + length bs
        then bs ! (i - (?d + ?off)) else fifo_cell f i)" by blast
  have new: "holds_stream str base f' q" if "seq \<le> q" "q < seq + length bs" for q
  proof -
    have "q - base < ff_buffer_length f" "?d + ?off \<le> q - base" "q - base < ?d + ?off + length bs"
      "q - base - (?d + ?off) = q - seq" using that f(3) assms(2,3) by auto
    then have "fifo_cell f' (q - base) = bs ! (q - seq)" using w(6) by simp
    also have "\<dots> = str q" using assms(5) [of "q - seq"] that by simp
    finally show ?thesis using that f(3) assms(2,3) w(4) by (simp add: holds_stream_def)
  qed
  have keep: "holds_stream str base f' q" if "holds_stream str base f q" for q
  proof (cases "seq \<le> q \<and> q < seq + length bs")
    case False
    then have "\<not> (?d + ?off \<le> q - base \<and> q - base < ?d + ?off + length bs)"
      using that f(3) assms(2) by (auto simp: holds_stream_def)
    with that w(4,6) show ?thesis by (auto simp: holds_stream_def)
  qed (use new in blast)
  have "rx_ok str base f' nxt rlist" using assms(1) w f keep by (auto simp: rx_ok_def)
  with w new show ?thesis by auto
qed

lemma rx_ok_read:
  assumes "rx_ok str base f nxt rlist" "Read n f = (result, bs, f')"
  shows "bs = map str [base..<base + length bs]" "rx_ok str (base + length bs) f' nxt rlist"
    "result = (if base < nxt then SR_SUCCESS else SR_BLOCK)" "ff_buffer_length f' = ff_buffer_length f"
proof -
  have f: "fifo_ok f" "ff_state f = SS_OPEN" "base + ff_data_length f = nxt" using assms(1) by (auto simp: rx_ok_def)
  have bs: "bs = take n (fifo_contents f)" "result = (if base < nxt then SR_SUCCESS else SR_BLOCK)"
    using Read_eq(1,4) [OF f(1), of n] assms(2) f(2,3) by auto
  then have len: "length bs \<le> ff_data_length f" by simp
  have "bs = map str [base..<base + length bs] \<and> rx_ok str (base + length bs) f' nxt rlist \<and>
    ff_buffer_length f' = ff_buffer_length f"
  proof (cases "0 < ff_data_length f")
    case True
    have L: "0 < ff_buffer_length f" using True f(1) by (simp add: fifo_ok_def)
    have f': "f' = f\<lparr>ff_read_position := (ff_read_position f + length bs) mod ff_buffer_length f,
        ff_data_length := ff_data_length f - length bs\<rparr>"
      using assms(2) True f(1) bs(1) by (auto simp: Read_def ReadOffsetLocked_eq)
    note sk = fifo_skip [OF f(1) len L f']
    have h: "holds_stream str (base + length bs) f' q" if "holds_stream str base f q" "base + length bs \<le> q" for q
      using that sk(3) [of "q - (base + length bs)"] by (auto simp: holds_stream_def f')
    have "rx_ok str (base + length bs) f' nxt rlist"
      using assms(1) sk(1) len h f(3) unfolding rx_ok_def by (auto simp: f')
    moreover have "bs = map str [base..<base + length bs]"
    proof -
      have "take (length bs) (fifo_contents f) = bs" using bs(1) by (metis append_eq_conv_conj append_take_drop_id)
      moreover have "take (length bs) (fifo_contents f) = map str [base..<base + length bs]"
        using rx_ok_contents [OF assms(1)] len f(3) by (simp add: take_map)
      ultimately show ?thesis by simp
    qed
    ultimately show ?thesis by (simp add: f')
  next
    case False
    then have "f' = f" "bs = []" using assms(2) bs(1) f(2) by (auto simp: Read_def ReadOffsetLocked_def)
    with assms(1) show ?thesis by simp
  qed
  with bs(2) show "bs = map str [base..<base + length bs]" "rx_ok str (base + length bs) f' nxt rlist"
    "result = (if base < nxt then SR_SUCCESS else SR_BLOCK)" "ff_buffer_length f' = ff_buffer_length f" by auto
qed

section \<open>Trimming\<close>

definition seg_of :: "(nat \<Rightarrow> u8) \<Rightarrow> Segment \<Rightarrow> bool" where
  "seg_of str g \<longleftrightarrow>
     unat (sg_seq g) + unat (sg_len g) < 2 ^ 32 \<and> unat (sg_len g) \<le> length (sg_data g) \<and>
     (\<forall>i < unat (sg_len g). sg_data g ! i = str (unat (sg_seq g) + i))"

lemma seg_of_shorter: "seg_of str g \<Longrightarrow> unat n \<le> unat (sg_len g) \<Longrightarrow> seg_of str (g\<lparr>sg_len := n\<rparr>)"
  by (auto simp: seg_of_def)

lemma trim_front_spec:
  assumes "seg_of str g" "sg_len (trim_front g s) \<noteq> 0"
  shows "seg_of str (trim_front g s)" "unat (m_rcv_nxt s) \<le> unat (sg_seq (trim_front g s))"
    "unat (sg_seq (trim_front g s)) = max (unat (m_rcv_nxt s)) (unat (sg_seq g))"
    "unat (sg_seq (trim_front g s)) + unat (sg_len (trim_front g s)) = unat (sg_seq g) + unat (sg_len g)"
    "sg_flags (trim_front g s) = sg_flags g"
proof -
  let ?n = "m_rcv_nxt s - sg_seq g"
  have "seg_of str (trim_front g s) \<and> unat (sg_seq (trim_front g s)) = max (unat (m_rcv_nxt s)) (unat (sg_seq g)) \<and>
    unat (sg_seq (trim_front g s)) + unat (sg_len (trim_front g s)) = unat (sg_seq g) + unat (sg_len g)"
  proof (cases "sg_seq g < m_rcv_nxt s")
    case True
    then have n: "unat ?n = unat (m_rcv_nxt s) - unat (sg_seq g)" "unat (sg_seq g) < unat (m_rcv_nxt s)"
      by (simp_all add: unat_sub less_imp_le word_less_nat_alt)
    from True assms(2) have lt: "?n < sg_len g" by (auto simp: trim_front_def Let_def split: if_splits)
    then have l: "unat (sg_len g - ?n) = unat (sg_len g) - unat ?n" "unat ?n < unat (sg_len g)"
      by (simp_all add: unat_sub less_imp_le word_less_nat_alt)
    have g': "trim_front g s = g\<lparr>sg_seq := m_rcv_nxt s, sg_data := drop (unat ?n) (sg_data g), sg_len := sg_len g - ?n\<rparr>"
      using True lt by (simp add: trim_front_def Let_def)
    have "drop (unat ?n) (sg_data g) ! i = str (unat (m_rcv_nxt s) + i)" if "i < unat (sg_len g) - unat ?n" for i
    proof -
      have "drop (unat ?n) (sg_data g) ! i = sg_data g ! (unat ?n + i)"
        using that assms(1) by (intro nth_drop) (auto simp: seg_of_def)
      also have "\<dots> = str (unat (sg_seq g) + (unat ?n + i))" using that assms(1) by (auto simp: seg_of_def)
      finally show ?thesis using n by (simp add: algebra_simps)
    qed
    then show ?thesis using assms(1) n l unfolding g' by (auto simp: seg_of_def)
  next
    case False
    then have "trim_front g s = g" by (simp add: trim_front_def)
    with assms False show ?thesis by (simp add: max_def not_less word_le_nat_alt)
  qed
  then show "seg_of str (trim_front g s)" "unat (m_rcv_nxt s) \<le> unat (sg_seq (trim_front g s))"
    "unat (sg_seq (trim_front g s)) = max (unat (m_rcv_nxt s)) (unat (sg_seq g))"
    "unat (sg_seq (trim_front g s)) + unat (sg_len (trim_front g s)) = unat (sg_seq g) + unat (sg_len g)"
    by auto
  show "sg_flags (trim_front g s) = sg_flags g" by (simp add: trim_front_def Let_def)
qed

lemma trim_back_spec:
  assumes "seg_of str g" "unat (m_rcv_nxt s) \<le> unat (sg_seq g)" "rx_ok str base (m_rbuf s) (unat (m_rcv_nxt s)) l"
  shows "seg_of str (trim_back g s)" "sg_seq (trim_back g s) = sg_seq g" "sg_flags (trim_back g s) = sg_flags g"
    "unat (sg_seq g) + unat (sg_len (trim_back g s)) =
       (if unat (sg_seq g) < base + ff_buffer_length (m_rbuf s)
        then min (unat (sg_seq g) + unat (sg_len g)) (base + ff_buffer_length (m_rbuf s)) else unat (sg_seq g))"
proof -
  let ?a = "of_nat (GetWriteRemaining (m_rbuf s)) :: u32" and ?e = "sg_seq g + sg_len g - m_rcv_nxt s"
  let ?B = "base + ff_buffer_length (m_rbuf s)"
  have f: "base + ff_data_length (m_rbuf s) = unat (m_rcv_nxt s)" "ff_data_length (m_rbuf s) \<le> ff_buffer_length (m_rbuf s)"
    "ff_buffer_length (m_rbuf s) < 2 ^ 32" using assms(3) by (auto simp: rx_ok_def fifo_ok_def)
  have "unat ?a = GetWriteRemaining (m_rbuf s)" using f by (simp add: GetWriteRemaining_def unat_of_nat del: of_nat_diff)
  then have a: "unat (m_rcv_nxt s) + unat ?a = ?B" using f by (simp add: GetWriteRemaining_def)
  have "unat (sg_seq g + sg_len g) = unat (sg_seq g) + unat (sg_len g)"
    using assms(1) by (simp add: seg_of_def unat_word_ariths)
  then have e: "unat ?e + unat (m_rcv_nxt s) = unat (sg_seq g) + unat (sg_len g)"
    using assms(2) by (simp add: unat_sub word_le_nat_alt)
  have "seg_of str (trim_back g s) \<and> unat (sg_seq g) + unat (sg_len (trim_back g s)) =
       (if unat (sg_seq g) < ?B then min (unat (sg_seq g) + unat (sg_len g)) ?B else unat (sg_seq g))"
  proof (cases "?e > ?a")
    case True
    define n where "n = ?e - ?a"
    have n: "unat n = unat ?e - unat ?a" "unat ?a < unat ?e"
      using True by (simp_all add: n_def unat_sub less_imp_le word_less_nat_alt)
    have g': "trim_back g s = g\<lparr>sg_len := (if n < sg_len g then sg_len g - n else 0)\<rparr>"
      using True by (simp add: trim_back_def Let_def n_def [symmetric])
    have l: "unat (sg_len (trim_back g s)) = unat (sg_len g) - unat n"
      by (simp add: g' unat_sub less_imp_le word_less_nat_alt)
    moreover have "seg_of str (trim_back g s)"
      unfolding g' by (rule seg_of_shorter [OF assms(1)]) (use l g' in simp)
    ultimately show ?thesis using n a e by auto
  next
    case False
    then have "unat ?e \<le> unat ?a" by (simp add: word_less_nat_alt)
    moreover have "trim_back g s = g" using False by (simp add: trim_back_def Let_def)
    ultimately show ?thesis using assms(1) a e by auto
  qed
  then show "seg_of str (trim_back g s)" "unat (sg_seq g) + unat (sg_len (trim_back g s)) =
       (if unat (sg_seq g) < ?B then min (unat (sg_seq g) + unat (sg_len g)) ?B else unat (sg_seq g))" by auto
  show "sg_seq (trim_back g s) = sg_seq g" "sg_flags (trim_back g s) = sg_flags g"
    by (simp_all add: trim_back_def Let_def)
qed

text \<open>What remains of a segment lies between the next expected byte and the end of the buffer, and it ends
  where the segment ends if that fits.\<close>

lemma trim_segment_spec:
  assumes "seg_of str g" "rx_ok str base (m_rbuf s) (unat (m_rcv_nxt s)) l" "sg_len (trim_segment g s) \<noteq> 0"
  shows "seg_of str (trim_segment g s)" "unat (m_rcv_nxt s) \<le> unat (sg_seq (trim_segment g s))"
    "unat (sg_seq (trim_segment g s)) + unat (sg_len (trim_segment g s)) \<le> base + ff_buffer_length (m_rbuf s)"
    "sg_flags (trim_segment g s) = sg_flags g"
    "unat (sg_seq g) \<le> unat (m_rcv_nxt s) \<Longrightarrow> sg_seq (trim_segment g s) = m_rcv_nxt s \<and>
       min (unat (sg_seq g) + unat (sg_len g)) (base + ff_buffer_length (m_rbuf s)) =
         unat (m_rcv_nxt s) + unat (sg_len (trim_segment g s))"
proof -
  let ?t = "trim_front g s"
  have z: "sg_len (trim_back h s) = 0" if "sg_len h = 0" for h using that by (simp add: trim_back_def Let_def)
  have nz: "sg_len ?t \<noteq> 0" using assms(3) z [of ?t] by (auto simp: trim_segment_def)
  note F = trim_front_spec [OF assms(1) nz]
  note B = trim_back_spec [OF F(1,2) assms(2)]
  have "unat (sg_len (trim_back ?t s)) \<noteq> 0" using assms(3) by (simp add: trim_segment_def unat_eq_0)
  then have lt: "unat (sg_seq ?t) < base + ff_buffer_length (m_rbuf s)" using B(4) by (auto split: if_splits)
  show "seg_of str (trim_segment g s)" "unat (m_rcv_nxt s) \<le> unat (sg_seq (trim_segment g s))"
    "unat (sg_seq (trim_segment g s)) + unat (sg_len (trim_segment g s)) \<le> base + ff_buffer_length (m_rbuf s)"
    "sg_flags (trim_segment g s) = sg_flags g"
    using B F lt by (auto simp: trim_segment_def)
  assume "unat (sg_seq g) \<le> unat (m_rcv_nxt s)"
  then have eq: "sg_seq ?t = m_rcv_nxt s" using F(3) by (simp add: max_def word_unat_eq_iff)
  then show "sg_seq (trim_segment g s) = m_rcv_nxt s \<and>
       min (unat (sg_seq g) + unat (sg_len g)) (base + ff_buffer_length (m_rbuf s)) =
         unat (m_rcv_nxt s) + unat (sg_len (trim_segment g s))"
    using B F lt by (auto simp: trim_segment_def)
qed

lemma trim_segment_empty:
  assumes "seg_of str g" "rx_ok str base (m_rbuf s) (unat (m_rcv_nxt s)) l"
    "unat (sg_seq g) \<le> unat (m_rcv_nxt s)" "sg_len (trim_segment g s) = 0"
  shows "min (unat (sg_seq g) + unat (sg_len g)) (base + ff_buffer_length (m_rbuf s)) \<le> unat (m_rcv_nxt s)"
proof (cases "sg_len (trim_front g s) = 0")
  case True
  show ?thesis
  proof (cases "sg_seq g < m_rcv_nxt s \<and> \<not> m_rcv_nxt s - sg_seq g < sg_len g")
    case lt: True
    define n where "n = m_rcv_nxt s - sg_seq g"
    have "sg_seq g \<le> m_rcv_nxt s" using lt by (blast intro: less_imp_le)
    then have "unat n = unat (m_rcv_nxt s) - unat (sg_seq g)" unfolding n_def by (rule unat_sub)
    moreover have "unat (sg_len g) \<le> unat n" using lt by (simp only: n_def not_less word_le_nat_alt)
    ultimately show ?thesis using assms(3) by linarith
  next
    case le: False
    have "\<not> sg_seq g < m_rcv_nxt s"
    proof
      assume lt: "sg_seq g < m_rcv_nxt s"
      define n where "n = m_rcv_nxt s - sg_seq g"
      have "n < sg_len g" using le lt by (simp add: n_def)
      moreover from this have "sg_len (trim_front g s) = sg_len g - n" using lt by (simp add: trim_front_def Let_def n_def)
      ultimately show False using True by simp
    qed
    then have "trim_front g s = g" by (simp add: trim_front_def)
    with True assms(3) show ?thesis by simp
  qed
next
  case False
  note F = trim_front_spec [OF assms(1) False]
  have z: "unat (sg_len (trim_back (trim_front g s) s)) = 0" using assms(4) by (simp add: trim_segment_def)
  have m: "unat (sg_seq (trim_front g s)) = unat (m_rcv_nxt s)" using F(3) assms(3) by simp
  have e: "unat (m_rcv_nxt s) + unat (sg_len (trim_front g s)) = unat (sg_seq g) + unat (sg_len g)" using F(4) m by simp
  show ?thesis
    using trim_back_spec(4) [OF F(1,2) assms(2)] unfolding z m e by (simp split: if_splits)
qed

section \<open>Storing and recovering\<close>

text \<open>Everything but the receive buffer and its bookkeeping.\<close>

definition rx_frame :: "PseudoTcp \<Rightarrow> PseudoTcp" where
  "rx_frame s = s\<lparr>m_rbuf := new_FifoBuffer [], m_rcv_nxt := 0, m_rcv_wnd := 0, m_rlist := []\<rparr>"

definition rx_state :: "(nat \<Rightarrow> u8) \<Rightarrow> nat \<Rightarrow> PseudoTcp \<Rightarrow> bool" where
  "rx_state str base s \<longleftrightarrow> rx_ok str base (m_rbuf s) (unat (m_rcv_nxt s)) (m_rlist s)"

definition rx_advance :: "(nat \<Rightarrow> u8) \<Rightarrow> nat \<Rightarrow> PseudoTcp \<Rightarrow> PseudoTcp \<Rightarrow> bool" where
  "rx_advance str base s s' \<longleftrightarrow>
     rx_state str base s' \<and> rx_frame s' = rx_frame s \<and> unat (m_rcv_nxt s) \<le> unat (m_rcv_nxt s') \<and>
     ff_buffer_length (m_rbuf s') = ff_buffer_length (m_rbuf s)"

lemma rx_advance_trans: "rx_advance str base s s' \<Longrightarrow> rx_advance str base s' s'' \<Longrightarrow> rx_advance str base s s''"
  by (auto simp: rx_advance_def)

lemma rx_ok_subset: "rx_ok str base f nxt l \<Longrightarrow> set l' \<subseteq> set l \<Longrightarrow> rx_ok str base f nxt l'"
  by (auto simp: rx_ok_def)

lemma recover_segments_spec:
  assumes "rx_ok str base (m_rbuf s) (unat (m_rcv_nxt s)) l"
  shows "\<exists>f' b' s'. recover_segments l f b s = Some (f', b', s') \<and> rx_advance str base s s'"
  using assms
proof (induction l arbitrary: f b s)
  case Nil
  then show ?case by (simp add: rx_advance_def rx_state_def rx_frame_def)
next
  case (Cons r l)
  have sub: "rx_ok str base (m_rbuf s) (unat (m_rcv_nxt s)) l" by (rule rx_ok_subset [OF Cons(2)]) auto
  have r: "seg_end r < 2 ^ 32" using Cons(2) by (simp add: rx_ok_def)
  then have e: "unat (rs_seq r + rs_len r) = seg_end r" by (simp add: seg_end_def unat_word_ariths)
  show ?case
  proof (cases "rs_seq r \<le> m_rcv_nxt s")
    case le: True
    show ?thesis
    proof (cases "rs_seq r + rs_len r > m_rcv_nxt s")
      case True
      define k where "k = rs_seq r + rs_len r - m_rcv_nxt s"
      have lt: "unat (m_rcv_nxt s) < seg_end r" using True e by (simp add: word_less_nat_alt)
      have k: "unat k = seg_end r - unat (m_rcv_nxt s)" using True e by (simp add: k_def unat_sub less_imp_le)
      have h: "holds_stream str base (m_rbuf s) q" if "unat (m_rcv_nxt s) \<le> q" "q < unat (m_rcv_nxt s) + unat k" for q
        using that Cons(2) le lt k by (auto simp: rx_ok_def word_le_nat_alt)
      have "holds_stream str base (m_rbuf s) (seg_end r - 1)" by (rule h) (use lt k in auto)
      then have "seg_end r \<le> base + ff_buffer_length (m_rbuf s)" by (auto simp: holds_stream_def)
      then have "unat (m_rcv_nxt s) + unat k \<le> base + ff_buffer_length (m_rbuf s)" using k lt by simp
      from rx_ok_consume [OF sub h this] obtain rbuf where
        c: "ConsumeWriteBuffer (unat k) (m_rbuf s) = Some rbuf" "ff_buffer_length rbuf = ff_buffer_length (m_rbuf s)"
          "rx_ok str base rbuf (unat (m_rcv_nxt s) + unat k) l" by blast
      let ?t = "s\<lparr>m_rbuf := rbuf, m_rcv_nxt := m_rcv_nxt s + k, m_rcv_wnd := m_rcv_wnd s - k\<rparr>"
      have n: "unat (m_rcv_nxt s + k) = unat (m_rcv_nxt s) + unat k"
        using k lt r by (simp add: unat_word_ariths)
      from Cons(1) [of ?t sfImmediateAck True] c(3) n obtain f' b' s' where
        "recover_segments l sfImmediateAck True ?t = Some (f', b', s')" "rx_advance str base ?t s'" by auto
      moreover have "rx_advance str base ?t s' \<Longrightarrow> rx_advance str base s s'"
        using n c(2) by (auto simp: rx_advance_def rx_frame_def)
      ultimately show ?thesis
        using le True c(1) by (auto simp: Let_def k_def)
    next
      case False
      with Cons(1) [OF sub, of f b] le show ?thesis by simp
    qed
  next
    case False
    then show ?thesis using Cons(2) by (simp add: rx_advance_def rx_state_def rx_frame_def)
  qed
qed

lemma set_insert_rsegment: "set (insert_rsegment r l) = insert r (set l)"
  by (induction r l rule: insert_rsegment.induct) auto

text \<open>A trimmed data segment is stored, and delivered when it is the next one.\<close>

lemma store_data_spec:
  assumes "rx_state str base s" "seg_of str g" "sg_len g \<noteq> 0" "unat (m_rcv_nxt s) \<le> unat (sg_seq g)"
    "unat (sg_seq g) + unat (sg_len g) \<le> base + ff_buffer_length (m_rbuf s)"
    "sg_flags g AND FLAG_CTL = 0" "m_shutdown s = SD_NONE"
  shows "\<exists>b n s'. store_data g s = Some (Inr (b, n, s')) \<and> rx_advance str base s s' \<and>
    (sg_seq g = m_rcv_nxt s \<longrightarrow> b \<and> unat (m_rcv_nxt s') = unat (sg_seq g) + unat (sg_len g))"
proof -
  let ?bs = "take (unat (sg_len g)) (sg_data g)" and ?n = "unat (m_rcv_nxt s)"
  have ok: "rx_ok str base (m_rbuf s) ?n (m_rlist s)" using assms(1) by (simp add: rx_state_def)
  have len: "length ?bs = unat (sg_len g)" using assms(2) by (simp add: seg_of_def)
  have "?bs \<noteq> []" using len assms(3) by (metis length_0_conv unat_eq_0)
  moreover have "?bs ! i = str (unat (sg_seq g) + i)" if "i < length ?bs" for i
    using that assms(2) len by (simp add: seg_of_def)
  ultimately obtain rbuf where w: "WriteOffset ?bs (unat (sg_seq g) - ?n) (m_rbuf s) = (SR_SUCCESS, length ?bs, rbuf)"
    "rx_ok str base rbuf ?n (m_rlist s)" "ff_buffer_length rbuf = ff_buffer_length (m_rbuf s)"
    "\<forall>q. unat (sg_seq g) \<le> q \<and> q < unat (sg_seq g) + unat (sg_len g) \<longrightarrow> holds_stream str base rbuf q"
    using rx_ok_write [OF ok assms(4), of ?bs] assms(5) len by auto
  have off: "unat (sg_seq g - m_rcv_nxt s) = unat (sg_seq g) - ?n" using assms(4) by (simp add: unat_sub word_le_nat_alt)
  show ?thesis
  proof (cases "sg_seq g = m_rcv_nxt s")
    case True
    from rx_ok_consume [OF w(2), of "unat (sg_len g)"] w(3,4) True assms(5) obtain rbuf' where
      c: "ConsumeWriteBuffer (unat (sg_len g)) rbuf = Some rbuf'" "ff_buffer_length rbuf' = ff_buffer_length rbuf"
        "rx_ok str base rbuf' (?n + unat (sg_len g)) (m_rlist s)" by auto
    let ?s' = "s\<lparr>m_rbuf := rbuf', m_rcv_nxt := m_rcv_nxt s + sg_len g, m_rcv_wnd := m_rcv_wnd s - sg_len g\<rparr>"
    have n: "unat (m_rcv_nxt s + sg_len g) = ?n + unat (sg_len g)"
      using assms(2) True by (simp add: seg_of_def unat_word_ariths)
    have "store_data g s = Some (Inr (True, True, ?s'))"
      using assms(6,7) w(1) off c(1) True by (simp add: store_data_def)
    moreover have "rx_advance str base s ?s'"
      using c w(3) n by (simp add: rx_advance_def rx_state_def rx_frame_def)
    ultimately show ?thesis using n True by auto
  next
    case False
    let ?r = "\<lparr>rs_seq = sg_seq g, rs_len = sg_len g\<rparr>"
    let ?s' = "s\<lparr>m_rbuf := rbuf, m_rlist := insert_rsegment ?r (m_rlist s)\<rparr>"
    have "store_data g s = Some (Inr (False, False, ?s'))"
      using assms(6,7) w(1) off False by (simp add: store_data_def)
    moreover have "rx_ok str base rbuf ?n (insert_rsegment ?r (m_rlist s))"
      using w(2,4) assms(2) unfolding rx_ok_def set_insert_rsegment by (auto simp: seg_end_def seg_of_def)
    then have "rx_advance str base s ?s'" using w(3) by (simp add: rx_advance_def rx_state_def rx_frame_def)
    ultimately show ?thesis using False by auto
  qed
qed

lemma process_data_spec:
  assumes "rx_state str base s" "seg_of str g" "sg_flags g AND FLAG_CTL = 0" "m_shutdown s = SD_NONE"
  shows "\<exists>f' n s'. process_data (trim_segment g s) f s = Some (Inr (f', n, s')) \<and> rx_advance str base s s' \<and>
    (unat (sg_seq g) \<le> unat (m_rcv_nxt s) \<longrightarrow>
      min (unat (sg_seq g) + unat (sg_len g)) (base + ff_buffer_length (m_rbuf s)) \<le> unat (m_rcv_nxt s'))"
proof (cases "sg_len (trim_segment g s) = 0")
  case True
  then have p: "process_data (trim_segment g s) f s = Some (Inr (f, False, s))" by (simp add: process_data_def)
  have ok: "rx_ok str base (m_rbuf s) (unat (m_rcv_nxt s)) (m_rlist s)" using assms(1) by (simp add: rx_state_def)
  have "min (unat (sg_seq g) + unat (sg_len g)) (base + ff_buffer_length (m_rbuf s)) \<le> unat (m_rcv_nxt s)"
    if "unat (sg_seq g) \<le> unat (m_rcv_nxt s)" by (rule trim_segment_empty [OF assms(2) ok that True])
  with p assms(1) show ?thesis by (auto simp: rx_advance_def)
next
  case False
  let ?t = "trim_segment g s"
  have ok: "rx_ok str base (m_rbuf s) (unat (m_rcv_nxt s)) (m_rlist s)" using assms(1) by (simp add: rx_state_def)
  note T = trim_segment_spec [OF assms(2) ok False]
  obtain b n s1 where st: "store_data ?t s = Some (Inr (b, n, s1))" "rx_advance str base s s1"
    "sg_seq ?t = m_rcv_nxt s \<longrightarrow> b \<and> unat (m_rcv_nxt s1) = unat (sg_seq ?t) + unat (sg_len ?t)"
    using store_data_spec [OF assms(1) T(1) False T(2,3)] T(4) assms(3,4) by auto
  obtain f' n' s' where r: "process_data ?t f s = Some (Inr (f', n', s'))" "rx_advance str base s1 s' \<or> s' = s1"
  proof (cases b)
    case True
    have "rx_ok str base (m_rbuf s1) (unat (m_rcv_nxt s1)) (m_rlist s1)" using st(2) by (simp add: rx_advance_def rx_state_def)
    from recover_segments_spec [OF this, of f n] obtain f' b' s' where
      "recover_segments (m_rlist s1) f n s1 = Some (f', b', s')" "rx_advance str base s1 s'" by blast
    with True st(1) False that show ?thesis by (simp add: process_data_def word_gt_0)
  qed (use st(1) False that in \<open>simp add: process_data_def word_gt_0\<close>)
  then have adv: "rx_advance str base s s'" "unat (m_rcv_nxt s1) \<le> unat (m_rcv_nxt s')"
    using st(2) by (auto simp: rx_advance_def)
  with r(1) st(3) T(5) show ?thesis by auto
qed

section \<open>A receiver with nothing to send\<close>

definition receiver_ok :: "(nat \<Rightarrow> u8) \<Rightarrow> nat \<Rightarrow> PseudoTcp \<Rightarrow> bool" where
  "receiver_ok str base s \<longleftrightarrow>
     m_state s = TCP_ESTABLISHED \<and> m_shutdown s = SD_NONE \<and> GetBuffered (m_sbuf s) = 0 \<and>
     m_snd_una s = m_snd_nxt s \<and> unat (m_swnd_scale s) < 32 \<and> unat (m_rwnd_scale s) < 32 \<and>
     rx_state str base s"

lemma receiver_ok_cong:
  assumes "send_frame s' = send_frame s"
  shows "receiver_ok str base s' = receiver_ok str base s"
  using assms by (simp add: receiver_ok_def rx_state_def send_frame_iff)

lemma attemptSend_idle:
  assumes "GetBuffered (m_sbuf s) = 0" "m_snd_una s = m_snd_nxt s" "unat (m_rwnd_scale s) < 32"
  shows "\<exists>s'. attemptSend e f s = Some s' \<and> send_frame s' = send_frame s"
proof -
  obtain now t where t: "attemptSend e f s = attemptSend_loop e f now t" "send_frame t = send_frame s"
    by (auto simp: attemptSend_def Now_def send_frame_def split: if_splits)
  have n: "sendable t = 0" using assms(1,2) t(2) by (simp add: sendable_def Let_def send_frame_iff)
  have sc: "unat (m_rwnd_scale t) < 32" using assms(3) t(2) by (simp add: send_frame_iff)
  have "\<exists>u. attemptSend_step e f now t = Some (Send_Done u) \<and> send_frame u = send_frame t"
  proof (cases "f = sfImmediateAck \<or> f \<noteq> sfNone \<and> m_t_ack t \<noteq> 0")
    case True
    have "packet e (m_snd_nxt t) 0 0 0 t \<noteq> None"
      using sc by (simp add: packet_def Now_def shift_right_def write_packet_def Let_def tcp_constants)
    then obtain w u where "packet e (m_snd_nxt t) 0 0 0 t = Some (w, u)" by fastforce
    with True n packet_frame [of e "m_snd_nxt t" 0 0 0 t w u] show ?thesis by (auto simp: attemptSend_step_def)
  next
    case False
    with n show ?thesis by (auto simp: attemptSend_step_def Now_def send_frame_def)
  qed
  then obtain u where "attemptSend_step e f now t = Some (Send_Done u)" "send_frame u = send_frame t" by blast
  with t show ?thesis by (subst (asm) attemptSend_loop.simps) simp
qed

text \<open>A data segment of the peer: of this conversation, without control or reset flag, with an
  acknowledgment of everything sent.\<close>

definition data_segment :: "(nat \<Rightarrow> u8) \<Rightarrow> u32 \<Rightarrow> u32 \<Rightarrow> Segment \<Rightarrow> bool" where
  "data_segment str conv una g \<longleftrightarrow>
     sg_conv g = conv \<and> sg_ack g = una \<and> sg_flags g AND FLAG_CTL = 0 \<and> sg_flags g AND FLAG_RST = 0 \<and> seg_of str g"

lemma process_dup_ack_idle:
  assumes "m_snd_una s = m_snd_nxt s" "unat (m_swnd_scale s) < 32"
  shows "\<exists>w d. process_dup_ack e now g s = Some (Inr (s\<lparr>m_snd_wnd := w, m_dup_acks := d\<rparr>))"
proof -
  obtain w where w: "shift_left (ucast (sg_wnd g)) (m_swnd_scale s) = Some w" using assms(2) by (simp add: shift_left_def)
  let ?d = "if sg_len g > 0 then m_dup_acks s else 0"
  have "process_dup_ack e now g s = Some (Inr (s\<lparr>m_snd_wnd := w, m_dup_acks := ?d\<rparr>))"
    using assms(1) w by (simp add: process_dup_ack_def Let_def)
  then show ?thesis by blast
qed

lemma rx_frame_fields:
  assumes "rx_frame s' = rx_frame s"
  shows "m_state s' = m_state s" "m_shutdown s' = m_shutdown s" "m_sbuf s' = m_sbuf s" "m_snd_una s' = m_snd_una s"
    "m_snd_nxt s' = m_snd_nxt s" "m_swnd_scale s' = m_swnd_scale s" "m_rwnd_scale s' = m_rwnd_scale s"
    "m_conv s' = m_conv s"
  using assms by (cases s; cases s'; simp add: rx_frame_def)+

text \<open>The part of the state that the sections before the data leave alone.\<close>

definition rx_view :: "PseudoTcp \<Rightarrow> TcpState \<times> Shutdown \<times> FifoBuffer \<times> u32 \<times> u32 \<times> u8 \<times> u8 \<times> u32 \<times> FifoBuffer \<times> u32 \<times> RSegment list" where
  "rx_view s = (m_state s, m_shutdown s, m_sbuf s, m_snd_una s, m_snd_nxt s, m_swnd_scale s, m_rwnd_scale s,
     m_conv s, m_rbuf s, m_rcv_nxt s, m_rlist s)"

lemma receiver_ok_view: "rx_view s' = rx_view s \<Longrightarrow> receiver_ok str base s' = receiver_ok str base s"
  by (simp add: rx_view_def receiver_ok_def rx_state_def)

lemma process_until_data:
  assumes "receiver_ok str base s" "data_segment str (m_conv s) (m_snd_una s) g"
  shows "\<exists>t. process e g s = finish_segment e False g t \<and> rx_view t = rx_view s"
proof -
  note R = assms(1) [unfolded receiver_ok_def] and D = assms(2) [unfolded data_segment_def]
  let ?now = "env_now e (tcp_calls s)"
  let ?s2 = "s\<lparr>tcp_calls := Suc (tcp_calls s), m_lasttraffic := ?now, m_lastrecv := ?now, m_bOutgoing := False\<rparr>"
  define s4 where "s4 = (if sg_seq g \<le> m_ts_lastack ?s2 \<and> m_ts_lastack ?s2 < sg_seq g + sg_len g
      then ?s2\<lparr>m_ts_recent := sg_tsval g\<rparr> else ?s2)"
  have v: "rx_view s4 = rx_view s" by (simp add: s4_def rx_view_def)
  then have "m_snd_una s4 = m_snd_nxt s4" "unat (m_swnd_scale s4) < 32" "m_snd_una s4 = m_snd_una s"
    using R by (simp_all add: rx_view_def)
  moreover from this(1,2) obtain w d where
    a: "process_dup_ack e ?now g s4 = Some (Inr (s4\<lparr>m_snd_wnd := w, m_dup_acks := d\<rparr>))"
    using process_dup_ack_idle by blast
  ultimately have "process_ack e ?now g s4 = Some (Inr (s4\<lparr>m_snd_wnd := w, m_dup_acks := d\<rparr>))"
    using D by (simp add: process_ack_def)
  then have "process e g s = finish_segment e False g (s4\<lparr>m_snd_wnd := w, m_dup_acks := d\<rparr>)"
    using R D by (simp add: process_def Now_def process_control_def s4_def [symmetric])
      (auto simp: s4_def Let_def split: if_splits)
  moreover have "rx_view (s4\<lparr>m_snd_wnd := w, m_dup_acks := d\<rparr>) = rx_view s" using v by (simp add: rx_view_def)
  ultimately show ?thesis by blast
qed

lemma finish_data_segment:
  assumes "receiver_ok str base s" "sg_flags g AND FLAG_CTL = 0" "seg_of str g"
  shows "\<exists>s'. finish_segment e False g s = Some (True, s') \<and> receiver_ok str base s' \<and> m_conv s' = m_conv s \<and>
    m_snd_una s' = m_snd_una s \<and> unat (m_rcv_nxt s) \<le> unat (m_rcv_nxt s') \<and>
    ff_buffer_length (m_rbuf s') = ff_buffer_length (m_rbuf s) \<and>
    (unat (sg_seq g) \<le> unat (m_rcv_nxt s) \<longrightarrow>
      min (unat (sg_seq g) + unat (sg_len g)) (base + ff_buffer_length (m_rbuf s)) \<le> unat (m_rcv_nxt s'))"
proof -
  define t where "t = notify_writeable (open_passive False s)"
  have v: "rx_view t = rx_view s"
    using assms(1) by (simp add: t_def receiver_ok_def open_passive_def notify_writeable_def notify_def rx_view_def)
  then have t: "receiver_ok str base t" using receiver_ok_view assms(1) by blast
  then have rx: "rx_state str base t" "m_shutdown t = SD_NONE" by (simp_all add: receiver_ok_def)
  from process_data_spec [OF rx(1) assms(3,2) rx(2)] obtain f' n u where
    d: "process_data (trim_segment g t) (ack_flags g t) t = Some (Inr (f', n, u))" "rx_advance str base t u"
    "unat (sg_seq g) \<le> unat (m_rcv_nxt t) \<longrightarrow>
      min (unat (sg_seq g) + unat (sg_len g)) (base + ff_buffer_length (m_rbuf t)) \<le> unat (m_rcv_nxt u)" by blast
  have fr: "rx_frame u = rx_frame t" using d(2) by (simp add: rx_advance_def)
  have u: "receiver_ok str base u"
    using t d(2) by (simp add: receiver_ok_def rx_advance_def rx_frame_fields [OF fr])
  then obtain s' where a: "attemptSend e f' u = Some s'" "send_frame s' = send_frame u"
    using attemptSend_idle [of u e f'] by (auto simp: receiver_ok_def)
  let ?s' = "notify_readable n s'"
  have eq: "rx_view ?s' = rx_view u" using a(2) by (simp add: notify_readable_def notify_def rx_view_def send_frame_iff)
  have "finish_segment e False g s = Some (True, ?s')"
    using d(1) a(1) by (simp add: finish_segment_def t_def [symmetric])
  moreover have "receiver_ok str base ?s'" using receiver_ok_view [OF eq] u by blast
  moreover have "m_conv ?s' = m_conv s" "m_snd_una ?s' = m_snd_una s" "m_rcv_nxt ?s' = m_rcv_nxt u"
    "m_rbuf ?s' = m_rbuf u" "m_rcv_nxt t = m_rcv_nxt s" "m_rbuf t = m_rbuf s"
    using eq v rx_frame_fields [OF fr] by (simp_all add: rx_view_def)
  ultimately show ?thesis using d(2,3) by (simp add: rx_advance_def)
qed

lemma process_data_segment:
  assumes "receiver_ok str base s" "data_segment str (m_conv s) (m_snd_una s) g"
  shows "\<exists>s'. process e g s = Some (True, s') \<and> receiver_ok str base s' \<and> m_conv s' = m_conv s \<and>
    m_snd_una s' = m_snd_una s \<and> unat (m_rcv_nxt s) \<le> unat (m_rcv_nxt s') \<and>
    ff_buffer_length (m_rbuf s') = ff_buffer_length (m_rbuf s) \<and>
    (unat (sg_seq g) \<le> unat (m_rcv_nxt s) \<longrightarrow>
      min (unat (sg_seq g) + unat (sg_len g)) (base + ff_buffer_length (m_rbuf s)) \<le> unat (m_rcv_nxt s'))"
proof -
  from process_until_data [OF assms] obtain t where t: "process e g s = finish_segment e False g t" "rx_view t = rx_view s"
    by blast
  have "receiver_ok str base t" using receiver_ok_view [OF t(2)] assms(1) by blast
  moreover have "m_conv t = m_conv s" "m_snd_una t = m_snd_una s" "m_rcv_nxt t = m_rcv_nxt s" "m_rbuf t = m_rbuf s"
    using t(2) by (simp_all add: rx_view_def)
  ultimately show ?thesis
    using finish_data_segment [of str base t g e] assms(2) t(1) by (simp add: data_segment_def)
qed

definition opt_bytes :: "bytes option \<Rightarrow> bytes" where
  "opt_bytes r = (case r of None \<Rightarrow> [] | Some bs \<Rightarrow> bs)"

lemma Recv_stream:
  assumes "receiver_ok str base s"
  shows "\<exists>out s'. PseudoTcp_Recv e n s = Some (out, s') \<and>
    receiver_ok str (base + length (opt_bytes out)) s' \<and>
    opt_bytes out = map str [base..<base + length (opt_bytes out)] \<and> m_conv s' = m_conv s \<and>
    m_snd_una s' = m_snd_una s \<and> m_rcv_nxt s' = m_rcv_nxt s"
proof -
  obtain result bs rbuf where r: "Read n (m_rbuf s) = (result, bs, rbuf)" by (metis prod_cases3)
  have "rx_ok str base (m_rbuf s) (unat (m_rcv_nxt s)) (m_rlist s)" using assms by (simp add: receiver_ok_def rx_state_def)
  note K = rx_ok_read [OF this r]
  have st: "m_state s = TCP_ESTABLISHED" using assms by (simp add: receiver_ok_def)
  show ?thesis
  proof (cases "result = SR_BLOCK")
    case True
    then have "bs = []" using r K(3) by (auto simp: Read_def split: prod.splits if_splits)
    with True r st K(2) assms show ?thesis
      by (auto simp: PseudoTcp_Recv_def opt_bytes_def receiver_ok_def rx_state_def)
  next
    case False
    then have su: "result = SR_SUCCESS" using K(3) by (auto split: if_splits)
    let ?ok = "\<lambda>s'. receiver_ok str (base + length bs) s' \<and> m_conv s' = m_conv s \<and> m_snd_una s' = m_snd_una s \<and>
      m_rcv_nxt s' = m_rcv_nxt s"
    have ok: "?ok (s\<lparr>m_rbuf := rbuf\<rparr>)" "?ok (s\<lparr>m_rbuf := rbuf, m_rcv_wnd := w\<rparr>)" for w
      using K(2) assms by (simp_all add: receiver_ok_def rx_state_def)
    have "\<exists>s'. attemptSend e sfImmediateAck t = Some s' \<and> ?ok s'" if "?ok t" for t
    proof -
      have "\<exists>s'. attemptSend e sfImmediateAck t = Some s' \<and> send_frame s' = send_frame t"
        using that by (intro attemptSend_idle) (simp_all add: receiver_ok_def)
      then obtain s' where a: "attemptSend e sfImmediateAck t = Some s'" "send_frame s' = send_frame t" by blast
      then have "?ok s'" using that receiver_ok_cong [OF a(2)] a(2) by (simp add: send_frame_iff)
      with a show ?thesis by blast
    qed
    with ok have "\<exists>s'. PseudoTcp_Recv e n s = Some (Some bs, s') \<and> ?ok s'"
      using su r st by (fastforce simp: PseudoTcp_Recv_def Let_def)
    with K(1) show ?thesis by (auto simp: opt_bytes_def)
  qed
qed

section \<open>Properties\<close>

text \<open>Arriving segments and reads of the user in any order; the bytes read are collected.\<close>

datatype rx_op = Arrive Segment | Take nat

fun rx_run :: "tcp_env \<Rightarrow> rx_op list \<Rightarrow> PseudoTcp \<Rightarrow> (bytes \<times> PseudoTcp) option" where
  "rx_run e [] s = Some ([], s)"
| "rx_run e (Arrive g # ops) s = do { (_, s') \<leftarrow> process e g s; rx_run e ops s' }"
| "rx_run e (Take n # ops) s = do {
     (r, s') \<leftarrow> PseudoTcp_Recv e n s;
     (bs, s'') \<leftarrow> rx_run e ops s';
     Some (opt_bytes r @ bs, s'')
   }"

lemma rx_run_stream:
  assumes "receiver_ok str base s" "\<And>g. Arrive g \<in> set ops \<Longrightarrow> data_segment str (m_conv s) (m_snd_una s) g"
  shows "\<exists>bs s'. rx_run e ops s = Some (bs, s') \<and> receiver_ok str (base + length bs) s' \<and>
    bs = map str [base..<base + length bs] \<and> unat (m_rcv_nxt s) \<le> unat (m_rcv_nxt s')"
  using assms
proof (induction ops arbitrary: s base)
  case Nil
  then show ?case by simp
next
  case (Cons x ops)
  show ?case
  proof (cases x)
    case (Arrive g)
    from process_data_segment [OF Cons(2) Cons(3) [of g], of e] Arrive obtain t where
      t: "process e g s = Some (True, t)" "receiver_ok str base t" "m_conv t = m_conv s" "m_snd_una t = m_snd_una s"
      "unat (m_rcv_nxt s) \<le> unat (m_rcv_nxt t)" by auto
    from Cons(1) [OF t(2)] Cons(3) t(3,4) obtain bs s' where
      "rx_run e ops t = Some (bs, s')" "receiver_ok str (base + length bs) s'"
      "bs = map str [base..<base + length bs]" "unat (m_rcv_nxt t) \<le> unat (m_rcv_nxt s')" by (auto simp del: map_eq_conv)
    with Arrive t(1,5) show ?thesis by auto
  next
    case (Take n)
    from Recv_stream [OF Cons(2), of e n] obtain r t where
      t: "PseudoTcp_Recv e n s = Some (r, t)" "receiver_ok str (base + length (opt_bytes r)) t"
      "opt_bytes r = map str [base..<base + length (opt_bytes r)]" "m_conv t = m_conv s" "m_snd_una t = m_snd_una s"
      "m_rcv_nxt t = m_rcv_nxt s" by blast
    from Cons(1) [OF t(2)] Cons(3) t(4,5) obtain bs s' where
      b: "rx_run e ops t = Some (bs, s')" "receiver_ok str (base + length (opt_bytes r) + length bs) s'"
      "bs = map str [base + length (opt_bytes r)..<base + length (opt_bytes r) + length bs]"
      "unat (m_rcv_nxt t) \<le> unat (m_rcv_nxt s')" by auto
    have "opt_bytes r @ bs = map str ([base..<base + length (opt_bytes r)] @
        [base + length (opt_bytes r)..<base + length (opt_bytes r) + length bs])"
      unfolding map_append using t(3) b(3) by argo
    also have "\<dots> = map str [base..<base + length (opt_bytes r @ bs)]"
      using upt_add_eq_append [of base "base + length (opt_bytes r)" "length bs"] by (simp add: add.assoc)
    finally show ?thesis using Take t(1,6) b by (auto simp: add.assoc simp del: map_append)
  qed
qed

text \<open>C3. In-order delivery: when the segments of the peer, arriving in any order, repeated, overlapping and
  interleaved with reads of the user, all carry bytes of one stream, every call returns without a failed
  assertion, and the bytes read followed by those ready to be read are exactly the stream from where the
  user stood up to the next expected byte, which never moves back. A segment that starts at or before the
  next expected byte moves it to its end, or as far as the buffer reaches.\<close>

theorem tcp_stream_delivery:
  assumes "receiver_ok str base s" "\<And>g. Arrive g \<in> set ops \<Longrightarrow> data_segment str (m_conv s) (m_snd_una s) g"
  shows "\<exists>bs s'. rx_run e ops s = Some (bs, s') \<and>
    bs @ fifo_contents (m_rbuf s') = map str [base..<unat (m_rcv_nxt s')] \<and>
    unat (m_rcv_nxt s) \<le> unat (m_rcv_nxt s') \<and>
    (\<forall>g rest. ops = Arrive g # rest \<and> unat (sg_seq g) \<le> unat (m_rcv_nxt s) \<longrightarrow>
       min (unat (sg_seq g) + unat (sg_len g)) (base + ff_buffer_length (m_rbuf s)) \<le> unat (m_rcv_nxt s'))"
proof -
  from rx_run_stream [OF assms(1), of ops e] assms(2) obtain bs s' where
    r: "rx_run e ops s = Some (bs, s')" "receiver_ok str (base + length bs) s'"
    "bs = map str [base..<base + length bs]" "unat (m_rcv_nxt s) \<le> unat (m_rcv_nxt s')" by blast
  have ok: "rx_ok str (base + length bs) (m_rbuf s') (unat (m_rcv_nxt s')) (m_rlist s')"
    using r(2) by (simp add: receiver_ok_def rx_state_def)
  then have "base + length bs \<le> unat (m_rcv_nxt s')" by (auto simp: rx_ok_def)
  then have "[base..<unat (m_rcv_nxt s')] = [base..<base + length bs] @ [base + length bs..<unat (m_rcv_nxt s')]"
    by (metis le_add1 le_Suc_ex upt_add_eq_append)
  then have "bs @ fifo_contents (m_rbuf s') = map str [base..<unat (m_rcv_nxt s')]"
    using rx_ok_contents [OF ok] r(3) by (metis map_append)
  moreover have "min (unat (sg_seq g) + unat (sg_len g)) (base + ff_buffer_length (m_rbuf s)) \<le> unat (m_rcv_nxt s')"
    if "ops = Arrive g # rest" "unat (sg_seq g) \<le> unat (m_rcv_nxt s)" for g rest
  proof -
    from process_data_segment [OF assms(1) assms(2) [of g], of e] that obtain t where
      t: "process e g s = Some (True, t)" "receiver_ok str base t" "m_conv t = m_conv s" "m_snd_una t = m_snd_una s"
      "min (unat (sg_seq g) + unat (sg_len g)) (base + ff_buffer_length (m_rbuf s)) \<le> unat (m_rcv_nxt t)" by auto
    have "rx_run e rest t = Some (bs, s')" using r(1) t(1) that(1) by simp
    moreover from rx_run_stream [OF t(2), of rest e] assms(2) that(1) t(3,4) obtain bs' s'' where
      "rx_run e rest t = Some (bs', s'')" "unat (m_rcv_nxt t) \<le> unat (m_rcv_nxt s'')" by auto
    ultimately show ?thesis using t(5) by simp
  qed
  ultimately show ?thesis using r(1,4) by blast
qed

definition sample_receiver :: PseudoTcp where
  "sample_receiver = (new_PseudoTcp sample_env 7)\<lparr>m_state := TCP_ESTABLISHED,
     m_rbuf := new_FifoBuffer [0, 0, 0, 0, 0, 0], m_sbuf := new_FifoBuffer [0, 0]\<rparr>"

definition sample_segment :: "u32 \<Rightarrow> bytes \<Rightarrow> Segment" where
  "sample_segment seq bs = \<lparr>sg_conv = 7, sg_seq = seq, sg_ack = 0, sg_flags = 0, sg_wnd = 100, sg_data = bs,
     sg_len = of_nat (length bs), sg_tsval = 0, sg_tsecr = 0\<rparr>"

lemma sample_segment_of:
  assumes "bs = map of_nat [unat q..<unat q + length bs]" "unat q + length bs < 2 ^ 32"
  shows "data_segment of_nat 7 0 (sample_segment q bs)"
proof -
  have "bs ! i = of_nat (unat q + i)" if "i < length bs" for i
    using that by (subst assms(1)) simp
  with assms(2) show ?thesis by (simp add: data_segment_def sample_segment_def seg_of_def unat_of_nat)
qed

theorem tcp_stream_delivery_witness:
  "\<exists>bs s'. rx_run sample_env [Arrive (sample_segment 0 [0, 1, 2]), Arrive (sample_segment 4 [4, 5]), Take 2,
       Arrive (sample_segment 1 [1, 2, 3, 4])] sample_receiver = Some (bs, s') \<and>
     bs @ fifo_contents (m_rbuf s') = map of_nat [0..<unat (m_rcv_nxt s')] \<and> 3 \<le> unat (m_rcv_nxt s')"
proof -
  have r: "receiver_ok of_nat 0 sample_receiver"
    by (simp add: receiver_ok_def sample_receiver_def new_PseudoTcp_def Let_def rx_state_def rx_ok_def
        new_FifoBuffer_def fifo_ok_def GetBuffered_def)
  have c: "m_conv sample_receiver = 7" "m_snd_una sample_receiver = 0"
    by (simp_all add: sample_receiver_def new_PseudoTcp_def Let_def)
  have d: "data_segment of_nat 7 0 (sample_segment 0 [0, 1, 2])" "data_segment of_nat 7 0 (sample_segment 4 [4, 5])"
    "data_segment of_nat 7 0 (sample_segment 1 [1, 2, 3, 4])"
    by (rule sample_segment_of; simp add: upt_rec)+
  have l: "unat (m_rcv_nxt sample_receiver) = 0" "ff_buffer_length (m_rbuf sample_receiver) = 6"
    by (simp_all add: sample_receiver_def new_PseudoTcp_def Let_def new_FifoBuffer_def)
  let ?ops = "[Arrive (sample_segment 0 [0, 1, 2]), Arrive (sample_segment 4 [4, 5]), Take 2,
       Arrive (sample_segment 1 [1, 2, 3, 4])]"
  have "data_segment of_nat (m_conv sample_receiver) (m_snd_una sample_receiver) g" if "Arrive g \<in> set ?ops" for g
    using that d unfolding c by auto
  with tcp_stream_delivery [of of_nat 0 sample_receiver ?ops sample_env, OF r] obtain bs s' where
    "rx_run sample_env ?ops sample_receiver = Some (bs, s')"
    "bs @ fifo_contents (m_rbuf s') = map of_nat [0..<unat (m_rcv_nxt s')]"
    and p: "\<forall>g rest. ?ops = Arrive g # rest \<and> unat (sg_seq g) \<le> unat (m_rcv_nxt sample_receiver) \<longrightarrow>
       min (unat (sg_seq g) + unat (sg_len g)) (0 + ff_buffer_length (m_rbuf sample_receiver)) \<le> unat (m_rcv_nxt s')"
    by blast
  moreover have "3 \<le> unat (m_rcv_nxt s')"
    using p [THEN spec, of "sample_segment 0 [0, 1, 2]"] l by (simp add: sample_segment_def)
  ultimately show ?thesis by blast
qed

end
