(* ===== verification/Spec2Isabelle.thy ===== *)
theory Spec2Isabelle
  imports Byte_Buffer Fifo_Buffer Ring_Buffer Bit_Buffer Socket_Address Stun_Request Tcp_Stream
begin

text \<open>
  Verification of the network stack of libmsf.

  \<^bold>\<open>The program.\<close> libmsf is a C++ service framework; its largest part is a port of the WebRTC peer to
  peer stack (\<open>src/lib/network/stun\<close>) over a base library (\<open>src/lib/base\<close>). A peer sends STUN requests
  built from attributes, authenticates them with HMAC-SHA1 keyed by an MD5 credential hash, adds a
  checksum, retransmits them until an answer arrives, and reads the addresses in the answers. This
  development follows that path from the bytes upwards.

  \<^bold>\<open>Theories and sources.\<close>
  \<^item> \<open>Prelude\<close>: word and list lemmas, the little- and big-endian layout of a word, the bits of a byte
    string, the padding to four bytes, and the collections of rewrite rules.
  \<^item> \<open>Byte_Order\<close>: \<open>base/byte_order.h\<close>. An object in memory is its bytes in host order
    (\<open>obj_bytes\<close>, \<open>obj_load\<close>); the conversions are shown to give the wire order on every host, so no
    later proof looks at the host order. A load or store outside the memory is \<open>None\<close>.
  \<^item> \<open>Byte_Buffer\<close>: \<open>byte_buffer.cc\<close> and the growable \<open>BufferT\<close> of \<open>const_buffer.h\<close>. The locale
    \<open>wire_codec\<close> states the contract of a matching write and read operation; it is interpreted for the
    fixed-width integers and the variable-length one, and gives the round trip of whole sequences.
  \<^item> \<open>Byte_Fifo\<close>, \<open>Fifo_Buffer\<close>, \<open>Ring_Buffer\<close>: the two circular byte queues, \<open>stun/fifo_buffer.cc\<close> and
    \<open>base/buffer.cc\<close>. The locale \<open>byte_fifo\<close> is the contract of a byte queue with the theorem that what
    comes out is what went in; both queues interpret it.
  \<^item> \<open>Bit_Buffer\<close>: \<open>bit_buffer.cc\<close>, reading and writing single bits, exponential Golomb codes and
    non-symmetric values. The locale \<open>bit_codec\<close> is the contract of a code.
  \<^item> \<open>Ip_Address\<close>, \<open>Socket_Address\<close>: \<open>ip_address.cc\<close>, \<open>socket_address.cc\<close> and the headers. An address is
    its family and its bytes. The resolver of literals (\<open>inet_pton\<close>, \<open>inet_ntop\<close>) is a parameter.
  \<^item> \<open>Block_Hash\<close>, \<open>Md5\<close>, \<open>Sha1\<close>, \<open>Message_Digest\<close>: \<open>md5.cc\<close>, \<open>sha1.cc\<close>, \<open>message_digest.cc\<close>. The contexts
    are records with the count words, state and buffer of the code. The locales \<open>hash_stream\<close>,
    \<open>hash_digest\<close> and \<open>digest_object\<close> go from the block function to the incremental interface.
  \<^item> \<open>Crc32_Tables\<close>, \<open>Crc32\<close>: the tables and the software checksum of \<open>crc32_sw.cc\<close>.
  \<^item> \<open>String_Encode\<close>: \<open>string_encode.cc\<close>, hexadecimal text, splitting and joining.
  \<^item> \<open>Stun_Types\<close>, \<open>Stun_Attribute\<close>, \<open>Stun_Message\<close>: \<open>stun.h\<close> and \<open>stun.cc\<close>. The attribute classes are one
    record with a datatype for the class and its members; virtual functions are case distinctions.
  \<^item> \<open>Heap_Timer\<close>: the timer queue of \<open>timer.cc\<close> and the timer calls and the loop of \<open>event_loop.cc\<close>. The clock is the
    stream of its readings; a callback is a value that the client runs on a state of which the timers are a part.
  \<^item> \<open>Stun_Request\<close>: \<open>stun_request.cc\<close>. Requests are objects of a heap, the manager's map and the timers
    of the event loop are parts of the same state, and the notifications are a trace of events.
  \<^item> \<open>Pseudo_Tcp\<close>, \<open>Tcp_Process\<close>: \<open>pseudo_tcp.cc\<close>, the reliable stream over datagrams. \<open>Pseudo_Tcp\<close> has the members,
    the buffers and options, \<open>packet\<close>, \<open>transmit\<close> and \<open>attemptSend\<close>; \<open>Tcp_Process\<close> has the segments that arrive, the
    clock and the calls of the user. Its two buffers are those of \<open>Fifo_Buffer\<close>, its connect message is built
    and read with \<open>Byte_Buffer\<close>. \<open>Tcp_Invariant\<close> has the step relation of all calls and its invariant, \<open>Tcp_Stream\<close>
    the delivery of the byte stream.

  \<^bold>\<open>Conventions.\<close> \<open>uint8_t\<close> to \<open>uint64_t\<close> are words of their width, so that the arithmetic wraps as in the
  code; \<open>size_t\<close> is \<open>nat\<close>, as no modelled object reaches the size of the address space. An operation that
  can fail an assertion or have undefined behaviour returns \<open>None\<close> in that case; a reported failure is a
  value. Out-parameters are returned. Uninitialised memory, the clock, random numbers and virtual
  functions of the user are arguments. Names are those of the source; a method whose name occurs in
  several classes carries the name of its class.

  \<^bold>\<open>What is shown.\<close>
  \<^item> Queues: both byte queues are first-in first-out for every sequence of operations and every
    capacity, and the growing one does what a list does, without a failed assertion; writing behind the readable bytes, resizing and direct access keep the contents.
  \<^item> Codes: every writer is undone by its reader, for bytes, variable-length integers, bits,
    Golomb codes, hexadecimal text, split text, socket addresses and STUN messages; overlong and
    truncated input is refused and, where the code says so, the position is restored.
  \<^item> Addresses: masks and prefixes act on exactly the bits they name; the comparison operators are
    strict total orders that agree with equality, and equal addresses have equal hashes.
  \<^item> Digests: MD5, SHA-1, HMAC and CRC-32C agree with their standards, written out as specifications,
    for every split of the input into updates; the padding loop of SHA-1 ends.
  \<^item> Messages: reading what was written gives the message back; reading any bytes ends, stays inside
    the input and either fails or yields attributes; the length field counts the attributes;
    a message with added integrity and fingerprint passes the checks, and the integrity check accepts
    exactly the messages whose first integrity attribute, given by the layout of the attributes before it,
    holds the right HMAC.
  \<^item> Transactions: an unanswered request is sent nine times and reported once, when its timer is the only one,
    and not before \<open>STUN_TOTAL_TIMEOUT\<close> microseconds, where the header announces milliseconds; a response
    reaches at most one request and at most once.
  \<^item> Streams: from a new \<open>PseudoTcp\<close> object, whatever the peer, the network, the clock and the user do, the send
    list accounts for every buffered byte, the retransmission timeout, the own window scale and the packet level
    stay in their bounds, the segment size too unless an MTU below the packet overhead was reported,
    and the assertions of the acknowledgment and send loops hold. A receiver delivers exactly the
    stream of its peer however the segments are cut, ordered and repeated.

  \<^bold>\<open>Loops and bounds.\<close> No definition uses fuel for a loop of the code: the loops are structural, or have
  a measure (bytes left to read, value left to shift, packet sizes left in the table, bytes and segments
  left to send). \<open>TimerInLoop\<close> need not end, since a callback may set a timer that is over at once: it is a
  partial function, \<open>None\<close> when it does not return, and the theorem about it shows that it returns. The endless
  loop of \<open>EnterLoop\<close> is counted in turns; the theorem holds for every number of turns, and for some number the
  request is over.

  \<^bold>\<open>Not modelled.\<close> The ICE agent, the ports, the STUN and TURN servers and clients: they are driven by
  signals, sockets and the event loop, and their state is spread over objects that own each other. Sockets,
  interfaces, pollers, files, processes, threads and logging: system calls. DTLS, SSL, RPC and the
  consensus service: wrappers of libraries that are not part of the sources, and generated code. The
  checksum instructions of the processors: intrinsics. Configuration files, character encodings and
  dates: apart from the network stack. Locks are not modelled: every modelled operation that
  takes one holds it throughout and is one step. A notification of \<open>PseudoTcp\<close> that calls back into the
  object is not modelled, and the delivery of the stream is stated for sequence numbers that do not wrap
  around, which the comparisons of the code do not support.
\<close>

end
